(* ===== verification/Rdb_Prelude.thy ===== *)
theory Rdb_Prelude
  imports Main "HOL-Library.Word" "HOL-Library.Monad_Syntax"
begin

text \<open>
  Shared vocabulary of the development: the machine integer types of the C++ code, bytes in
  memory (a block of memory is the list of its bytes, a pointer into it is an index), checked
  reads and writes that are \<open>None\<close> where the C++ would leave the block, and the
  little-endian number of a byte list.
\<close>

unbundle bit_operations_syntax

type_synonym u8 = "8 word"
type_synonym u16 = "16 word"
type_synonym u32 = "32 word"
type_synonym u64 = "64 word"

text \<open>Rewrite rules for reads and writes at a known position, and for byte lists.\<close>

named_theorems rdb_mem
named_theorems rdb_bytes

section \<open>Option monad\<close>

lemma bind_Some_iff: "Option.bind m f = Some y \<longleftrightarrow> (\<exists>x. m = Some x \<and> f x = Some y)"
  by (cases m) auto

lemma bind_map_option: "Option.bind (map_option g m) f = Option.bind m (\<lambda>x. f (g x))"
  by (cases m) auto

section \<open>Checked memory access\<close>

text \<open>
  \<open>rdn m i n\<close> are the \<open>n\<close> bytes at index \<open>i\<close> of the block \<open>m\<close>; \<open>wrn m i xs\<close> overwrites the
  bytes from index \<open>i\<close> on. Both are \<open>None\<close> when the access is not inside the block, which in
  the C++ is undefined behaviour.
\<close>

definition rd8 :: "u8 list \<Rightarrow> nat \<Rightarrow> u8 option" where
  "rd8 m i = (if i < length m then Some (m ! i) else None)"

definition rdn :: "u8 list \<Rightarrow> nat \<Rightarrow> nat \<Rightarrow> u8 list option" where
  "rdn m i n = (if i + n \<le> length m then Some (take n (drop i m)) else None)"

definition wrn :: "u8 list \<Rightarrow> nat \<Rightarrow> u8 list \<Rightarrow> u8 list option" where
  "wrn m i xs =
     (if i + length xs \<le> length m then Some (take i m @ xs @ drop (i + length xs) m) else None)"

lemma rd8_append_right [rdb_mem]: "rd8 (pre @ m) (length pre + i) = rd8 m i"
  by (simp add: rd8_def nth_append)

lemma rd8_append_left: "i < length m \<Longrightarrow> rd8 (m @ post) i = rd8 m i"
  by (simp add: rd8_def nth_append)

lemma rd8_at [rdb_mem]: "rd8 (pre @ x # post) (length pre) = Some x"
  by (simp add: rd8_def nth_append)

lemma rd8_Cons_0 [rdb_mem]: "rd8 (x # xs) 0 = Some x"
  by (simp add: rd8_def)

lemma rd8_Cons_Suc [rdb_mem]: "rd8 (x # xs) (Suc i) = rd8 xs i"
  by (simp add: rd8_def)

lemma rd8_Some: "rd8 m i = Some v \<longleftrightarrow> i < length m \<and> v = m ! i"
  by (auto simp: rd8_def)

lemma rd8_None: "rd8 m i = None \<longleftrightarrow> length m \<le> i"
  by (auto simp: rd8_def)

lemma rdn_length: "rdn m i n = Some xs \<Longrightarrow> length xs = n"
  by (auto simp: rdn_def split: if_splits)

lemma rdn_Some: "rdn m i n = Some xs \<longleftrightarrow> i + n \<le> length m \<and> xs = take n (drop i m)"
  by (auto simp: rdn_def)

lemma rdn_None: "rdn m i n = None \<longleftrightarrow> length m < i + n"
  by (auto simp: rdn_def)

lemma rdn_append_right [rdb_mem]: "rdn (pre @ m) (length pre + i) n = rdn m i n"
  by (simp add: rdn_def)

lemma rdn_append_left: "i + n \<le> length m \<Longrightarrow> rdn (m @ post) i n = rdn m i n"
  by (simp add: rdn_def)

lemma rdn_at [rdb_mem]: "length xs = n \<Longrightarrow> rdn (pre @ xs @ post) (length pre) n = Some xs"
  by (simp add: rdn_def)

lemma wrn_length: "wrn m i xs = Some m' \<Longrightarrow> length m' = length m"
  by (auto simp: wrn_def split: if_splits)

lemma wrn_Nil [simp]: "wrn m i [] = (if i \<le> length m then Some m else None)"
  by (simp add: wrn_def)

lemma wrn_fits: "wrn m i xs = None \<longleftrightarrow> length m < i + length xs"
  by (auto simp: wrn_def)

text \<open>Consecutive writes are one write: the law the sequential encoders rest on.\<close>

lemma wrn_wrn [rdb_mem]:
  "Option.bind (wrn m i xs) (\<lambda>m'. wrn m' (i + length xs) ys) = wrn m i (xs @ ys)"
  by (auto simp: wrn_def ac_simps)

lemma wrn_wrn_ge: "Option.bind (wrn m i xs) (\<lambda>m'. Option.bind (wrn m' (i + length xs) ys) f)
    = Option.bind (wrn m i (xs @ ys)) f"
  by (subst wrn_wrn [symmetric]) (simp add: Option.bind_assoc)

lemma rdn_wrn_same: "wrn m i xs = Some m' \<Longrightarrow> rdn m' i (length xs) = Some xs"
  by (auto simp: wrn_def rdn_def split: if_splits)

section \<open>Little-endian numbers\<close>

text \<open>The number a list of bytes holds, least significant byte first, and its inverse.\<close>

fun nat_of_le :: "u8 list \<Rightarrow> nat" where
  "nat_of_le [] = 0"
| "nat_of_le (b # bs) = unat b + 256 * nat_of_le bs"

fun le_of_nat :: "nat \<Rightarrow> nat \<Rightarrow> u8 list" where
  "le_of_nat 0 v = []"
| "le_of_nat (Suc n) v = word_of_nat (v mod 256) # le_of_nat n (v div 256)"

lemma le_of_nat_length [simp]: "length (le_of_nat n v) = n"
  by (induction n arbitrary: v) auto

lemma unat_lt_256: "unat (b :: u8) < 256"
  using unsigned_less [of b, where ?'a = nat] by simp

lemma nat_of_le_bound: "nat_of_le bs < 256 ^ length bs"
proof (induction bs)
  case (Cons b bs)
  have "unat b + 256 * nat_of_le bs < 256 * Suc (nat_of_le bs)"
    using unat_lt_256 [of b] by simp
  also have "\<dots> \<le> 256 * 256 ^ length bs"
    using Cons.IH by (intro mult_le_mono2) simp
  finally show ?case by simp
qed simp

lemma unat_of_nat_u8: "unat (word_of_nat (v mod 256) :: u8) = v mod 256"
  by (simp add: unat_of_nat)

lemma nat_of_le_of_nat: "nat_of_le (le_of_nat n v) = v mod 256 ^ n"
proof (induction n arbitrary: v)
  case (Suc n)
  have "v mod 256 + 256 * (v div 256 mod 256 ^ n) = v mod (256 * 256 ^ n)"
    by (metis add.commute mod_mult2_eq)
  with Suc show ?case by (simp add: unat_of_nat_u8)
qed simp

lemma le_of_nat_of_le: "le_of_nat (length bs) (nat_of_le bs) = bs"
proof (induction bs)
  case (Cons b bs)
  have "(unat b + 256 * nat_of_le bs) div 256 = nat_of_le bs"
    and "(unat b + 256 * nat_of_le bs) mod 256 = unat b"
    using unat_lt_256 [of b] by simp_all
  with Cons show ?case by simp
qed simp

lemma nat_of_le_append: "nat_of_le (xs @ ys) = nat_of_le xs + 256 ^ length xs * nat_of_le ys"
  by (induction xs) (simp_all add: algebra_simps)

lemma nat_of_le_inj: "length xs = length ys \<Longrightarrow> nat_of_le xs = nat_of_le ys \<Longrightarrow> xs = ys"
  by (metis le_of_nat_of_le)

lemma rdn_Suc: "rdn m p (Suc n) = do { b \<leftarrow> rd8 m p; bs \<leftarrow> rdn m (Suc p) n; Some (b # bs) }"
  by (auto simp: rdn_def rd8_def take_Suc hd_drop_conv_nth tl_drop drop_Suc)

lemma rdn_0: "rdn m p 0 = (if p \<le> length m then Some [] else None)"
  by (simp add: rdn_def)

lemma mod_block: "a * n \<le> x \<Longrightarrow> x < a * n + n \<Longrightarrow> x mod n = x - a * (n :: nat)"
  by (metis add_diff_cancel_left' le_add_diff_inverse mod_less mod_mult_self3 nat_add_left_cancel_less)

lemma div_block: "a * n \<le> x \<Longrightarrow> x < a * n + n \<Longrightarrow> x div n = (a :: nat)"
  by (rule div_nat_eqI) (simp_all add: mult.commute)

section \<open>Words\<close>

lemma u8_bit_high [simp]: "8 \<le> n \<Longrightarrow> \<not> bit (b :: u8) n"
  using bit_imp_le_length [of b n] by auto

lemma word_sless_0_iff: "(x :: 'a::len word) <s 0 \<longleftrightarrow> bit x (LENGTH('a) - 1)"
  by (simp add: word_sless_alt not_le flip: bit_last_iff)

lemma sint_of_int_self:
  "- (2 ^ (LENGTH('a) - Suc 0)) \<le> k \<Longrightarrow> k < 2 ^ (LENGTH('a) - Suc 0) \<Longrightarrow>
     sint (word_of_int k :: 'a::len word) = k"
  by (simp add: sint_sbintrunc' signed_take_bit_int_eq_self)

lemma sint_of_int_nonneg:
  "0 \<le> k \<Longrightarrow> k < 2 ^ (LENGTH('a) - Suc 0) \<Longrightarrow> sint (word_of_int k :: 'a::len word) = k"
  by (rule sint_of_int_self) (auto intro: order_trans)

lemma uint_of_int_self:
  "0 \<le> k \<Longrightarrow> k < 2 ^ LENGTH('a) \<Longrightarrow> uint (word_of_int k :: 'a::len word) = k"
  by (simp add: uint_word_of_int)

lemma u8_uint_range: "0 \<le> uint (b :: u8)" "uint b < 256"
  using unsigned_less [of b, where ?'a = int] by simp_all

lemma unat_add_8: "8 \<le> unat (8 + x :: u64) \<Longrightarrow> unat (8 + x :: u64) - 8 = unat x"
proof -
  assume a: "8 \<le> unat (8 + x)"
  have "unat x < 2 ^ 64" using unsigned_less [of x, where ?'a = nat] by simp
  moreover have "unat (8 + x) = (8 + unat x) mod 2 ^ 64"
    by (simp add: unat_word_ariths)
  ultimately show ?thesis using a
    by (cases "8 + unat x < 2 ^ 64") (simp_all add: le_mod_geq)
qed

lemma unat_ucast_32: "unat x < 2 ^ 32 \<Longrightarrow> unat (ucast (x :: u64) :: u32) = unat x"
  by (simp add: unsigned_ucast_eq take_bit_nat_eq_self)

lemma unat_and_mask: "unat ((x :: 'a::len word) AND mask n) = unat x mod 2 ^ n"
  by (simp only: take_bit_eq_mask [symmetric] unsigned_take_bit_eq take_bit_eq_mod [of n "unat x"])

lemma and_mask_id: "(x :: 'a::len word) AND mask n = x \<longleftrightarrow> unat x < 2 ^ n"
  by (metis unat_and_mask mod_less mod_less_divisor word_unat_eq_iff zero_less_numeral zero_less_power)

lemma unat_and_not_mask: "unat ((x :: 'a::len word) AND NOT (mask n)) = 2 ^ n * (unat x div 2 ^ n)"
proof -
  have "(x AND NOT (mask n)) + (x AND mask n) = (x AND NOT (mask n)) OR (x AND mask n)"
    by (rule disjunctive_add) (simp add: bit_simps)
  also have "\<dots> = x"
    by (rule bit_word_eqI) (auto simp: bit_simps)
  finally have "x AND NOT (mask n) = x - (x AND mask n)"
    by (simp only: eq_diff_eq)
  moreover have "x AND mask n \<le> x"
    by (simp add: word_and_le1 word_and_le2)
  ultimately have "unat (x AND NOT (mask n)) = unat x - unat (x AND mask n)"
    by (simp add: unat_sub)
  then show ?thesis by (simp only: unat_and_mask minus_mod_eq_mult_div)
qed

lemma and_masks:
  "(0x3f :: 'a::len word) = mask 6" "(0x3fff :: 'a word) = mask 14" "(0xffffffff :: 'a word) = mask 32"
  "(0x7f :: 'a word) = mask 7" "(0xf :: 'a word) = mask 4" "(0xff :: 'a word) = mask 8"
  "(0xfff :: 'a word) = mask 12" "(0xffff :: 'a word) = mask 16"
  by (simp_all add: mask_numeral)

lemma u8_high_masks: "(0xc0 :: u8) = NOT (mask 6)" "(0xf0 :: u8) = NOT (mask 4)"
  by (simp_all add: mask_numeral)

lemma unat_u8_high:
  "unat (b AND 0xc0 :: u8) = 64 * (unat b div 64)" "unat (b AND 0xf0 :: u8) = 16 * (unat b div 16)"
  by (simp_all only: u8_high_masks unat_and_not_mask) simp_all

lemma unat_push_or:
  fixes w y :: "'a::len word"
  assumes y: "unat y < 2 ^ n" and w: "2 ^ n * unat w + 2 ^ n \<le> 2 ^ LENGTH('a)"
  shows "unat (push_bit n w OR y) = 2 ^ n * unat w + unat y"
proof -
  have "y = take_bit n y"
    using y and_mask_id [of y n] by (simp add: take_bit_eq_mask)
  then have "\<not> bit (push_bit n w) k \<or> \<not> bit y k" for k
    by (metis bit_push_bit_iff bit_take_bit_iff not_le)
  then have "push_bit n w OR y = push_bit n w + y"
    by (rule disjunctive_add [symmetric])
  also have "\<dots> = word_of_nat (2 ^ n * unat w + unat y)"
    by (simp add: push_bit_eq_mult mult.commute)
  finally have eq: "push_bit n w OR y = word_of_nat (2 ^ n * unat w + unat y)" .
  have "2 ^ n * unat w + unat y < 2 ^ LENGTH('a)" using y w by linarith
  then show ?thesis unfolding eq unat_of_nat by (rule mod_less)
qed

definition bytes_at :: "u8 list \<Rightarrow> nat \<Rightarrow> u8 list \<Rightarrow> bool" where
  "bytes_at m p xs \<longleftrightarrow> rdn m p (length xs) = Some xs"

lemma bytes_at_Cons [rdb_mem]: "bytes_at m p (x # xs) \<longleftrightarrow> rd8 m p = Some x \<and> bytes_at m (Suc p) xs"
  by (auto simp: bytes_at_def rdn_Suc bind_Some_iff)

lemma bytes_at_Nil [rdb_mem]: "bytes_at m p [] \<longleftrightarrow> p \<le> length m"
  by (simp add: bytes_at_def rdn_0)

lemma bytes_at_le: "bytes_at m p xs \<Longrightarrow> p + length xs \<le> length m"
  by (auto simp: bytes_at_def rdn_Some)

lemma bytes_at_append [rdb_mem]:
  "bytes_at m p (xs @ ys) \<longleftrightarrow> bytes_at m p xs \<and> bytes_at m (p + length xs) ys"
  by (induction xs arbitrary: p) (auto simp: bytes_at_Cons bytes_at_Nil dest: bytes_at_le)

lemma bytes_at_rdn: "bytes_at m p xs \<Longrightarrow> n = length xs \<Longrightarrow> rdn m p n = Some xs"
  by (simp add: bytes_at_def)

lemma bytes_at_here [simp]: "bytes_at (pre @ xs @ post) (length pre) xs"
  by (simp add: bytes_at_def rdn_at)

lemma bytes_at_start [simp]: "bytes_at (xs @ post) 0 xs"
  using bytes_at_here [of "[]" xs post] by simp

lemma wrn_bytes_at: "wrn m p xs = Some m' \<Longrightarrow> bytes_at m' p xs"
  by (simp add: bytes_at_def rdn_wrn_same)

lemma wrn_seq [rdb_mem]:
  "Option.bind (wrn b p [a]) (\<lambda>b1. Option.bind (wrn b1 (Suc p) ys) f) = Option.bind (wrn b p (a # ys)) f"
  using wrn_wrn_ge [of b p "[a]" ys f] by simp

lemma and_ff: "ucast (x AND 0xff :: u64) = (ucast x :: u8)"
  by (rule bit_word_eqI) (simp add: and_masks bit_simps)

lemma unat_ucast_u8: "unat (ucast (x :: 'a::len word) :: u8) = unat x mod 256"
  by (simp add: unsigned_ucast_eq take_bit_eq_mod [of 8 "unat x"])

lemma unat_u8_up: "8 \<le> LENGTH('a) \<Longrightarrow> unat (ucast (b :: u8) :: 'a::len word) = unat b"
  using unat_lt_256 [of b] power_increasing [of 8 "LENGTH('a)" "2::nat"]
  by (simp add: unsigned_ucast_eq take_bit_nat_eq_self)

lemma ucast_ucast_32: "unat x < 4294967296 \<Longrightarrow> ucast (ucast x :: u32) = (x :: u64)"
  using unat_ucast_32 [of x]
  by (simp add: word_unat_eq_iff unsigned_ucast_eq [of "_ :: u32"] take_bit_nat_eq_self)

lemma ucast_down_scast: "LENGTH('a::len) \<le> LENGTH('b::len) \<Longrightarrow> (ucast (x :: 'b word) :: 'a word) = scast x"
  by (rule bit_word_eqI) (auto simp: bit_simps)

lemma sint_ucast_small:
  "LENGTH('a::len) \<le> LENGTH('b::len) \<Longrightarrow> - (2 ^ (LENGTH('a) - Suc 0)) \<le> sint x \<Longrightarrow>
     sint x < 2 ^ (LENGTH('a) - Suc 0) \<Longrightarrow> sint (ucast (x :: 'b word) :: 'a word) = sint x"
  by (simp only: ucast_down_scast scast_eq) (rule sint_of_int_self)

lemma scast_ucast_small:
  fixes x :: "'b::len word"
  assumes "LENGTH('a::len) \<le> LENGTH('b)" "LENGTH('c::len) \<le> LENGTH('b)"
    "- (2 ^ (LENGTH('a) - Suc 0)) \<le> sint x" "sint x < 2 ^ (LENGTH('a) - Suc 0)"
  shows "scast (ucast x :: 'a word) = (ucast x :: 'c word)"
proof -
  have "scast (ucast x :: 'a word) = (word_of_int (sint x) :: 'c word)"
    using sint_ucast_small [OF assms(1,3,4)] by (simp only: scast_eq)
  also have "\<dots> = scast x" by (simp only: scast_eq)
  finally show ?thesis using assms(2) by (simp only: ucast_down_scast)
qed

lemma hdr14_first: "unat x < 16384 \<Longrightarrow> unat (0x40 OR ucast (drop_bit 8 (x :: u64)) :: u8) = 64 + unat x div 256"
  using unat_push_or [of "ucast (drop_bit 8 x) :: u8" 6 1]
  by (simp add: unat_ucast_u8 unat_drop_bit_eq drop_bit_eq_div [of 8 "unat x"] less_mult_imp_div_less)

lemma hdr14_value:
  fixes x :: u64 assumes "unat x < 16384"
  shows "push_bit 8 (ucast ((0x40 OR ucast (drop_bit 8 x) :: u8) AND 0x3f)) OR ucast (ucast x :: u8) = x"
proof -
  let ?b = "0x40 OR ucast (drop_bit 8 x) :: u8"
  have "unat (?b AND 0x3f) = unat x div 256"
    using assms by (simp only: and_masks unat_and_mask hdr14_first) (simp add: less_mult_imp_div_less)
  then have "unat (push_bit 8 (ucast (?b AND 0x3f)) OR ucast (ucast x :: u8) :: u64)
      = 2 ^ 8 * (unat x div 256) + unat x mod 256"
    using assms by (subst unat_push_or) (simp_all add: unat_u8_up unat_ucast_u8 less_mult_imp_div_less)
  then show ?thesis by (simp add: word_unat_eq_iff)
qed

lemma wrn_frame: "wrn m i xs = Some m' \<Longrightarrow> j < i \<or> i + length xs \<le> j \<Longrightarrow> rd8 m' j = rd8 m j"
  by (auto simp: wrn_def rd8_def nth_append min_def split: if_splits)

lemma unat_ucast_64: "unat (ucast (x :: u32) :: u64) = unat x"
  using unsigned_less [of x, where ?'a = nat]
  by (simp add: unsigned_ucast_eq take_bit_nat_eq_self)

lemma hdr14_first_32: "unat x < 16384 \<Longrightarrow> unat (0x40 OR ucast (drop_bit 8 (x :: u32)) :: u8) = 64 + unat x div 256"
  using unat_push_or [of "ucast (drop_bit 8 x) :: u8" 6 1]
  by (simp add: unat_ucast_u8 unat_drop_bit_eq drop_bit_eq_div [of 8 "unat x"] less_mult_imp_div_less)

lemma ucast_32_64:
  "(ucast (drop_bit 8 (x :: u32)) :: u8) = ucast (drop_bit 8 (ucast x :: u64))"
  "(ucast x :: u8) = ucast (ucast x :: u64)"
  by (rule bit_word_eqI; simp add: bit_simps)+

lemma unat_off_add: "unat (x :: u32) + n < 2 ^ 32 \<Longrightarrow> unat (x + word_of_nat n) = unat x + n"
  by (simp add: unat_word_ariths unat_of_nat)

lemma unat_off_Suc: "unat (x :: u32) + 1 < 2 ^ 32 \<Longrightarrow> unat (x + 1) = Suc (unat x)"
  using unat_off_add [of x 1] by simp

lemma unat_length_u32: "length d < 2 ^ 32 \<Longrightarrow> unat (word_of_nat (length d) :: u32) = length d"
  by (simp add: unat_of_nat)

lemma bytes_at_hd: "bytes_at m p xs \<Longrightarrow> xs \<noteq> [] \<Longrightarrow> rd8 m p = Some (hd xs)"
  by (cases xs) (simp_all add: bytes_at_Cons)

lemma wrn_keeps_bytes:
  assumes "wrn m i xs = Some m'"
  shows "p + length ys \<le> i \<or> i + length xs \<le> p \<Longrightarrow> bytes_at m' p ys \<longleftrightarrow> bytes_at m p ys"
proof (induction ys arbitrary: p)
  case Nil
  then show ?case using wrn_length [OF assms] by (simp add: bytes_at_Nil)
next
  case (Cons y ys)
  then show ?case
    using wrn_frame [OF assms, of p] Cons.IH [of "Suc p"] by (auto simp: bytes_at_Cons)
qed

lemma wrn_ok: "i + length xs \<le> length m \<Longrightarrow> \<exists>m'. wrn m i xs = Some m' \<and> length m' = length m \<and> bytes_at m' i xs"
  using wrn_fits [of m i xs] wrn_length [of m i xs] wrn_bytes_at [of m i xs] by (cases "wrn m i xs") auto

lemma wrn_wrn_before:
  "Option.bind (wrn m (i + length xs) ys) (\<lambda>m'. wrn m' i xs) = wrn m i (xs @ ys)"
  by (auto simp: wrn_def ac_simps)

lemma unat_off_sub:
  assumes "k \<le> unat (off :: u32)" shows "unat (off - word_of_nat k) = unat off - k"
proof -
  have "k < 2 ^ 32" using assms unsigned_less [of off, where ?'a = nat] by simp
  then have k: "unat (word_of_nat k :: u32) = k" by (simp add: unat_of_nat)
  then have "word_of_nat k \<le> off" using assms by (simp add: word_le_nat_alt)
  from unat_sub [OF this] show ?thesis by (simp only: k)
qed

lemma ucast_of_nat_64: "n < 2 ^ 32 \<Longrightarrow> ucast (word_of_nat n :: u32) = (word_of_nat n :: u64)"
  by (simp add: word_unat_eq_iff unat_ucast_64 unat_of_nat)

lemma unat_of_nat_32: "n < 2 ^ 32 \<Longrightarrow> unat (word_of_nat n :: u32) = n"
  by (simp add: unat_of_nat)

lemma ucast_and_low:
  "ucast (v AND 0xff :: u32) = (ucast v :: u8)" "ucast (w AND 0xff :: u64) = (ucast w :: u8)"
  "ucast (w AND 0xffff) = (ucast w :: u16)" "ucast (w AND 0xffffffff) = (ucast w :: u32)"
  "ucast (drop_bit 16 (w AND 0xff0000)) = (ucast (drop_bit 16 w) :: u8)"
proof -
  have m: "(0xff0000 :: u64) = push_bit 16 (mask 8)" by (simp add: mask_numeral)
  show "ucast (v AND 0xff :: u32) = (ucast v :: u8)" "ucast (w AND 0xff :: u64) = (ucast w :: u8)"
    "ucast (w AND 0xffff) = (ucast w :: u16)" "ucast (w AND 0xffffffff) = (ucast w :: u32)"
    by (rule bit_word_eqI; simp add: and_masks bit_simps)+
  show "ucast (drop_bit 16 (w AND 0xff0000)) = (ucast (drop_bit 16 w) :: u8)"
    unfolding m by (rule bit_word_eqI) (auto simp: bit_simps)
qed

lemma uint_sint_nonneg: "0 \<le> sint v \<Longrightarrow> uint (v :: 'a::len word) = sint v"
proof -
  assume "0 \<le> sint v"
  moreover have "sint v < 2 ^ (LENGTH('a) - 1)" by (rule sint_lt)
  moreover have "(2::int) ^ (LENGTH('a) - 1) \<le> 2 ^ LENGTH('a)" by (rule power_increasing) auto
  ultimately have "uint (word_of_int (sint v) :: 'a word) = sint v"
    by (intro uint_of_int_self) (simp, rule order_less_le_trans)
  then show ?thesis by simp
qed

lemma sint_mod_4096: "sint (v :: u64) mod 4096 = int (unat v mod 4096)"
proof -
  have "take_bit 12 (sint v) = take_bit 12 (uint v)"
    by (rule bit_eqI) (auto simp: bit_simps bit_sint_iff bit_uint_iff)
  then show ?thesis by (simp add: take_bit_eq_mod of_nat_mod)
qed

lemma sint_eq: "sint x = sint y \<longleftrightarrow> x = (y :: 'a::len word)"
  by (auto dest: arg_cong [where f = "word_of_int :: int \<Rightarrow> 'a word"])

end
