(* ===== verification/Rdb_Monad.thy ===== *)
theory Rdb_Monad
  imports Rdb_Prelude
begin

text \<open>
  The effects of the decoder. A C++ function that returns an \<open>RdbErrCode\<close> and changes state is
  a \<open>prog\<close>: it runs on a state and ends with a value (\<open>Ok\<close>, the code returned
  \<open>RDB_OK\<close>), with an error code (\<open>Err\<close>) or outside the C++ semantics (\<open>Fault\<close>, a read or
  write outside the memory it may access). \<open>andThen\<close> is the idiom
  \<open>if ( (err = \<dots>) != RDB_OK ) return err;\<close>. The state reached is kept in every case, since
  output has been produced and input consumed by then.
\<close>

datatype RdbErrCode =
    RDB_OK | RDB_ERR_OUTPUT | RDB_ERR_TRUNC | RDB_ERR_VERSION | RDB_ERR_CRC | RDB_ERR_TYPE
  | RDB_ERR_HDR | RDB_ERR_LZF | RDB_ERR_NOTSUP | RDB_ERR_ZLEN | RDB_EOF_MARK

datatype 'a outcome = Ok 'a | Err RdbErrCode | Fault

type_synonym ('s, 'a) prog = "'s \<Rightarrow> 'a outcome \<times> 's"

definition ret :: "'a \<Rightarrow> ('s, 'a) prog" where
  "ret x s = (Ok x, s)"

definition throw :: "RdbErrCode \<Rightarrow> ('s, 'a) prog" where
  "throw e s = (Err e, s)"

definition andThen :: "('s, 'a) prog \<Rightarrow> ('a \<Rightarrow> ('s, 'b) prog) \<Rightarrow> ('s, 'b) prog" where
  "andThen m f s = (case m s of (Ok x, s') \<Rightarrow> f x s' | (Err e, s') \<Rightarrow> (Err e, s') | (Fault, s') \<Rightarrow> (Fault, s'))"

definition gets :: "('s \<Rightarrow> 'a) \<Rightarrow> ('s, 'a) prog" where
  "gets g s = (Ok (g s), s)"

definition modify :: "('s \<Rightarrow> 's) \<Rightarrow> ('s, unit) prog" where
  "modify g s = (Ok (), g s)"

text \<open>A read that may leave its block of memory.\<close>

definition checked :: "'a option \<Rightarrow> ('s, 'a) prog" where
  "checked v s = (case v of None \<Rightarrow> (Fault, s) | Some x \<Rightarrow> (Ok x, s))"

text \<open>A program on a part of the state, read by \<open>g\<close> and written back by \<open>p\<close>.\<close>

definition zoom :: "('s \<Rightarrow> 't) \<Rightarrow> ('t \<Rightarrow> 's \<Rightarrow> 's) \<Rightarrow> ('t, 'a) prog \<Rightarrow> ('s, 'a) prog" where
  "zoom g p m s = (case m (g s) of (r, t) \<Rightarrow> (r, p t s))"

text \<open>Rules that run a program on a given state.\<close>

named_theorems run_simps

lemma run_ret [run_simps]: "ret x s = (Ok x, s)" by (rule ret_def)
lemma run_throw [run_simps]: "throw e s = (Err e, s)" by (rule throw_def)
lemma run_gets [run_simps]: "gets g s = (Ok (g s), s)" by (rule gets_def)
lemma run_modify [run_simps]: "modify g s = (Ok (), g s)" by (rule modify_def)

lemma run_checked [run_simps]:
  "checked None s = (Fault, s)"
  "checked (Some x) s = (Ok x, s)"
  by (simp_all add: checked_def)

lemma run_if [run_simps]: "(if c then m1 else m2) s = (if c then m1 s else m2 s)"
  by simp

lemma andThen_Ok: "m s = (Ok x, s') \<Longrightarrow> andThen m f s = f x s'"
  by (simp add: andThen_def)

lemma andThen_Err: "m s = (Err e, s') \<Longrightarrow> andThen m f s = (Err e, s')"
  by (simp add: andThen_def)

lemma andThen_Fault: "m s = (Fault, s') \<Longrightarrow> andThen m f s = (Fault, s')"
  by (simp add: andThen_def)

lemma run_andThen [run_simps]:
  "andThen (ret x) f s = f x s"
  "andThen (throw e) f s = (Err e, s)"
  "andThen (gets g) f s = f (g s) s"
  "andThen (modify h) f' s = f' () (h s)"
  "andThen (checked None) k s = (Fault, s)"
  "andThen (checked (Some x)) k s = k x s"
  "andThen (andThen m h1) h2 s = andThen m (\<lambda>x. andThen (h1 x) h2) s"
  "andThen (if c then m1 else m2) h3 s = (if c then andThen m1 h3 s else andThen m2 h3 s)"
  by (auto simp: andThen_def ret_def throw_def gets_def modify_def checked_def
      split: prod.splits outcome.splits)

lemma andThen_Ok_iff:
  "andThen m f s = (Ok y, s2) \<longleftrightarrow> (\<exists>x s1. m s = (Ok x, s1) \<and> f x s1 = (Ok y, s2))"
  by (auto simp: andThen_def split: prod.splits outcome.splits)

lemma andThen_assoc: "andThen (andThen m f) g = andThen m (\<lambda>x. andThen (f x) g)"
  by (rule ext) (simp add: run_andThen)

lemma andThen_ret: "andThen (ret x) f = f x"
  by (rule ext) (simp add: run_andThen)

lemma andThen_keeps:
  assumes "fst (m s) \<noteq> Fault" "P (snd (m s))"
    and "\<And>x. fst (m s) = Ok x \<Longrightarrow> fst (f x (snd (m s))) \<noteq> Fault \<and> P (snd (f x (snd (m s))))"
  shows "fst (andThen m f s) \<noteq> Fault \<and> P (snd (andThen m f s))"
  using assms by (cases "m s"; cases "fst (m s)") (auto simp: andThen_def)

text \<open>Every result of \<open>andThen\<close>: the first part stopped, or the second ran from its state.\<close>

lemma andThen_cases:
  assumes "andThen m f s = (r, s2)"
  obtains (stop_err) e where "m s = (Err e, s2)" "r = Err e"
  | (stop_fault) "m s = (Fault, s2)" "r = Fault"
  | (cont) x s1 where "m s = (Ok x, s1)" "f x s1 = (r, s2)"
  using assms by (auto simp: andThen_def split: prod.splits outcome.splits)

section \<open>Relations every program keeps\<close>

text \<open>
  A reflexive and transitive relation between the state before and the state after (output only
  grows, a field is never written) holds of a whole program when it holds of its parts.
\<close>

locale state_order =
  fixes R :: "'s \<Rightarrow> 's \<Rightarrow> bool"
  assumes refl_R: "R s s"
    and trans_R: "R s t \<Longrightarrow> R t u \<Longrightarrow> R s u"
begin

definition keeps :: "('s, 'a) prog \<Rightarrow> bool" where
  "keeps m \<longleftrightarrow> (\<forall>s. R s (snd (m s)))"

lemma keepsD: "keeps m \<Longrightarrow> m s = (r, s') \<Longrightarrow> R s s'"
  unfolding keeps_def by (metis snd_conv)

lemma keeps_pure: "keeps (ret x)" "keeps (throw e)" "keeps (gets g)" "keeps (checked v)"
  by (simp_all add: keeps_def refl_R ret_def throw_def gets_def checked_def split: option.splits)

lemma keeps_modify: "(\<And>s. R s (h s)) \<Longrightarrow> keeps (modify h)"
  by (simp add: keeps_def modify_def)

lemma keeps_andThen: "keeps m \<Longrightarrow> (\<And>x. keeps (f x)) \<Longrightarrow> keeps (andThen m f)"
  unfolding keeps_def andThen_def
  by (auto split: prod.splits outcome.splits) (metis snd_conv trans_R)+

lemma keeps_if: "keeps m1 \<Longrightarrow> keeps m2 \<Longrightarrow> keeps (if c then m1 else m2)"
  by simp

lemmas keeps_intros = keeps_pure keeps_andThen keeps_if

end

section \<open>Total correctness of programs\<close>

text \<open>
  \<open>triple P m Q E\<close>: from a state with \<open>P\<close> the program does not fault; when it returns a value
  \<open>Q\<close> holds of it and the state reached, when it stops with an error \<open>E\<close> holds.
\<close>

definition triple ::
  "('s \<Rightarrow> bool) \<Rightarrow> ('s, 'a) prog \<Rightarrow> ('a \<Rightarrow> 's \<Rightarrow> bool) \<Rightarrow> ('s \<Rightarrow> bool) \<Rightarrow> bool" where
  "triple P m Q E \<longleftrightarrow>
     (\<forall>s. P s \<longrightarrow> (case m s of (Ok x, s') \<Rightarrow> Q x s' | (Err e, s') \<Rightarrow> E s' | (Fault, s') \<Rightarrow> False))"

named_theorems triple_intros

lemma triple_ret [triple_intros]: "(\<And>s. P s \<Longrightarrow> Q x s) \<Longrightarrow> triple P (ret x) Q E"
  by (simp add: triple_def ret_def)

lemma triple_throw [triple_intros]: "(\<And>s. P s \<Longrightarrow> E s) \<Longrightarrow> triple P (throw e) Q E"
  by (simp add: triple_def throw_def)

lemma triple_gets [triple_intros]: "(\<And>s. P s \<Longrightarrow> Q (g s) s) \<Longrightarrow> triple P (gets g) Q E"
  by (simp add: triple_def gets_def)

lemma triple_modify [triple_intros]: "(\<And>s. P s \<Longrightarrow> Q () (h s)) \<Longrightarrow> triple P (modify h) Q E"
  by (simp add: triple_def modify_def)

lemma triple_andThen:
  "triple P m M E \<Longrightarrow> (\<And>x. triple (M x) (f x) Q E) \<Longrightarrow> triple P (andThen m f) Q E"
  unfolding triple_def andThen_def
  by (fastforce split: prod.splits outcome.splits)

lemma triple_if [triple_intros]:
  "(c \<Longrightarrow> triple P m1 Q E) \<Longrightarrow> (\<not> c \<Longrightarrow> triple P m2 Q E) \<Longrightarrow> triple P (if c then m1 else m2) Q E"
  by simp

lemma triple_weaken:
  "triple P m Q E \<Longrightarrow> (\<And>s. P' s \<Longrightarrow> P s) \<Longrightarrow> (\<And>x s. Q x s \<Longrightarrow> Q' x s) \<Longrightarrow> (\<And>s. E s \<Longrightarrow> E' s) \<Longrightarrow>
     triple P' m Q' E'"
  unfolding triple_def by (fastforce split: prod.splits outcome.splits)

lemma triple_no_fault: "triple P m Q E \<Longrightarrow> P s \<Longrightarrow> fst (m s) \<noteq> Fault"
  unfolding triple_def by (fastforce split: prod.splits outcome.splits)

lemma triple_Ok: "triple P m Q E \<Longrightarrow> P s \<Longrightarrow> m s = (Ok x, s') \<Longrightarrow> Q x s'"
  unfolding triple_def by fastforce

section \<open>Programs that agree unless one faults\<close>

definition agrees :: "('s, 'a) prog \<Rightarrow> ('s, 'a) prog \<Rightarrow> bool" where
  "agrees m m' \<longleftrightarrow> (\<forall>s. fst (m s) = Fault \<or> m s = m' s)"

named_theorems agrees_intros

lemma agrees_refl [agrees_intros]: "agrees m m"
  by (simp add: agrees_def)

lemma agrees_andThen [agrees_intros]:
  "agrees m m' \<Longrightarrow> (\<And>x. agrees (f x) (f' x)) \<Longrightarrow> agrees (andThen m f) (andThen m' f')"
  unfolding agrees_def
proof (intro allI)
  fix s
  assume "\<forall>s. fst (m s) = Fault \<or> m s = m' s" and f: "\<And>x. \<forall>s. fst (f x s) = Fault \<or> f x s = f' x s"
  then have "fst (m s) = Fault \<or> m s = m' s" by blast
  then show "fst (andThen m f s) = Fault \<or> andThen m f s = andThen m' f' s"
    using f unfolding andThen_def by (auto split: prod.splits outcome.splits) blast
qed

lemma agrees_if [agrees_intros]: "agrees m1 m1' \<Longrightarrow> agrees m2 m2' \<Longrightarrow> agrees (if c then m1 else m2) (if c then m1' else m2')"
  by simp

lemma agrees_zoom: "agrees m m' \<Longrightarrow> agrees (zoom g p m) (zoom g p m')"
  unfolding agrees_def
proof (intro allI)
  fix s
  assume "\<forall>s. fst (m s) = Fault \<or> m s = m' s"
  then have "fst (m (g s)) = Fault \<or> m (g s) = m' (g s)" by blast
  then show "fst (zoom g p m s) = Fault \<or> zoom g p m s = zoom g p m' s"
    by (cases "m (g s)") (auto simp: zoom_def dest: sym)
qed

section \<open>Invariants of a state\<close>

text \<open>
  An invariant that every program keeps, with a fact about the value returned: the rules below
  walk a program down to its primitive steps.
\<close>

locale state_invariant =
  fixes I :: "'s \<Rightarrow> bool"
  assumes reachable: "\<exists>s. I s"
begin

definition safe :: "('s, 'a) prog \<Rightarrow> ('a \<Rightarrow> bool) \<Rightarrow> bool" where
  "safe m A \<longleftrightarrow> triple I m (\<lambda>x s. I s \<and> A x) I"

lemma safe_iff: "safe m A \<longleftrightarrow> (\<forall>s. I s \<longrightarrow> I (snd (m s)) \<and> fst (m s) \<noteq> Fault \<and> (\<forall>x. fst (m s) = Ok x \<longrightarrow> A x))"
proof -
  have "(case m s of (Ok x, s') \<Rightarrow> I s' \<and> A x | (Err e, s') \<Rightarrow> I s' | (Fault, s') \<Rightarrow> False) \<longleftrightarrow>
      I (snd (m s)) \<and> fst (m s) \<noteq> Fault \<and> (\<forall>x. fst (m s) = Ok x \<longrightarrow> A x)" for s
    by (cases "m s"; cases "fst (m s)") auto
  then show ?thesis by (simp add: safe_def triple_def)
qed

lemma safe_ret: "A x \<Longrightarrow> safe (ret x) A"
  by (simp add: safe_def triple_def ret_def)

lemma safe_throw: "safe (throw e) A"
  by (simp add: safe_def triple_def throw_def)

lemma safe_checked: "v \<noteq> None \<Longrightarrow> A (the v) \<Longrightarrow> safe (checked v) A"
  by (auto simp: safe_def triple_def checked_def)

lemma safe_gets: "(\<And>s. I s \<Longrightarrow> A (g s)) \<Longrightarrow> safe (gets g) A"
  by (simp add: safe_def triple_def gets_def)

lemma safe_modify: "(\<And>s. I s \<Longrightarrow> I (h s)) \<Longrightarrow> A () \<Longrightarrow> safe (modify h) A"
  by (simp add: safe_def triple_def modify_def)

lemma safe_andThen: "safe m A \<Longrightarrow> (\<And>x. A x \<Longrightarrow> safe (f x) B) \<Longrightarrow> safe (andThen m f) B"
  unfolding safe_iff andThen_def
  by (auto split: prod.split outcome.split)

lemma safe_if: "(c \<Longrightarrow> safe m1 A) \<Longrightarrow> (\<not> c \<Longrightarrow> safe m2 A) \<Longrightarrow> safe (if c then m1 else m2) A"
  by simp

lemma safe_weaken: "safe m A \<Longrightarrow> (\<And>x. A x \<Longrightarrow> B x) \<Longrightarrow> safe m B"
  unfolding safe_def by (erule triple_weaken) auto

lemma safeD:
  assumes "safe m A" "I s"
  shows "fst (m s) \<noteq> Fault" "I (snd (m s))" "fst (m s) = Ok y \<Longrightarrow> A y"
  using assms unfolding safe_iff by auto

lemmas safe_intros = safe_ret safe_throw safe_if safe_andThen

end

end
