(* ===== verification/Rdb_Int.thy ===== *)
theory Rdb_Int
  imports Rdb_Prelude
begin

text \<open>
  The integer access of \<open>include/rdbparser/rdb_int.h\<close>: fixed-width reads and writes in
  little- and big-endian order, and the sign-extending readers of the immediate integers. The
  model is of a little-endian machine (\<open>MACH_IS_BIG_ENDIAN\<close> not defined), so \<open>le\<close> copies and
  \<open>be\<close> swaps.
\<close>

section \<open>Byte swapping and fixed-width access\<close>

text \<open>\<open>memcpy\<close> of an integer to and from memory, on a little-endian machine.\<close>

definition mem_load :: "u8 list \<Rightarrow> 'a::len word" where
  "mem_load bs = word_of_nat (nat_of_le bs)"

definition mem_store :: "nat \<Rightarrow> 'a::len word \<Rightarrow> u8 list" where
  "mem_store n x = le_of_nat n (unat x)"

definition rdb_int_bswap16 :: "u16 \<Rightarrow> u16" where
  "rdb_int_bswap16 x = mem_load (rev (mem_store 2 x))"

definition rdb_int_bswap32 :: "u32 \<Rightarrow> u32" where
  "rdb_int_bswap32 x = mem_load (rev (mem_store 4 x))"

definition rdb_int_bswap64 :: "u64 \<Rightarrow> u64" where
  "rdb_int_bswap64 x = mem_load (rev (mem_store 8 x))"

definition endian_read16 :: "bool \<Rightarrow> u8 list \<Rightarrow> nat \<Rightarrow> u16 option" where
  "endian_read16 swp m p = do {
     bs \<leftarrow> rdn m p 2;
     let i = mem_load bs;
     Some (if swp then rdb_int_bswap16 i else i) }"

definition endian_read32 :: "bool \<Rightarrow> u8 list \<Rightarrow> nat \<Rightarrow> u32 option" where
  "endian_read32 swp m p = do {
     bs \<leftarrow> rdn m p 4;
     let i = mem_load bs;
     Some (if swp then rdb_int_bswap32 i else i) }"

definition endian_read64 :: "bool \<Rightarrow> u8 list \<Rightarrow> nat \<Rightarrow> u64 option" where
  "endian_read64 swp m p = do {
     bs \<leftarrow> rdn m p 8;
     let i = mem_load bs;
     Some (if swp then rdb_int_bswap64 i else i) }"

definition le16 :: "u8 list \<Rightarrow> nat \<Rightarrow> u16 option" where
  "le16 m p = endian_read16 False m p"

definition le32 :: "u8 list \<Rightarrow> nat \<Rightarrow> u32 option" where
  "le32 m p = endian_read32 False m p"

definition le64 :: "u8 list \<Rightarrow> nat \<Rightarrow> u64 option" where
  "le64 m p = endian_read64 False m p"

definition be32 :: "u8 list \<Rightarrow> nat \<Rightarrow> u32 option" where
  "be32 m p = endian_read32 True m p"

definition be64 :: "u8 list \<Rightarrow> nat \<Rightarrow> u64 option" where
  "be64 m p = endian_read64 True m p"

definition endian_write16 :: "bool \<Rightarrow> u8 list \<Rightarrow> nat \<Rightarrow> u16 \<Rightarrow> u8 list option" where
  "endian_write16 swp m p i = wrn m p (mem_store 2 (if swp then rdb_int_bswap16 i else i))"

definition endian_write32 :: "bool \<Rightarrow> u8 list \<Rightarrow> nat \<Rightarrow> u32 \<Rightarrow> u8 list option" where
  "endian_write32 swp m p i = wrn m p (mem_store 4 (if swp then rdb_int_bswap32 i else i))"

definition endian_write64 :: "bool \<Rightarrow> u8 list \<Rightarrow> nat \<Rightarrow> u64 \<Rightarrow> u8 list option" where
  "endian_write64 swp m p i = wrn m p (mem_store 8 (if swp then rdb_int_bswap64 i else i))"

definition le16_write :: "u8 list \<Rightarrow> nat \<Rightarrow> u16 \<Rightarrow> u8 list option" where
  "le16_write m p i = endian_write16 False m p i"

definition le32_write :: "u8 list \<Rightarrow> nat \<Rightarrow> u32 \<Rightarrow> u8 list option" where
  "le32_write m p i = endian_write32 False m p i"

definition le64_write :: "u8 list \<Rightarrow> nat \<Rightarrow> u64 \<Rightarrow> u8 list option" where
  "le64_write m p i = endian_write64 False m p i"

definition be32_write :: "u8 list \<Rightarrow> nat \<Rightarrow> u32 \<Rightarrow> u8 list option" where
  "be32_write m p i = endian_write32 True m p i"

definition be64_write :: "u8 list \<Rightarrow> nat \<Rightarrow> u64 \<Rightarrow> u8 list option" where
  "be64_write m p i = endian_write64 True m p i"

section \<open>Unsigned and sign-extended readers\<close>

definition l32 :: "u8 list \<Rightarrow> nat \<Rightarrow> u64 option" where
  "l32 m p = map_option ucast (le32 m p)"

definition b32 :: "u8 list \<Rightarrow> nat \<Rightarrow> u64 option" where
  "b32 m p = map_option ucast (be32 m p)"

definition s64 :: "u8 list \<Rightarrow> nat \<Rightarrow> u64 option" where
  "s64 m p = le64 m p"

definition s32 :: "u8 list \<Rightarrow> nat \<Rightarrow> u64 option" where
  "s32 m p = map_option scast (le32 m p)"

definition s16 :: "u8 list \<Rightarrow> nat \<Rightarrow> u64 option" where
  "s16 m p = map_option scast (le16 m p)"

text \<open>\<open>top\<close> is the sign-extended third byte, \<open>neg\<close> the word of all ones.\<close>

definition s24 :: "u8 list \<Rightarrow> nat \<Rightarrow> u64 option" where
  "s24 m p = do {
     b2 \<leftarrow> rd8 m (p + 2);
     let top = (scast b2 :: u16);
     bottom \<leftarrow> le16 m p;
     let low = push_bit 16 (scast top :: u32) OR ucast bottom;
     Some (if top <s 0 then push_bit 32 (ucast (NOT 0 :: u32)) OR ucast low else ucast low) }"

definition s8 :: "u8 \<Rightarrow> u64" where
  "s8 i = scast i"

definition s13 :: "u8 list \<Rightarrow> nat \<Rightarrow> u64 option" where
  "s13 m p = do {
     b0 \<leftarrow> rd8 m p;
     b1 \<leftarrow> rd8 m (p + 1);
     Some (if b0 AND 0x10 \<noteq> 0
       then let top = (scast (16 :: u8) - scast (b0 AND 0xf) :: u32)
            in push_bit 32 (ucast (NOT 0 :: u32)) OR ucast (push_bit 8 top OR ucast b1)
       else (push_bit 8 (ucast b0) OR ucast b1) AND 0x1fff) }"

section \<open>Functional behaviour\<close>

lemma mem_load_store:
  "LENGTH('a::len) = 8 * n \<Longrightarrow> mem_load (mem_store n (x :: 'a word)) = x"
proof -
  assume n: "LENGTH('a) = 8 * n"
  have "unat x < 256 ^ n"
    using unsigned_less [of x, where ?'a = nat] by (simp add: n power_mult)
  then show ?thesis by (simp add: mem_load_def mem_store_def nat_of_le_of_nat)
qed

lemma mem_store_load:
  "LENGTH('a::len) = 8 * length bs \<Longrightarrow> mem_store (length bs) (mem_load bs :: 'a word) = bs"
proof -
  assume n: "LENGTH('a) = 8 * length bs"
  have "nat_of_le bs < 2 ^ LENGTH('a)"
    using nat_of_le_bound [of bs] by (simp add: n power_mult)
  then have "unat (mem_load bs :: 'a word) = nat_of_le bs"
    by (simp add: mem_load_def unat_of_nat)
  then show ?thesis by (simp add: mem_store_def le_of_nat_of_le)
qed

lemma mem_store_length [simp]: "length (mem_store n x) = n"
  by (simp add: mem_store_def)

lemma rev_mem_store_load:
  "LENGTH('a::len) = 8 * length bs \<Longrightarrow>
     rev (mem_store (length bs) (mem_load (rev bs) :: 'a word)) = bs"
  using mem_store_load [of "rev bs", where 'a = 'a] by simp

text \<open>Writing and then reading at the same place, in each width and order.\<close>

lemma bswap_load [rdb_bytes]:
  "length bs = 2 \<Longrightarrow> rdb_int_bswap16 (mem_load bs) = mem_load (rev bs)"
  "length bs = 4 \<Longrightarrow> rdb_int_bswap32 (mem_load bs) = mem_load (rev bs)"
  "length bs = 8 \<Longrightarrow> rdb_int_bswap64 (mem_load bs) = mem_load (rev bs)"
  using mem_store_load [of bs, where 'a = 16] mem_store_load [of bs, where 'a = 32]
    mem_store_load [of bs, where 'a = 64]
  by (simp_all add: rdb_int_bswap16_def rdb_int_bswap32_def rdb_int_bswap64_def)

lemma bswap_store [rdb_bytes]:
  "mem_store 2 (rdb_int_bswap16 x) = rev (mem_store 2 x)"
  "mem_store 4 (rdb_int_bswap32 y) = rev (mem_store 4 y)"
  "mem_store 8 (rdb_int_bswap64 z) = rev (mem_store 8 z)"
  using mem_store_load [of "rev (mem_store 2 x)", where 'a = 16]
    mem_store_load [of "rev (mem_store 4 y)", where 'a = 32]
    mem_store_load [of "rev (mem_store 8 z)", where 'a = 64]
  by (simp_all add: rdb_int_bswap16_def rdb_int_bswap32_def rdb_int_bswap64_def)

section \<open>Sign extension\<close>

lemma mem_load_Nil [rdb_bytes]: "mem_load [] = 0"
  by (simp add: mem_load_def)

lemma mem_load_Cons [rdb_bytes]:
  "mem_load (b # bs) = (ucast b OR push_bit 8 (mem_load bs) :: 'a::len word)"
proof -
  have "(ucast b :: 'a word) + push_bit 8 (mem_load bs) = ucast b OR push_bit 8 (mem_load bs)"
    by (rule disjunctive_add) (auto simp: bit_simps dest: bit_imp_le_length)
  then show ?thesis
    by (simp add: mem_load_def push_bit_eq_mult mult.commute)
qed

lemma mem_store_2: "mem_store 2 (x :: u16) = [ucast x, ucast (drop_bit 8 x)]"
proof -
  have "mem_load [ucast x, ucast (drop_bit 8 x)] = (x :: u16)"
    by (rule bit_word_eqI) (auto simp: mem_load_Cons mem_load_Nil bit_simps)
  with mem_store_load [of "[ucast x, ucast (drop_bit 8 x)]", where 'a = 16] show ?thesis
    by (simp add: numeral_2_eq_2)
qed

lemma s24_word:
  fixes b0 b1 b2 :: u8
  defines "tp \<equiv> scast b2 :: u16"
  defines "low \<equiv> push_bit 16 (scast tp :: u32) OR ucast (mem_load [b0, b1] :: u16)"
  shows "(if tp <s 0 then push_bit 32 (ucast (NOT 0 :: u32)) OR ucast low else ucast low)
    = (scast (mem_load [b0, b1, b2] :: 24 word) :: u64)"
proof (rule bit_word_eqI, goal_cases)
  case (1 n)
  show ?case
    unfolding tp_def low_def
    by (cases "n < 8"; cases "n < 16"; cases "n < 24"; cases "n < 32")
      (auto simp: rdb_bytes word_sless_0_iff bit_simps)
qed



lemma push_ones32: "push_bit 32 (ucast (NOT 0 :: u32)) = (- (2 ^ 32) :: u64)"
  unfolding minus_exp_eq_not_mask
  by (rule bit_word_eqI) (simp add: bit_simps, arith)

lemma nibble_bounds: "0 \<le> (x :: int) mod 16" "x mod 16 < 16"
  by simp_all

lemma push8_add: "push_bit 8 (word_of_int k) + ucast (b :: u8) = (word_of_int (256 * k + uint b) :: 'a::len word)"
  by (simp add: push_bit_eq_mult mult.commute)

lemma push8_or: "push_bit 8 w OR ucast (b :: u8) = (push_bit 8 w + ucast b :: 'a::len word)"
  by (rule disjunctive_add [symmetric]) (auto simp: bit_simps)

lemma and_mask_13: "x AND 0x1fff = (take_bit 13 x :: u64)"
  by (simp only: take_bit_eq_mask) (simp add: mask_numeral)

lemma high_ones:
  "push_bit 32 (ucast (NOT 0 :: u32)) OR ucast (w :: u32) = (word_of_int (uint w - 2 ^ 32) :: u64)"
proof -
  have "push_bit 32 (ucast (NOT 0 :: u32)) OR ucast w
      = (push_bit 32 (ucast (NOT 0 :: u32)) + ucast w :: u64)"
    by (rule disjunctive_add [symmetric]) (auto simp: bit_simps dest: bit_imp_le_length)
  then show ?thesis by (simp only: push_ones32) simp
qed

lemma sint_high_ones:
  "sint (push_bit 32 (ucast (NOT 0 :: u32)) OR ucast (w :: u32) :: u64) = uint w - 2 ^ 32"
  unfolding high_ones
  using unsigned_less [of w, where ?'a = int] by (intro sint_of_int_self) auto


lemma concat_div_mod:
  assumes "0 \<le> b" "b < 256" "0 \<le> n"
  shows "(256 * a + b) div (256 * n) = a div (n::int)"
    and "(256 * a + b) mod (256 * n) = 256 * (a mod n) + b"
proof -
  have d: "(256 * a + b) div 256 = a" and m: "(256 * a + b) mod 256 = b"
    using assms by simp_all
  show "(256 * a + b) div (256 * n) = a div n"
    using assms(3) by (simp only: zdiv_zmult2_eq d)
  show "(256 * a + b) mod (256 * n) = 256 * (a mod n) + b"
    using assms(3) by (simp only: zmod_zmult2_eq d m)
qed

lemma bit_concat: "0 \<le> b \<Longrightarrow> b < 256 \<Longrightarrow> bit (256 * a + b) 12 = bit (a::int) 4"
  using concat_div_mod [of b 16 a] by (simp add: bit_iff_odd)

definition int13 :: "u8 \<Rightarrow> u8 \<Rightarrow> int" where
  "int13 b0 b1 = signed_take_bit 12 (256 * uint b0 + uint b1)"

lemma int13_arith:
  "int13 b0 b1 = 256 * (uint b0 mod 16) + uint b1 - (if bit b0 4 then 4096 else 0)"
  using concat_div_mod [of "uint b1" 16 "uint b0"] u8_uint_range [of b1]
  by (simp add: int13_def signed_take_bit_eq_concat_bit concat_bit_eq take_bit_eq_mod bit_concat
      bit_uint_iff minus_exp_eq_not_mask [symmetric])

lemma uint_low_nibble: "uint (b0 AND 15 :: u8) = uint b0 mod 16"
proof -
  have "b0 AND 15 = take_bit 4 b0"
    by (simp only: take_bit_eq_mask) (simp add: mask_numeral)
  then show ?thesis by (simp only: unsigned_take_bit_eq take_bit_eq_mod [of 4 "uint b0"]) simp
qed

lemma s13_high:
  fixes b0 b1 :: u8
  defines "tp \<equiv> scast (16 :: u8) - scast (b0 AND 15) :: u32"
  shows "uint (push_bit 8 tp OR ucast b1) = 256 * (16 - uint b0 mod 16) + uint b1"
proof -
  have "(b0 AND 15 :: u8) = word_of_int (uint b0 mod 16)"
    by (simp only: uint_low_nibble [symmetric] word_of_int_uint)
  then have "sint (b0 AND 15 :: u8) = uint b0 mod 16"
    using nibble_bounds [of "uint b0"] sint_of_int_self [of "uint b0 mod 16", where 'a = 8] by simp
  then have t: "tp = word_of_int (16 - uint b0 mod 16)"
    by (simp add: tp_def scast_eq)
  have eq: "push_bit 8 tp OR ucast b1 = word_of_int (256 * (16 - uint b0 mod 16) + uint b1)"
    by (simp only: push8_or t push8_add)
  show ?thesis unfolding eq
    using u8_uint_range [of b1] nibble_bounds [of "uint b0"]
    by (intro uint_of_int_self) auto
qed

lemma s13_low:
  fixes b0 b1 :: u8
  assumes "\<not> bit b0 4"
  shows "sint ((push_bit 8 (ucast b0) OR ucast b1) AND 0x1fff :: u64) = 256 * (uint b0 mod 16) + uint b1"
proof -
  have "push_bit 8 (ucast b0) OR ucast b1 = (word_of_int (256 * uint b0 + uint b1) :: u64)"
    by (simp only: push8_or ucast_eq [of b0] push8_add)
  then have "(push_bit 8 (ucast b0) OR ucast b1) AND 0x1fff
      = (take_bit 13 (word_of_int (256 * uint b0 + uint b1)) :: u64)"
    by (simp only: and_mask_13)
  also have "\<dots> = word_of_int ((256 * uint b0 + uint b1) mod (256 * 32))"
    by (simp only: take_bit_of_int take_bit_eq_mod [of 13 "_ :: int"]) simp
  also have "(256 * uint b0 + uint b1) mod (256 * 32) = 256 * (uint b0 mod 32) + uint b1"
    using u8_uint_range [of b1] by (intro concat_div_mod) simp_all
  also have "uint b0 mod 32 = uint b0 mod 16"
    using assms bit_uint_iff [of b0 4] zmod_zmult2_eq [of 2 "uint b0" 16]
    by (simp add: bit_iff_odd [of "uint b0" 4] even_iff_mod_2_eq_zero)
  finally have eq: "(push_bit 8 (ucast b0) OR ucast b1) AND 0x1fff
      = (word_of_int (256 * (uint b0 mod 16) + uint b1) :: u64)" .
  show ?thesis unfolding eq
    using u8_uint_range [of b1] nibble_bounds [of "uint b0"]
    by (intro sint_of_int_nonneg) auto
qed

section \<open>Reads and writes as byte sequences\<close>

text \<open>Every fixed-width access is a read or a write of its bytes, reversed for big endian.\<close>

lemma endian_read_bytes [rdb_bytes]:
  "le16 m p = map_option mem_load (rdn m p 2)"
  "le32 m p = map_option mem_load (rdn m p 4)"
  "le64 m p = map_option mem_load (rdn m p 8)"
  "be32 m p = map_option (\<lambda>bs. mem_load (rev bs)) (rdn m p 4)"
  "be64 m p = map_option (\<lambda>bs. mem_load (rev bs)) (rdn m p 8)"
  by (cases "rdn m p 2"; cases "rdn m p 4"; cases "rdn m p 8";
      auto dest!: rdn_length simp: le16_def le32_def le64_def be32_def be64_def endian_read16_def
        endian_read32_def endian_read64_def bswap_load Let_def)+

lemma endian_write_bytes [rdb_bytes]:
  "le16_write m p i = wrn m p (mem_store 2 i)"
  "le32_write m p j = wrn m p (mem_store 4 j)"
  "le64_write m p k = wrn m p (mem_store 8 k)"
  "be32_write m p j = wrn m p (rev (mem_store 4 j))"
  "be64_write m p k = wrn m p (rev (mem_store 8 k))"
  by (simp_all add: le16_write_def le32_write_def le64_write_def be32_write_def be64_write_def
      endian_write16_def endian_write32_def endian_write64_def bswap_store)

lemma s24_value:
  assumes "rdn m p 3 = Some bs"
  shows "s24 m p = Some (scast (mem_load bs :: 24 word))"
proof -
  obtain b0 b1 b2 where b: "rd8 m p = Some b0" "rd8 m (Suc p) = Some b1" "rd8 m (p + 2) = Some b2"
    "bs = [b0, b1, b2]"
    using assms by (auto simp: rdn_Suc rdn_0 numeral_3_eq_3 bind_Some_iff split: if_splits)
  have "rdn m p 2 = Some [b0, b1]"
    using b(1,2) by (simp add: rdn_Suc rdn_0 numeral_2_eq_2) (simp add: rd8_Some)
  then show ?thesis
    using s24_word [of b2 b0 b1] b by (simp add: s24_def endian_read_bytes Let_def)
qed

lemma s13_value:
  assumes "rd8 m p = Some b0" "rd8 m (p + 1) = Some b1"
  shows "\<exists>v. s13 m p = Some v \<and>
    sint v = (if bit b0 4 then 256 * (16 - uint b0 mod 16) + uint b1 - 2 ^ 32
              else 256 * (uint b0 mod 16) + uint b1)"
proof -
  have b4: "b0 AND 16 \<noteq> 0 \<longleftrightarrow> bit b0 4"
    using and_exp_eq_0_iff_not_bit [of b0 4] by simp
  show ?thesis
  proof (cases "bit b0 4")
    case True
    with assms b4 show ?thesis
      using s13_high [of b0 b1] by (simp add: s13_def Let_def sint_high_ones [simplified])
  next
    case False
    with assms b4 show ?thesis
      using s13_low [of b0 b1] by (simp add: s13_def)
  qed
qed

section \<open>Properties\<close>

text \<open>C40: \<open>s13\<close> gives the 13 bit big-endian two's complement number of its two bytes exactly when the sign bit
  is clear. When it is set the top byte is computed as 16 minus the low nibble, which sign extends
  nothing, and no negative number is read as itself.\<close>

theorem s13_correct:
  assumes "rd8 m p = Some b0" "rd8 m (p + 1) = Some b1"
  shows "\<exists>v. s13 m p = Some v \<and> (sint v = int13 b0 b1 \<longleftrightarrow> \<not> bit b0 4)"
proof -
  have r: "0 \<le> uint b0 mod 16" "uint b0 mod 16 < 16" by simp_all
  show ?thesis
    using s13_value [OF assms] r by (auto simp: int13_arith simp del: Euclidean_Rings.pos_mod_sign)
qed

theorem s13_correct_witness:
  "rd8 [0xdf, 0xff] 0 = Some 0xdf \<and> rd8 [0xdf, 0xff] (0 + 1) = Some 0xff
   \<and> (\<exists>v. s13 [0xdf, 0xff] 0 = Some v \<and> sint v \<noteq> -1 \<and> int13 0xdf 0xff = -1)"
proof -
  have "rd8 [0xdf, 0xff] 0 = Some (0xdf :: u8)" "rd8 [0xdf, 0xff] (0 + 1) = Some (0xff :: u8)"
    by (simp_all add: rd8_def)
  note r = this
  have "bit (0xdf :: u8) 4" "int13 0xdf 0xff = -1" by code_simp+
  then show ?thesis using s13_correct [OF r] r by auto
qed

end
