(* ===== verification/Rdb_Buf.thy ===== *)
theory Rdb_Buf
  imports Rdb_Monad Rdb_Int
begin

text \<open>
  \<open>RdbBufptr\<close> (\<open>include/rdbparser/rdb_decode.h\<close>, \<open>src/rdb_decode.cpp\<close>): the read position in
  a stream, with the lookahead buffer and the side buffers that decompression allocates.
  \<open>lzf_decompress\<close> is a library (liblzf) and \<open>malloc\<close> may fail, so both are parameters.
\<close>

text \<open>
  A pointer: null, into a block (\<open>heap\<close> says whether the block is one that
  \<open>RdbBufptr::decompress\<close> allocated) or into a block that was freed.
\<close>

datatype ptr = Null | Ptr (heap: bool) (block: "u8 list") (index: nat) | Freed

fun pmem :: "ptr \<Rightarrow> u8 list" where
  "pmem (Ptr h m i) = m"
| "pmem Null = []"
| "pmem Freed = []"

fun ppos :: "ptr \<Rightarrow> nat" where
  "ppos (Ptr h m i) = i"
| "ppos Null = 0"
| "ppos Freed = 0"

fun padd :: "ptr \<Rightarrow> nat \<Rightarrow> ptr" where
  "padd (Ptr h m i) n = Ptr h m (i + n)"
| "padd Null n = Null"
| "padd Freed n = Freed"

fun pfree :: "ptr \<Rightarrow> ptr" where
  "pfree (Ptr h m i) = (if h then Freed else Ptr h m i)"
| "pfree Null = Null"
| "pfree Freed = Freed"

text \<open>
  What the program calls outside its own source: \<open>lzf_decompress\<close> (the bytes it writes for a
  compressed input and an output size; no bytes is its failure value 0), whether
  \<open>malloc\<close> of a size succeeds, and the bytes that are in a block before anything is written to it.
\<close>

record rdb_env =
  lzf_decompress :: "u8 list \<Rightarrow> nat \<Rightarrow> u8 list"
  malloc_ok :: "u64 \<Rightarrow> bool"
  uninit :: "nat \<Rightarrow> u8"

record RdbBufptr =
  buf :: ptr
  avail :: nat
  offset :: nat
  start_offset :: nat
  lookahead :: "u8 list"
  alloced_mem :: "u8 list list"
  sav :: ptr
  sav_avail :: nat
  sav_offset :: nat

definition RdbBufptr_init :: "ptr \<Rightarrow> nat \<Rightarrow> RdbBufptr" where
  "RdbBufptr_init b sz = \<lparr>buf = b, avail = sz, offset = 0, start_offset = 0,
     lookahead = replicate 32 0, alloced_mem = [], sav = Null, sav_avail = 0, sav_offset = 0\<rparr>"

text \<open>\<open>incr\<close>: the pointer to the bytes consumed, or null.\<close>

definition incr :: "nat \<Rightarrow> (RdbBufptr, ptr option) prog" where
  "incr amt bp =
     (if amt > avail bp then (Ok None, bp)
      else (Ok (Some (buf bp)),
            bp\<lparr>avail := avail bp - amt, offset := offset bp + amt, buf := padd (buf bp) amt\<rparr>))"

definition pop_sav :: "RdbBufptr \<Rightarrow> RdbBufptr" where
  "pop_sav bp = bp\<lparr>buf := sav bp, avail := sav_avail bp, offset := sav_offset bp,
     sav := Null, sav_avail := 0, sav_offset := 0\<rparr>"

text \<open>\<open>look\<close>: the lookahead buffer, its first \<open>n\<close> bytes copied or zero filled.\<close>

definition look :: "nat \<Rightarrow> (RdbBufptr, u8 list) prog" where
  "look n bp =
     (let bp1 = (if avail bp = 0 \<and> sav_avail bp > 0 then pop_sav bp else bp);
          k = (if avail bp1 \<ge> n then n else avail bp1)
      in case (rdn (pmem (buf bp1)) (ppos (buf bp1)) k, wrn (lookahead bp1) 0 (replicate n 0)) of
           (Some xs, Some _) \<Rightarrow>
             let la = xs @ replicate (n - k) 0 @ drop n (lookahead bp1)
             in (Ok la, bp1\<lparr>lookahead := la\<rparr>)
         | _ \<Rightarrow> (Fault, bp1))"

text \<open>
  \<open>decompress\<close>: in the block of \<open>malloc( sizeof( void * ) + len )\<close> the pointer to the next block comes first,
  then what \<open>lzf_decompress\<close> wrote; the rest of it is uninitialised. The sizes passed to the library are cut
  to 32 bits. The size passed to \<open>malloc\<close> wraps; a block that has not the eight bytes of the pointer is
  written behind its end.
\<close>

definition lzf_block :: "rdb_env \<Rightarrow> nat \<Rightarrow> u8 list \<Rightarrow> u8 list" where
  "lzf_block E n out = out @ map (uninit E) [length out..<n]"

definition decompress :: "rdb_env \<Rightarrow> u64 \<Rightarrow> u64 \<Rightarrow> (RdbBufptr, bool) prog" where
  "decompress E zlen len = andThen (incr (unat zlen)) (\<lambda>b. case b of None \<Rightarrow> ret False | Some b \<Rightarrow>
     if \<not> malloc_ok E (8 + len) then ret False
     else if unat (8 + len) < 8 then checked None
     else andThen (checked (rdn (pmem b) (ppos b) (unat (ucast zlen :: u32)))) (\<lambda>zin.
       let out = lzf_decompress E zin (unat (ucast len :: u32)); blk = lzf_block E (unat len) out in
       if length out > unat len then checked None
       else if out = [] then ret False
       else andThen (modify (\<lambda>bp. if avail bp > 0
           then bp\<lparr>sav := buf bp, sav_avail := avail bp, sav_offset := offset bp\<rparr> else bp)) (\<lambda>_.
         andThen (modify (\<lambda>bp. bp\<lparr>buf := Ptr True blk 0, avail := unat len, offset := 0,
           alloced_mem := blk # alloced_mem bp\<rparr>)) (\<lambda>_. ret True))))"

definition free_alloced :: "RdbBufptr \<Rightarrow> RdbBufptr" where
  "free_alloced bp =
     (if alloced_mem bp = [] then bp
      else let bp1 = bp\<lparr>alloced_mem := [], buf := pfree (buf bp), sav := pfree (sav bp)\<rparr>
           in if avail bp1 = 0 then pop_sav bp1 else bp1)"

section \<open>Well-formed buffers\<close>

text \<open>
  All \<open>avail\<close> bytes can be read, in the current buffer and in the saved one.
\<close>

definition readable :: "ptr \<Rightarrow> nat \<Rightarrow> bool" where
  "readable p n \<longleftrightarrow> ppos p + n \<le> length (pmem p)"

definition wf_bufptr :: "RdbBufptr \<Rightarrow> bool" where
  "wf_bufptr bp \<longleftrightarrow> readable (buf bp) (avail bp) \<and> readable (sav bp) (sav_avail bp)
     \<and> length (lookahead bp) = 32"

text \<open>What liblzf documents: at most \<open>out_len\<close> bytes are written.\<close>

definition bounded_lzf :: "rdb_env \<Rightarrow> bool" where
  "bounded_lzf E \<longleftrightarrow> (\<forall>zin n. length (lzf_decompress E zin n) \<le> n)"

text \<open>
  The size of a block is that of its pointer and its data, and wraps when the announced length is one of the eight
  largest numbers. \<open>refusing\<close> is a machine on which such requests fail.
\<close>

definition wraps :: "u64 \<Rightarrow> bool" where
  "wraps len \<longleftrightarrow> 2 ^ 64 - 8 \<le> unat len"

definition no_wrap :: "rdb_env \<Rightarrow> bool" where
  "no_wrap E \<longleftrightarrow> (\<forall>sz. malloc_ok E sz \<longrightarrow> 8 \<le> unat sz)"

definition refusing :: "rdb_env \<Rightarrow> rdb_env" where
  "refusing E = E\<lparr>malloc_ok := \<lambda>sz. 8 \<le> unat sz \<and> malloc_ok E sz\<rparr>"

lemma refusing [simp]: "no_wrap (refusing E)" "bounded_lzf (refusing E) = bounded_lzf E"
  by (simp_all add: no_wrap_def refusing_def bounded_lzf_def)

lemma wraps_size: "unat (8 + len) < 8 \<longleftrightarrow> wraps len"
proof -
  have len: "unat len < 2 ^ 64" using unsigned_less [of len] by simp
  have "unat (8 + len) = (8 + unat len) mod 2 ^ 64" by (simp add: unat_word_ariths)
  also have "\<dots> = (if wraps len then unat len - (2 ^ 64 - 8) else 8 + unat len)"
  proof (cases "wraps len")
    case True
    then have "8 + unat len = (unat len - (2 ^ 64 - 8)) + 2 ^ 64" "unat len - (2 ^ 64 - 8) < 2 ^ 64"
      using len by (auto simp: wraps_def)
    then have "(8 + unat len) mod 2 ^ 64 = unat len - (2 ^ 64 - 8)" by (metis mod_add_self2 mod_less)
    with True show ?thesis by simp
  qed (simp add: wraps_def)
  finally show ?thesis using len by auto
qed

lemma length_lzf_block [simp]: "length out \<le> n \<Longrightarrow> length (lzf_block E n out) = n"
  by (simp add: lzf_block_def)

lemma lzf_block_full [simp]: "lzf_block E (length out) out = out"
  by (simp add: lzf_block_def)

lemma refusing_fields: "malloc_ok (refusing E) (8 + len) \<longleftrightarrow> \<not> wraps len \<and> malloc_ok E (8 + len)"
  "lzf_decompress (refusing E) = lzf_decompress E" "uninit (refusing E) = uninit E"
  using wraps_size [of len] by (auto simp: refusing_def)

lemma decompress_refusing:
  assumes "\<not> wraps len"
  shows "decompress (refusing E) zlen len = decompress E zlen len"
proof -
  have "malloc_ok (refusing E) (8 + len) = malloc_ok E (8 + len)" using assms by (simp add: refusing_fields)
  then show ?thesis unfolding decompress_def lzf_block_def refusing_fields(2,3) by (rule arg_cong)
qed

lemma decompress_agrees [agrees_intros]: "agrees (decompress E zlen len) (decompress (refusing E) zlen len)"
proof (cases "wraps len")
  case True
  then show ?thesis
    unfolding decompress_def wraps_size refusing_fields
    by (intro agrees_andThen [OF agrees_refl]) (simp add: agrees_def ret_def checked_def split: option.split)
qed (simp add: decompress_refusing agrees_refl)

lemma readable_padd: "readable p (m + n) \<Longrightarrow> readable (padd p m) n"
  by (cases p) (auto simp: readable_def)

lemma readable_rdn: "readable p n \<Longrightarrow> k \<le> n \<Longrightarrow> \<exists>xs. rdn (pmem p) (ppos p) k = Some xs \<and> length xs = k"
  by (auto simp: readable_def rdn_def)

lemma readable_Null [simp]: "readable Null 0"
  by (simp add: readable_def)

lemma readable_le: "readable p n \<Longrightarrow> k \<le> n \<Longrightarrow> readable p k"
  by (simp add: readable_def)

lemma pop_sav_wf: "wf_bufptr bp \<Longrightarrow> wf_bufptr (pop_sav bp)"
  by (simp add: wf_bufptr_def pop_sav_def)

lemma incr_wf [triple_intros]:
  "triple wf_bufptr (incr n) (\<lambda>r bp. wf_bufptr bp \<and> (\<forall>p. r = Some p \<longrightarrow> readable p n)) wf_bufptr"
  by (auto simp: triple_def incr_def wf_bufptr_def intro: readable_padd readable_le)

lemma look_wf [triple_intros]:
  assumes "n \<le> 32"
  shows "triple wf_bufptr (look n) (\<lambda>la bp. wf_bufptr bp \<and> length la = 32) wf_bufptr"
proof -
  have "wf_bufptr bp1 \<Longrightarrow> \<exists>xs. rdn (pmem (buf bp1)) (ppos (buf bp1)) (min n (avail bp1)) = Some xs
      \<and> length xs = min n (avail bp1)" for bp1
    by (rule readable_rdn) (auto simp: wf_bufptr_def)
  then show ?thesis
    using assms
    by (auto simp: triple_def look_def Let_def wrn_def wf_bufptr_def pop_sav_def readable_def min_def
        rdn_def split: if_splits)
qed

lemma decompress_wf [triple_intros]:
  assumes E: "bounded_lzf E" "no_wrap E"
  shows "triple wf_bufptr (decompress E zlen len)
    (\<lambda>ok bp. wf_bufptr bp \<and> (ok \<longrightarrow> avail bp = unat len)) wf_bufptr"
  unfolding decompress_def
proof (rule triple_andThen [OF incr_wf], goal_cases)
  case (1 b)
  show ?case
  proof (cases b)
    case None
    then show ?thesis by (auto intro!: triple_intros)
  next
    case (Some p)
    have z: "unat (ucast zlen :: u32) \<le> unat zlen"
      by (simp add: unsigned_ucast_eq)
    have zin: "readable p (unat zlen) \<Longrightarrow>
        \<exists>zin. rdn (pmem p) (ppos p) (unat (ucast zlen :: u32)) = Some zin"
      using readable_rdn [OF _ z] by blast
    have n: "unat (ucast len :: u32) \<le> unat len"
      by (simp add: unsigned_ucast_eq)
    have le: "\<not> unat len < length (lzf_decompress E zin (unat (ucast len :: u32)))" for zin
      using E(1) n unfolding bounded_lzf_def by (meson le_trans not_less)
    have ok: "malloc_ok E (8 + len) \<Longrightarrow> \<not> unat (8 + len) < 8"
      using E(2) by (force simp: no_wrap_def)
    show ?thesis
      using Some zin ok
      by (auto simp: le length_lzf_block [OF le [unfolded not_less]] triple_def run_simps Let_def wf_bufptr_def readable_def split: if_splits)
  qed
qed

text \<open>The next bytes to be consumed, and a buffer moved \<open>n\<close> bytes on.\<close>

definition has_bytes :: "RdbBufptr \<Rightarrow> u8 list \<Rightarrow> bool" where
  "has_bytes bp xs \<longleftrightarrow> length xs \<le> avail bp \<and> bytes_at (pmem (buf bp)) (ppos (buf bp)) xs"

definition advanced :: "nat \<Rightarrow> RdbBufptr \<Rightarrow> RdbBufptr \<Rightarrow> bool" where
  "advanced n bp bp' \<longleftrightarrow> avail bp' = avail bp - n \<and> offset bp' = offset bp + n
     \<and> buf bp' = padd (buf bp) n \<and> length (lookahead bp') = 32
     \<and> start_offset bp' = start_offset bp \<and> alloced_mem bp' = alloced_mem bp
     \<and> sav bp' = sav bp \<and> sav_avail bp' = sav_avail bp \<and> sav_offset bp' = sav_offset bp"

lemma pmem_padd [simp]: "pmem (padd p n) = pmem p"
  by (cases p) auto

lemma ppos_padd: "pmem p \<noteq> [] \<Longrightarrow> ppos (padd p n) = ppos p + n"
  by (cases p) auto

lemma padd_padd [simp]: "padd (padd p m) n = padd p (m + n)"
  by (cases p) auto

lemma has_bytes_Nil [simp]: "wf_bufptr bp \<Longrightarrow> has_bytes bp []"
  by (auto simp: has_bytes_def bytes_at_Nil wf_bufptr_def readable_def)

lemma has_bytes_prefix: "has_bytes bp (xs @ ys) \<Longrightarrow> has_bytes bp xs"
  by (auto simp: has_bytes_def bytes_at_append)

lemma advanced_wf: "wf_bufptr bp \<Longrightarrow> advanced n bp bp' \<Longrightarrow> n \<le> avail bp \<Longrightarrow> wf_bufptr bp'"
  unfolding advanced_def wf_bufptr_def by (auto intro!: readable_padd)

lemma has_bytes_advanced:
  assumes "has_bytes bp (xs @ ys)" "advanced (length xs) bp bp'"
  shows "has_bytes bp' ys"
proof (cases "pmem (buf bp) = []")
  case True
  with assms have "xs = []" "ys = []"
    by (auto simp: has_bytes_def dest!: bytes_at_le)
  with assms True show ?thesis
    by (cases "buf bp") (auto simp: has_bytes_def advanced_def bytes_at_Nil)
next
  case False
  with assms show ?thesis
    by (auto simp: has_bytes_def bytes_at_append ppos_padd advanced_def)
qed

lemma advanced_advanced: "advanced m bp bp1 \<Longrightarrow> advanced n bp1 bp2 \<Longrightarrow> advanced (m + n) bp bp2"
  unfolding advanced_def by auto

lemma incr_runs:
  assumes "wf_bufptr bp" "has_bytes bp xs" "n = length xs"
  shows "\<exists>bp'. incr n bp = (Ok (Some (buf bp)), bp') \<and> advanced n bp bp'
    \<and> rdn (pmem (buf bp)) (ppos (buf bp)) n = Some xs"
  using assms by (auto simp: incr_def has_bytes_def advanced_def wf_bufptr_def bytes_at_def)

lemma incr_short: "avail bp < n \<Longrightarrow> incr n bp = (Ok None, bp)"
  by (simp add: incr_def)

lemma look_runs:
  assumes "wf_bufptr bp" "has_bytes bp xs" "xs \<noteq> []" "length xs \<le> n" "n \<le> 32"
  shows "\<exists>la. look n bp = (Ok la, bp\<lparr>lookahead := la\<rparr>) \<and> length la = 32 \<and> bytes_at la 0 xs"
proof -
  let ?k = "min n (avail bp)"
  have k: "length xs \<le> ?k" "avail bp > 0"
    using assms by (cases xs; auto simp: has_bytes_def)+
  obtain ys where ys: "rdn (pmem (buf bp)) (ppos (buf bp)) ?k = Some ys" "length ys = ?k"
    using readable_rdn [of "buf bp" "avail bp" ?k] assms(1) by (auto simp: wf_bufptr_def)
  have "xs = take (length xs) ys"
    using ys(1) assms(2) k(1) by (auto simp: has_bytes_def bytes_at_def rdn_Some min_def)
  then obtain zs where "ys = xs @ zs" by (metis append_take_drop_id)
  moreover have "wrn (lookahead bp) 0 (replicate n 0) \<noteq> None"
    using assms by (simp add: wrn_def wf_bufptr_def)
  ultimately show ?thesis
    using ys k assms(1,5) by (auto simp: look_def min_def wf_bufptr_def Let_def bytes_at_def rdn_def split: if_splits)
qed

lemma wf_init: "p + n \<le> length m \<Longrightarrow> wf_bufptr (RdbBufptr_init (Ptr h m p) n)"
  by (simp add: wf_bufptr_def RdbBufptr_init_def readable_def)

end
