(* ===== verification/Rdb_Types.thy ===== *)
theory Rdb_Types
  imports Rdb_Buf
begin

text \<open>
  The data of \<open>include/rdbparser/rdb_decode.h\<close> that the decoder and its outputs exchange: the
  object and meta types, strings, and the callbacks of \<open>RdbOutput\<close>.
\<close>

section \<open>Object types and meta markers\<close>

datatype RdbType =
    RDB_STRING | RDB_LIST | RDB_SET | RDB_ZSET | RDB_HASH | RDB_ZSET_2 | RDB_MODULE | RDB_MODULE_2
  | RDB_BAD_TYPE | RDB_HASH_ZIPMAP | RDB_LIST_ZIPLIST | RDB_SET_INTSET | RDB_ZSET_ZIPLIST
  | RDB_HASH_ZIPLIST | RDB_LIST_QUICKLIST | RDB_STREAM_LISTPACK | RDB_HASH_LISTPACK
  | RDB_ZSET_LISTPACK | RDB_LIST_QUICKLIST_2 | RDB_STREAM_LISTPACKS_2

text \<open>The enumeration in the order of its values, 0 to 19.\<close>

definition RdbType_values :: "RdbType list" where
  "RdbType_values = [RDB_STRING, RDB_LIST, RDB_SET, RDB_ZSET, RDB_HASH, RDB_ZSET_2, RDB_MODULE, RDB_MODULE_2,
     RDB_BAD_TYPE, RDB_HASH_ZIPMAP, RDB_LIST_ZIPLIST, RDB_SET_INTSET, RDB_ZSET_ZIPLIST,
     RDB_HASH_ZIPLIST, RDB_LIST_QUICKLIST, RDB_STREAM_LISTPACK, RDB_HASH_LISTPACK,
     RDB_ZSET_LISTPACK, RDB_LIST_QUICKLIST_2, RDB_STREAM_LISTPACKS_2]"

fun RdbType_val :: "RdbType \<Rightarrow> u8" where
  "RdbType_val RDB_STRING = 0"
| "RdbType_val RDB_LIST = 1"
| "RdbType_val RDB_SET = 2"
| "RdbType_val RDB_ZSET = 3"
| "RdbType_val RDB_HASH = 4"
| "RdbType_val RDB_ZSET_2 = 5"
| "RdbType_val RDB_MODULE = 6"
| "RdbType_val RDB_MODULE_2 = 7"
| "RdbType_val RDB_BAD_TYPE = 8"
| "RdbType_val RDB_HASH_ZIPMAP = 9"
| "RdbType_val RDB_LIST_ZIPLIST = 10"
| "RdbType_val RDB_SET_INTSET = 11"
| "RdbType_val RDB_ZSET_ZIPLIST = 12"
| "RdbType_val RDB_HASH_ZIPLIST = 13"
| "RdbType_val RDB_LIST_QUICKLIST = 14"
| "RdbType_val RDB_STREAM_LISTPACK = 15"
| "RdbType_val RDB_HASH_LISTPACK = 16"
| "RdbType_val RDB_ZSET_LISTPACK = 17"
| "RdbType_val RDB_LIST_QUICKLIST_2 = 18"
| "RdbType_val RDB_STREAM_LISTPACKS_2 = 19"

definition get_rdb_type :: "u8 \<Rightarrow> RdbType" where
  "get_rdb_type b =
     (if b > RdbType_val RDB_STREAM_LISTPACKS_2 \<or> b = RdbType_val RDB_BAD_TYPE then RDB_BAD_TYPE
      else RdbType_values ! unat b)"

datatype RdbMeta =
    RDB_MODULE_AUX | RDB_IDLE | RDB_FREQ | RDB_AUX | RDB_DBRESIZE | RDB_EXPIRED_MS | RDB_EXPIRED_SEC
  | RDB_DBSELECT | RDB_EOF

text \<open>The labels of the \<open>switch\<close> on the marker byte.\<close>

definition meta_of :: "u8 \<Rightarrow> RdbMeta option" where
  "meta_of b =
     (if b = 0xf7 then Some RDB_MODULE_AUX else if b = 0xf8 then Some RDB_IDLE
      else if b = 0xf9 then Some RDB_FREQ else if b = 0xfa then Some RDB_AUX
      else if b = 0xfb then Some RDB_DBRESIZE else if b = 0xfc then Some RDB_EXPIRED_MS
      else if b = 0xfd then Some RDB_EXPIRED_SEC else if b = 0xfe then Some RDB_DBSELECT
      else if b = 0xff then Some RDB_EOF else None)"

section \<open>Strings\<close>

datatype RdbValueCoding = RDB_NO_VAL | RDB_INT_VAL | RDB_STR_VAL | RDB_DBL_VAL

text \<open>
  The union of \<open>ival\<close>, \<open>s_len\<close> and \<open>fval\<close> is one word. The constructor sets the coding only;
  the pointer it leaves indeterminate is \<open>Freed\<close>.
\<close>

record RdbString =
  coding :: RdbValueCoding
  str_s :: ptr
  str_u :: u64

definition RdbString_new :: RdbString where
  "RdbString_new = \<lparr>coding = RDB_NO_VAL, str_s = Freed, str_u = 0\<rparr>"

definition set_str :: "ptr \<Rightarrow> u64 \<Rightarrow> RdbString \<Rightarrow> RdbString" where
  "set_str p len r = r\<lparr>coding := RDB_STR_VAL, str_s := p, str_u := len\<rparr>"

definition set_i32 :: "u32 \<Rightarrow> RdbString \<Rightarrow> RdbString" where
  "set_i32 i r = r\<lparr>coding := RDB_INT_VAL, str_u := scast i\<rparr>"

definition set_i64 :: "u64 \<Rightarrow> RdbString \<Rightarrow> RdbString" where
  "set_i64 i r = r\<lparr>coding := RDB_INT_VAL, str_u := i\<rparr>"

definition set_dbl :: "u64 \<Rightarrow> RdbString \<Rightarrow> RdbString" where
  "set_dbl f r = r\<lparr>coding := RDB_DBL_VAL, str_u := f\<rparr>"

text \<open>What a string stands for; \<open>None\<close> when its bytes are not all in memory.\<close>

datatype rdb_val = NoVal | IntVal u64 | StrVal "u8 list" | DblVal u64

definition str_val :: "RdbString \<Rightarrow> rdb_val option" where
  "str_val r = (case coding r of
       RDB_NO_VAL \<Rightarrow> Some NoVal
     | RDB_INT_VAL \<Rightarrow> Some (IntVal (str_u r))
     | RDB_STR_VAL \<Rightarrow> map_option StrVal (rdn (pmem (str_s r)) (ppos (str_s r)) (unat (str_u r)))
     | RDB_DBL_VAL \<Rightarrow> Some (DblVal (str_u r)))"

section \<open>Callbacks\<close>

datatype StreamPart =
    STREAM_ENTRY_LIST | STREAM_GROUP_LIST | STREAM_GROUP | STREAM_PENDING_LIST
  | STREAM_CONSUMER_LIST | STREAM_CONSUMER | STREAM_CONSUMER_PENDING_LIST

record RdbStreamRecId =
  rec_ms :: u64
  rec_ser :: u64

text \<open>
  One constructor per virtual function of \<open>RdbOutput\<close> that the decoder calls, over the type of
  strings. Besides its argument a call carries what its implementations read of the decoder and of
  the buffer pointer at that moment: \<open>d_start_type\<close> the offset, \<open>d_start_key\<close> and
  \<open>d_end_key\<close> the type, \<open>d_start_key\<close> the key.
  Structures of numbers and strings are passed field by field, in the order \<open>num\<close>, \<open>cnt\<close>
  and then their own fields; the arrays of a stream entry are the list of its field and value
  pairs, or \<open>None\<close> when the arrays have been freed.
\<close>

datatype 's RdbEvent =
    D_idle u64
  | D_freq u8
  | D_aux 's 's
  | D_dbresize u64 u64
  | D_expired_ms u64
  | D_expired u32
  | D_dbselect u32
  | D_start_type RdbType nat
  | D_start_key RdbType 's
  | D_end_key RdbType
  | D_string 's
  | D_module 's
  | D_hash nat nat 's 's
  | D_list nat nat 's
  | D_set nat nat 's
  | D_zset nat nat 's 's
  | D_stream_start StreamPart
  | D_stream_end StreamPart
  | D_stream_entry nat RdbStreamRecId RdbStreamRecId "('s \<times> 's) list option"
  | D_stream_info RdbStreamRecId u64 u64
  | D_stream_group nat nat 's u64 RdbStreamRecId
  | D_stream_pend nat nat RdbStreamRecId u64 u64
  | D_stream_cons nat nat 's u64 u64
  | D_stream_cons_pend nat nat RdbStreamRecId

text \<open>The call with the values of its strings.\<close>

abbreviation ev_val :: "RdbString RdbEvent \<Rightarrow> rdb_val option RdbEvent" where
  "ev_val \<equiv> map_RdbEvent str_val"

text \<open>All strings a call passes can be read.\<close>

definition ev_safe :: "RdbString RdbEvent \<Rightarrow> bool" where
  "ev_safe e \<longleftrightarrow> (\<forall>r \<in> set_RdbEvent e. str_val r \<noteq> None)"

lemma str_val_simps [simp]:
  "str_val RdbString_new = Some NoVal"
  "str_val (set_str p n r) = map_option StrVal (rdn (pmem p) (ppos p) (unat n))"
  "str_val (set_i32 i r) = Some (IntVal (scast i))"
  "str_val (set_i64 x r) = Some (IntVal x)"
  "str_val (set_dbl x r) = Some (DblVal x)"
  by (simp_all add: str_val_def RdbString_new_def set_str_def set_i32_def set_i64_def set_dbl_def)

lemma str_val_readable: "str_val (set_str p n r) \<noteq> None \<longleftrightarrow> readable p (unat n)"
  by (auto simp: readable_def rdn_def)

text \<open>\<open>get_rdb_type\<close> inverts the numbering of the types, and is total on bytes.\<close>

lemma get_rdb_type_val: "get_rdb_type (RdbType_val t) = t"
  by (cases t) (simp_all add: get_rdb_type_def RdbType_values_def)

lemma RdbType_val_inj: "RdbType_val t = RdbType_val u \<longleftrightarrow> t = u"
  by (metis get_rdb_type_val)

lemma get_rdb_type_bad: "get_rdb_type b = RDB_BAD_TYPE \<longleftrightarrow> b = 8 \<or> 19 < b"
proof
  assume bad: "get_rdb_type b = RDB_BAD_TYPE"
  show "b = 8 \<or> 19 < b"
  proof (rule ccontr)
    assume n: "\<not> (b = 8 \<or> 19 < b)"
    then have "unat b \<noteq> 8" "unat b < 20"
      by (auto simp: word_less_nat_alt word_unat_eq_iff)
    moreover from n bad have "RdbType_values ! unat b = RDB_BAD_TYPE"
      by (simp add: get_rdb_type_def)
    ultimately show False
      by (auto simp: RdbType_values_def nth_Cons' less_Suc_eq numeral_eq_Suc split: if_splits)
  qed
qed (auto simp: get_rdb_type_def)

end
