(* ===== verification/Rdb_Len.thy ===== *)
theory Rdb_Len
  imports Rdb_Buf
begin

text \<open>
  The length and immediate-integer header of every RDB object: \<open>RdbLength\<close>
  (\<open>include/rdbparser/rdb_decode.h\<close>, \<open>src/rdb_decode.cpp\<close>) reads it, \<open>RdbLenEncode\<close>
  (\<open>include/rdbparser/rdb_encode.h\<close>) writes it.
\<close>

section \<open>Encodings\<close>

datatype LengthEnc =
    RDB_LEN_ERR | RDB_LEN_6 | RDB_LEN_14 | RDB_LEN_32 | RDB_LEN_64 | RDB_LZF
  | RDB_INT8 | RDB_INT16 | RDB_INT32

text \<open>The enumeration values; \<open>RDB_LEN_ERR\<close> is -1, which has no table entry.\<close>

fun LengthEnc_val :: "LengthEnc \<Rightarrow> nat option" where
  "LengthEnc_val RDB_LEN_ERR = None"
| "LengthEnc_val RDB_LEN_6 = Some 0"
| "LengthEnc_val RDB_LEN_14 = Some 1"
| "LengthEnc_val RDB_LEN_32 = Some 2"
| "LengthEnc_val RDB_LEN_64 = Some 3"
| "LengthEnc_val RDB_LZF = Some 4"
| "LengthEnc_val RDB_INT8 = Some 5"
| "LengthEnc_val RDB_INT16 = Some 6"
| "LengthEnc_val RDB_INT32 = Some 7"

definition length_encoding :: "u8 \<Rightarrow> LengthEnc" where
  "length_encoding b =
     (if b AND 0xc0 = 0x00 then RDB_LEN_6
      else if b AND 0xc0 = 0x40 then RDB_LEN_14
      else if b AND 0xc0 = 0x80 then
        (if b = 0x80 then RDB_LEN_32 else if b = 0x81 then RDB_LEN_64 else RDB_LEN_ERR)
      else if b = 0xc3 then RDB_LZF
      else if b = 0xc0 then RDB_INT8
      else if b = 0xc1 then RDB_INT16
      else if b = 0xc2 then RDB_INT32
      else RDB_LEN_ERR)"

text \<open>The sizes, four bits each, in one 64 bit constant.\<close>

definition LSZ :: "u64 \<Rightarrow> LengthEnc \<Rightarrow> u64" where
  "LSZ v e = (case LengthEnc_val e of None \<Rightarrow> 0 | Some n \<Rightarrow> push_bit (n * 4) v)"

definition LSIZE :: u64 where
  "LSIZE = LSZ 1 RDB_LEN_6 OR LSZ 2 RDB_LEN_14 OR LSZ 5 RDB_LEN_32 OR LSZ 9 RDB_LEN_64 OR
     LSZ 2 RDB_INT8 OR LSZ 3 RDB_INT16 OR LSZ 5 RDB_INT32"

text \<open>\<open>None\<close>: the shift by a negative count that \<open>RDB_LEN_ERR\<close> would give is undefined.\<close>

definition len_size :: "LengthEnc \<Rightarrow> u8 option" where
  "len_size e = map_option (\<lambda>n. ucast (drop_bit (n * 4) LSIZE AND 0xf)) (LengthEnc_val e)"

definition str_code :: "u64 \<Rightarrow> LengthEnc" where
  "str_code x =
     (if x AND 0x3f = x then RDB_LEN_6
      else if x AND 0x3fff = x then RDB_LEN_14
      else if x AND 0xffffffff = x then RDB_LEN_32
      else RDB_LEN_64)"

definition int_code :: "u64 \<Rightarrow> LengthEnc" where
  "int_code x =
     (if sint x \<le> 0x7f \<and> sint x \<ge> - 0x80 then RDB_INT8
      else if sint x \<le> 0x7fff \<and> sint x \<ge> - 0x8000 then RDB_INT16
      else if sint x \<le> 0x7fffffff \<and> sint x \<ge> - 0x80000000 then RDB_INT32
      else RDB_LEN_ERR)"

section \<open>RdbLength\<close>

record RdbLength =
  l_len :: u64
  l_zlen :: u64
  l_ival :: u32
  l_is_enc :: u8
  l_is_lzf :: bool

definition RdbLength_zero :: RdbLength where
  "RdbLength_zero = \<lparr>l_len = 0, l_zlen = 0, l_ival = 0, l_is_enc = 0, l_is_lzf = False\<rparr>"

definition MAX_RDB_HDRLEN :: nat where
  "MAX_RDB_HDRLEN = 9 * 2 + 1"

text \<open>
  \<open>decode_buf\<close> returns the number of bytes of the header, negative on a bad byte; \<open>None\<close> is a
  read outside the block. It calls itself only below an \<open>RDB_LZF\<close> byte, with \<open>is_lzf\<close> set.
\<close>

function decode_buf :: "u8 list \<Rightarrow> nat \<Rightarrow> RdbLength \<Rightarrow> (int \<times> RdbLength) option" where
  "decode_buf m p L = do {
     b0 \<leftarrow> rd8 m p;
     case length_encoding b0 of
       RDB_LEN_6 \<Rightarrow> Some (1, L\<lparr>l_len := ucast (b0 AND 0x3f)\<rparr>)
     | RDB_LEN_14 \<Rightarrow> do {
         b1 \<leftarrow> rd8 m (p + 1);
         Some (2, L\<lparr>l_len := push_bit 8 (ucast (b0 AND 0x3f)) OR ucast b1\<rparr>) }
     | RDB_LEN_32 \<Rightarrow> do { v \<leftarrow> be32 m (p + 1); Some (5, L\<lparr>l_len := ucast v\<rparr>) }
     | RDB_LEN_64 \<Rightarrow> do { v \<leftarrow> be64 m (p + 1); Some (9, L\<lparr>l_len := v\<rparr>) }
     | RDB_LZF \<Rightarrow>
         if l_is_lzf L then Some (-1, L)
         else do {
           (sz, L1) \<leftarrow> decode_buf m (p + 1) (L\<lparr>l_is_lzf := True\<rparr>);
           if sz < 0 then Some (sz, L1)
           else do {
             (sz2, L2) \<leftarrow> decode_buf m (p + nat sz + 1) (L1\<lparr>l_zlen := l_len L1\<rparr>);
             if l_is_enc L2 \<noteq> 0 then Some (-1, L2) else Some (1 + sz + sz2, L2) } }
     | RDB_INT8 \<Rightarrow> do { b1 \<leftarrow> rd8 m (p + 1); Some (2, L\<lparr>l_is_enc := 1, l_ival := scast b1\<rparr>) }
     | RDB_INT16 \<Rightarrow> do { v \<leftarrow> le16 m (p + 1); Some (3, L\<lparr>l_is_enc := 2, l_ival := scast v\<rparr>) }
     | RDB_INT32 \<Rightarrow> do { v \<leftarrow> le32 m (p + 1); Some (5, L\<lparr>l_is_enc := 4, l_ival := v\<rparr>) }
     | RDB_LEN_ERR \<Rightarrow> Some (-1, L) }"
  by pat_completeness auto

text \<open>\<open>is_lzf\<close> is never cleared, so the second recursive call does not recurse either.\<close>

lemma decode_buf_dom_lzf:
  "decode_buf_dom (m, p, L) \<Longrightarrow> l_is_lzf L \<Longrightarrow> decode_buf m p L = Some (n, L') \<Longrightarrow> l_is_lzf L'"
  by (cases "length_encoding (the (rd8 m p))"; cases "rd8 m p")
    (auto simp: decode_buf.psimps bind_Some_iff)

termination decode_buf
  by (relation "measure (\<lambda>(m, p, L). if l_is_lzf L then 0 else 1)")
    (auto dest!: decode_buf_dom_lzf)

declare decode_buf.simps [simp del]

definition decode :: "RdbLength \<Rightarrow> (RdbBufptr, RdbLength) prog" where
  "decode L = andThen (gets id) (\<lambda>bp.
     andThen (if avail bp \<ge> MAX_RDB_HDRLEN then checked (decode_buf (pmem (buf bp)) (ppos (buf bp)) L)
              else andThen (look MAX_RDB_HDRLEN) (\<lambda>la. checked (decode_buf la 0 L))) (\<lambda>(sz, L').
     if sz < 0 then throw RDB_ERR_HDR
     else andThen (incr (nat sz)) (\<lambda>r. case r of None \<Rightarrow> throw RDB_ERR_TRUNC | Some _ \<Rightarrow> ret L')))"

definition consume :: "rdb_env \<Rightarrow> RdbLength \<Rightarrow> (RdbBufptr, ptr) prog" where
  "consume E L =
     (if l_is_enc L \<noteq> 0 then throw RDB_ERR_HDR
      else andThen (if l_is_lzf L then andThen (decompress E (l_zlen L) (l_len L))
                      (\<lambda>ok. if ok then ret () else throw RDB_ERR_LZF) else ret ()) (\<lambda>_.
        andThen (incr (unat (l_len L))) (\<lambda>r. case r of None \<Rightarrow> throw RDB_ERR_TRUNC | Some b \<Rightarrow> ret b)))"

section \<open>RdbLenEncode\<close>

text \<open>The union of \<open>len\<close> and \<open>ival\<close> is one word, read as signed where it is \<open>ival\<close>.\<close>

record RdbLenEncode =
  le_lcode :: LengthEnc
  le_len :: u64

definition RdbLenEncode_init :: RdbLenEncode where
  "RdbLenEncode_init = \<lparr>le_lcode = RDB_LEN_ERR, le_len = 0\<rparr>"

definition enc_len_size :: "u64 \<Rightarrow> RdbLenEncode \<Rightarrow> (nat \<times> RdbLenEncode) option" where
  "enc_len_size x e = do {
     n \<leftarrow> len_size (str_code x);
     Some (unat n, e\<lparr>le_len := x, le_lcode := str_code x\<rparr>) }"

definition enc_str_size :: "u64 \<Rightarrow> RdbLenEncode \<Rightarrow> (u64 \<times> RdbLenEncode) option" where
  "enc_str_size x e = do { (n, e') \<leftarrow> enc_len_size x e; Some (word_of_nat n + x, e') }"

definition enc_int_size :: "u64 \<Rightarrow> RdbLenEncode \<Rightarrow> (nat \<times> RdbLenEncode) option" where
  "enc_int_size x e = do {
     n \<leftarrow> len_size (int_code x);
     Some (unat n, e\<lparr>le_len := x, le_lcode := int_code x\<rparr>) }"

definition len_encode :: "RdbLenEncode \<Rightarrow> u8 list \<Rightarrow> nat \<Rightarrow> (nat \<times> u8 list) option" where
  "len_encode e b p = (case le_lcode e of
       RDB_LEN_6 \<Rightarrow> do { b1 \<leftarrow> wrn b p [ucast (le_len e)]; Some (1, b1) }
     | RDB_LEN_14 \<Rightarrow> do {
         b1 \<leftarrow> wrn b p [0x40 OR ucast (drop_bit 8 (le_len e))];
         b2 \<leftarrow> wrn b1 (p + 1) [ucast (le_len e AND 0xff)];
         Some (2, b2) }
     | RDB_LEN_32 \<Rightarrow> do {
         b1 \<leftarrow> wrn b p [0x80];
         b2 \<leftarrow> be32_write b1 (p + 1) (ucast (le_len e));
         Some (5, b2) }
     | RDB_LEN_64 \<Rightarrow> do {
         b1 \<leftarrow> wrn b p [0x81];
         b2 \<leftarrow> be64_write b1 (p + 1) (le_len e);
         Some (9, b2) }
     | _ \<Rightarrow> Some (0, b))"

definition len_encode_x :: "u64 \<Rightarrow> RdbLenEncode \<Rightarrow> u8 list \<Rightarrow> nat \<Rightarrow> (nat \<times> u8 list \<times> RdbLenEncode) option" where
  "len_encode_x x e b p = (let e' = e\<lparr>le_len := x, le_lcode := str_code x\<rparr> in do {
     (n, b') \<leftarrow> len_encode e' b p; Some (n, b', e') })"

definition str_encode :: "RdbLenEncode \<Rightarrow> u8 list \<Rightarrow> nat \<Rightarrow> u8 list \<Rightarrow> (nat \<times> u8 list) option" where
  "str_encode e b p data = do {
     (sz, b1) \<leftarrow> len_encode e b p;
     xs \<leftarrow> rdn data 0 (unat (le_len e));
     b2 \<leftarrow> wrn b1 (p + sz) xs;
     Some (sz + unat (le_len e), b2) }"

definition str_encode2 ::
  "RdbLenEncode \<Rightarrow> u8 list \<Rightarrow> nat \<Rightarrow> u8 list \<Rightarrow> u8 list \<Rightarrow> u64 \<Rightarrow> u64 \<Rightarrow>
     (nat \<times> u8 list \<times> RdbLenEncode) option" where
  "str_encode2 e b p data data2 sz sz2 = do {
     (off, b1, e') \<leftarrow> len_encode_x (sz + sz2) e b p;
     xs \<leftarrow> rdn data 0 (unat sz);
     b2 \<leftarrow> wrn b1 (p + off) xs;
     b3 \<leftarrow> (if sz2 > 0 then do {
         ys \<leftarrow> rdn data2 0 (unat sz2);
         wrn b2 (p + off + unat sz) ys } else Some b2);
     Some (off + unat (le_len e'), b3, e') }"

definition int_encode :: "RdbLenEncode \<Rightarrow> u8 list \<Rightarrow> nat \<Rightarrow> (nat \<times> u8 list) option" where
  "int_encode e b p = (case le_lcode e of
       RDB_INT8 \<Rightarrow> do {
         b1 \<leftarrow> wrn b p [0xc0]; b2 \<leftarrow> wrn b1 (p + 1) [ucast (le_len e)]; Some (2, b2) }
     | RDB_INT16 \<Rightarrow> do {
         b1 \<leftarrow> wrn b p [0xc1]; b2 \<leftarrow> le16_write b1 (p + 1) (ucast (le_len e)); Some (3, b2) }
     | RDB_INT32 \<Rightarrow> do {
         b1 \<leftarrow> wrn b p [0xc2]; b2 \<leftarrow> le32_write b1 (p + 1) (ucast (le_len e)); Some (5, b2) }
     | _ \<Rightarrow> Some (0, b))"

section \<open>Functional behaviour of the header\<close>

lemma length_encoding_unat:
  "length_encoding b =
     (let n = unat b in
      if n < 64 then RDB_LEN_6 else if n < 128 then RDB_LEN_14
      else if n = 128 then RDB_LEN_32 else if n = 129 then RDB_LEN_64
      else if n = 192 then RDB_INT8 else if n = 193 then RDB_INT16
      else if n = 194 then RDB_INT32 else if n = 195 then RDB_LZF else RDB_LEN_ERR)"
proof -
  have "b AND 0xc0 = 0 \<longleftrightarrow> unat b < 64"
    "b AND 0xc0 = 0x40 \<longleftrightarrow> 64 \<le> unat b \<and> unat b < 128"
    "b AND 0xc0 = 0x80 \<longleftrightarrow> 128 \<le> unat b \<and> unat b < 192"
    using unat_lt_256 [of b] by (auto simp: word_unat_eq_iff unat_u8_high)
  then show ?thesis
    using unat_lt_256 [of b] by (auto simp: length_encoding_def Let_def word_unat_eq_iff)
qed

lemma str_code_unat:
  "str_code x = (if unat x < 64 then RDB_LEN_6 else if unat x < 16384 then RDB_LEN_14
     else if unat x < 4294967296 then RDB_LEN_32 else RDB_LEN_64)"
  by (simp only: str_code_def and_masks and_mask_id) simp

lemma len_size_simps [simp]:
  "len_size RDB_LEN_ERR = None" "len_size RDB_LEN_6 = Some 1" "len_size RDB_LEN_14 = Some 2"
  "len_size RDB_LEN_32 = Some 5" "len_size RDB_LEN_64 = Some 9" "len_size RDB_LZF = Some 0"
  "len_size RDB_INT8 = Some 2" "len_size RDB_INT16 = Some 3" "len_size RDB_INT32 = Some 5"
  by (simp_all add: len_size_def LSIZE_def LSZ_def)

definition hdr_bytes :: "u64 \<Rightarrow> u8 list" where
  "hdr_bytes x = (case str_code x of
       RDB_LEN_6 \<Rightarrow> [ucast x]
     | RDB_LEN_14 \<Rightarrow> [0x40 OR ucast (drop_bit 8 x), ucast x]
     | RDB_LEN_32 \<Rightarrow> 0x80 # rev (mem_store 4 (ucast x :: u32))
     | _ \<Rightarrow> 0x81 # rev (mem_store 8 x))"

definition int_bytes :: "u64 \<Rightarrow> u8 list" where
  "int_bytes x = (case int_code x of
       RDB_INT8 \<Rightarrow> [0xc0, ucast x]
     | RDB_INT16 \<Rightarrow> 0xc1 # mem_store 2 (ucast x :: u16)
     | _ \<Rightarrow> 0xc2 # mem_store 4 (ucast x :: u32))"

definition int_width :: "u64 \<Rightarrow> u8" where
  "int_width x = (case int_code x of RDB_INT8 \<Rightarrow> 1 | RDB_INT16 \<Rightarrow> 2 | _ \<Rightarrow> 4)"

lemma int_width_not_0: "int_width x \<noteq> 0"
  by (simp add: int_width_def split: LengthEnc.split)

lemma length_hdr_bytes: "len_size (str_code x) = Some (word_of_nat (length (hdr_bytes x)))"
  by (simp add: hdr_bytes_def str_code_unat)

lemma len_encode_wrn:
  "le_lcode e = str_code (le_len e) \<Longrightarrow>
     len_encode e b p = map_option (\<lambda>b'. (length (hdr_bytes (le_len e)), b')) (wrn b p (hdr_bytes (le_len e)))"
  by (simp add: len_encode_def hdr_bytes_def str_code_unat endian_write_bytes rdb_mem and_ff
      map_conv_bind_option comp_def numeral_2_eq_2)

lemma int_encode_wrn:
  "le_lcode e = int_code (le_len e) \<Longrightarrow> int_code (le_len e) \<noteq> RDB_LEN_ERR \<Longrightarrow>
     int_encode e b p = map_option (\<lambda>b'. (length (int_bytes (le_len e)), b')) (wrn b p (int_bytes (le_len e)))"
  by (simp add: int_encode_def int_bytes_def int_code_def endian_write_bytes rdb_mem
      map_conv_bind_option comp_def eval_nat_numeral split: if_splits)

lemma decode_hdr_bytes:
  assumes "bytes_at m p (hdr_bytes x)"
  shows "decode_buf m p L = Some (int (length (hdr_bytes x)), L\<lparr>l_len := x\<rparr>)"
proof -
  consider "unat x < 64" | "64 \<le> unat x" "unat x < 16384" | "16384 \<le> unat x" "unat x < 4294967296"
    | "4294967296 \<le> unat x" by linarith
  then show ?thesis
  proof cases
    case 1
    then have "(ucast x :: u8) AND 0x3f = ucast x"
      by (simp only: and_masks and_mask_id unat_ucast_u8) simp
    with 1 assms show ?thesis
      by (subst decode_buf.simps)
        (auto simp: hdr_bytes_def str_code_unat rdb_mem length_encoding_unat unat_ucast_u8 Let_def
          word_unat_eq_iff unat_u8_up)
  next
    case 2
    with assms show ?thesis
      by (subst decode_buf.simps)
        (simp add: hdr_bytes_def str_code_unat rdb_mem length_encoding_unat hdr14_first Let_def
          hdr14_value)
  next
    case 3
    with assms show ?thesis
      by (subst decode_buf.simps)
        (auto simp: hdr_bytes_def str_code_unat rdb_mem length_encoding_unat Let_def bytes_at_rdn
         endian_read_bytes mem_load_store ucast_ucast_32)
  next
    case 4
    with assms show ?thesis
      by (subst decode_buf.simps)
        (auto simp: hdr_bytes_def str_code_unat rdb_mem length_encoding_unat Let_def bytes_at_rdn
         endian_read_bytes mem_load_store)
  qed
qed

lemma decode_int_bytes:
  assumes "bytes_at m p (int_bytes x)" "int_code x \<noteq> RDB_LEN_ERR"
  shows "decode_buf m p L = Some (int (length (int_bytes x)), L\<lparr>l_is_enc := int_width x, l_ival := ucast x\<rparr>)
    \<and> sint (ucast x :: u32) = sint x"
proof -
  have r: "- 2147483648 \<le> sint x" "sint x \<le> 2147483647"
    using assms(2) by (auto simp: int_code_def split: if_splits)
  then have s: "sint (ucast x :: u32) = sint x"
    by (intro sint_ucast_small) simp_all
  consider "int_code x = RDB_INT8" | "int_code x = RDB_INT16" | "int_code x = RDB_INT32"
    using assms(2) by (auto simp: int_code_def split: if_splits)
  then show ?thesis
  proof cases
    case 1
    then have "scast (ucast x :: u8) = (ucast x :: u32)"
      by (intro scast_ucast_small) (auto simp: int_code_def split: if_splits)
    with 1 assms(1) s show ?thesis
      by (subst decode_buf.simps)
        (auto simp: int_width_def int_bytes_def rdb_mem length_encoding_unat Let_def)
  next
    case 2
    then have "scast (ucast x :: u16) = (ucast x :: u32)"
      by (intro scast_ucast_small) (auto simp: int_code_def split: if_splits)
    with 2 assms(1) s show ?thesis
      by (subst decode_buf.simps)
        (auto simp: int_width_def int_bytes_def rdb_mem length_encoding_unat Let_def bytes_at_rdn endian_read_bytes
          mem_load_store)
  next
    case 3
    with assms(1) s show ?thesis
      by (subst decode_buf.simps)
        (auto simp: int_width_def int_bytes_def rdb_mem length_encoding_unat Let_def bytes_at_rdn endian_read_bytes
          mem_load_store)
  qed
qed

lemma rd_lzf_byte:
  "rd8 m p = Some 0xc3 \<Longrightarrow> \<not> l_is_lzf L \<Longrightarrow> decode_buf m p L = do {
     (sz, L1) \<leftarrow> decode_buf m (Suc p) (L\<lparr>l_is_lzf := True\<rparr>);
     if sz < 0 then Some (sz, L1)
     else do {
       (sz2, L2) \<leftarrow> decode_buf m (p + nat sz + 1) (L1\<lparr>l_zlen := l_len L1\<rparr>);
       if l_is_enc L2 \<noteq> 0 then Some (-1, L2) else Some (1 + sz + sz2, L2) } }"
  by (subst decode_buf.simps) (simp add: length_encoding_unat Let_def)

lemma decode_lzf_bytes:
  assumes b: "bytes_at m p (0xc3 # hdr_bytes z @ hdr_bytes n)" and L: "\<not> l_is_lzf L" "l_is_enc L = 0"
  shows "decode_buf m p L = Some (int (length (0xc3 # hdr_bytes z @ hdr_bytes n)),
    L\<lparr>l_is_lzf := True, l_zlen := z, l_len := n\<rparr>)"
proof -
  have "rd8 m p = Some 0xc3" "bytes_at m (Suc p) (hdr_bytes z)"
    "bytes_at m (p + length (hdr_bytes z) + 1) (hdr_bytes n)"
    using b by (simp_all add: rdb_mem)
  note d = this
  show ?thesis
    using L by (simp add: rd_lzf_byte d decode_hdr_bytes [OF d(2)] decode_hdr_bytes [OF d(3), simplified])
qed

lemma decode_lzf_bad_length:
  assumes b: "bytes_at m p (0xc3 # hdr_bytes z @ [bad])" and bad: "length_encoding bad = RDB_LEN_ERR"
    and L: "\<not> l_is_lzf L" "l_is_enc L = 0"
  shows "decode_buf m p L = Some (int (length (hdr_bytes z)), L\<lparr>l_is_lzf := True, l_len := z, l_zlen := z\<rparr>)"
proof -
  let ?L = "L\<lparr>l_is_lzf := True, l_len := z, l_zlen := z\<rparr>"
  have "rd8 m p = Some 0xc3" "bytes_at m (Suc p) (hdr_bytes z)" "rd8 m (Suc (p + length (hdr_bytes z))) = Some bad"
    using b by (simp_all add: rdb_mem)
  note d = this
  have "decode_buf m (Suc (p + length (hdr_bytes z))) ?L = Some (-1, ?L)"
    using bad by (subst decode_buf.simps) (simp add: d)
  then show ?thesis
    using L by (simp add: rd_lzf_byte d decode_hdr_bytes [OF d(2)])
qed

lemma decode_buf_keeps_lzf: "l_is_lzf L \<Longrightarrow> decode_buf m p L = Some (n, L') \<Longrightarrow> l_is_lzf L'"
  by (cases "length_encoding (the (rd8 m p))"; cases "rd8 m p")
    (auto simp: decode_buf.simps [of m p L] bind_Some_iff)

lemma decode_buf_inner:
  assumes "p + 9 \<le> length m" "l_is_lzf L"
  obtains n L' where "decode_buf m p L = Some (n, L')" "n = -1 \<or> 1 \<le> n \<and> n \<le> 9"
  using assms
  by (cases "length_encoding (m ! p)")
    (auto simp: decode_buf.simps [of m p L] rd8_def rdn_def endian_read_bytes)

lemma decode_buf_bounded:
  assumes "p + MAX_RDB_HDRLEN \<le> length m"
  shows "\<exists>n L'. decode_buf m p L = Some (n, L') \<and> (n = -1 \<or> 1 \<le> n \<and> n \<le> int MAX_RDB_HDRLEN)"
proof (cases "length_encoding (m ! p) = RDB_LZF \<and> \<not> l_is_lzf L")
  case True
  obtain n L1 where 1: "decode_buf m (p + 1) (L\<lparr>l_is_lzf := True\<rparr>) = Some (n, L1)" "n = -1 \<or> 1 \<le> n \<and> n \<le> 9"
    using assms by (auto simp: MAX_RDB_HDRLEN_def intro: decode_buf_inner [of "p + 1" m "L\<lparr>l_is_lzf := True\<rparr>"])
  show ?thesis
  proof (cases "n < 0")
    case True': True
    with True 1 assms show ?thesis
      by (subst decode_buf.simps) (simp add: rd8_def MAX_RDB_HDRLEN_def)
  next
    case False
    have "l_is_lzf L1"
      using 1 by (auto dest: decode_buf_keeps_lzf [rotated])
    then obtain n2 L2 where 2: "decode_buf m (p + nat n + 1) (L1\<lparr>l_zlen := l_len L1\<rparr>) = Some (n2, L2)"
      "n2 = -1 \<or> 1 \<le> n2 \<and> n2 \<le> 9"
      using assms 1 False
      by (auto simp: MAX_RDB_HDRLEN_def intro: decode_buf_inner [of "p + nat n + 1" m "L1\<lparr>l_zlen := l_len L1\<rparr>"])
    with True 1 False assms show ?thesis
      by (subst decode_buf.simps) (auto simp: rd8_def MAX_RDB_HDRLEN_def)
  qed
next
  case False
  with assms show ?thesis
    by (cases "length_encoding (m ! p)")
      (auto simp: decode_buf.simps [of m p L] rd8_def rdn_def endian_read_bytes MAX_RDB_HDRLEN_def)
qed

section \<open>Reading a header from a buffer\<close>

lemma decode_runs:
  assumes "wf_bufptr bp" "has_bytes bp xs" "xs \<noteq> []" "length xs \<le> MAX_RDB_HDRLEN"
    and buf: "\<And>m p. bytes_at m p xs \<Longrightarrow> decode_buf m p L = Some (int (length xs), L')"
  shows "\<exists>bp'. decode L bp = (Ok L', bp') \<and> advanced (length xs) bp bp'"
proof (cases "avail bp \<ge> MAX_RDB_HDRLEN")
  case True
  have "decode_buf (pmem (buf bp)) (ppos (buf bp)) L = Some (int (length xs), L')"
    using assms(2) by (intro buf) (simp add: has_bytes_def)
  with True assms(1,2) show ?thesis
    by (auto simp: decode_def run_simps andThen_def [of "incr _"] incr_def has_bytes_def advanced_def wf_bufptr_def)
next
  case False
  obtain la where la: "look MAX_RDB_HDRLEN bp = (Ok la, bp\<lparr>lookahead := la\<rparr>)" "length la = 32" "bytes_at la 0 xs"
    using look_runs [of bp xs MAX_RDB_HDRLEN] assms by (auto simp: MAX_RDB_HDRLEN_def)
  then have "decode_buf la 0 L = Some (int (length xs), L')"
    by (intro buf) simp
  with False la assms(1,2) show ?thesis
    by (auto simp: decode_def run_simps andThen_Ok [of "look _"] andThen_def [of "incr _"] incr_def has_bytes_def advanced_def wf_bufptr_def)
qed

lemma decode_wf [triple_intros]: "triple wf_bufptr (decode L) (\<lambda>_. wf_bufptr) wf_bufptr"
proof -
  have b: "wf_bufptr bp \<Longrightarrow> MAX_RDB_HDRLEN \<le> avail bp \<Longrightarrow>
      \<exists>n L'. decode_buf (pmem (buf bp)) (ppos (buf bp)) L = Some (n, L')" for bp
    using decode_buf_bounded [of "ppos (buf bp)" "pmem (buf bp)" L]
    by (auto simp: wf_bufptr_def readable_def)
  have l: "length la = 32 \<Longrightarrow> \<exists>n L'. decode_buf la 0 L = Some (n, L')" for la
    using decode_buf_bounded [of 0 la L] by (auto simp: MAX_RDB_HDRLEN_def)
  have hdr: "triple (\<lambda>s. wf_bufptr s \<and> s = bp)
     (if avail bp \<ge> MAX_RDB_HDRLEN then checked (decode_buf (pmem (buf bp)) (ppos (buf bp)) L)
      else andThen (look MAX_RDB_HDRLEN) (\<lambda>la. checked (decode_buf la 0 L))) (\<lambda>_. wf_bufptr) wf_bufptr" for bp
  proof (rule triple_if)
    assume "MAX_RDB_HDRLEN \<le> avail bp"
    with b show "triple (\<lambda>s. wf_bufptr s \<and> s = bp) (checked (decode_buf (pmem (buf bp)) (ppos (buf bp)) L))
        (\<lambda>_. wf_bufptr) wf_bufptr"
      by (force simp: triple_def checked_def)
  next
    have "triple wf_bufptr (look MAX_RDB_HDRLEN) (\<lambda>la bp. wf_bufptr bp \<and> length la = 32) wf_bufptr"
      by (rule look_wf) (simp add: MAX_RDB_HDRLEN_def)
    then have "triple wf_bufptr (andThen (look MAX_RDB_HDRLEN) (\<lambda>la. checked (decode_buf la 0 L)))
        (\<lambda>_. wf_bufptr) wf_bufptr"
      by (rule triple_andThen) (use l in \<open>force simp: triple_def checked_def\<close>)
    then show "triple (\<lambda>s. wf_bufptr s \<and> s = bp)
        (andThen (look MAX_RDB_HDRLEN) (\<lambda>la. checked (decode_buf la 0 L))) (\<lambda>_. wf_bufptr) wf_bufptr"
      by (rule triple_weaken) auto
  qed
  have adv: "triple wf_bufptr (andThen (incr n) (\<lambda>r. case r of None \<Rightarrow> throw RDB_ERR_TRUNC | Some _ \<Rightarrow> ret L'))
      (\<lambda>_. wf_bufptr) wf_bufptr" for n L'
    by (rule triple_andThen [OF incr_wf]) (auto simp: triple_def run_simps split: option.splits)
  show ?thesis
    unfolding decode_def
    by (rule triple_andThen [where M = "\<lambda>bp s. wf_bufptr s \<and> s = bp"];
        (rule triple_andThen [OF hdr])?) (auto intro!: triple_intros adv split: prod.splits)
qed

lemma consume_wf:
  assumes "bounded_lzf E" "no_wrap E"
  shows "triple wf_bufptr (consume E L) (\<lambda>p bp. wf_bufptr bp \<and> readable p (unat (l_len L))) wf_bufptr"
proof -
  have dec: "triple wf_bufptr (if l_is_lzf L then andThen (decompress E (l_zlen L) (l_len L))
                      (\<lambda>ok. if ok then ret () else throw RDB_ERR_LZF) else ret ()) (\<lambda>_. wf_bufptr) wf_bufptr"
    by (rule triple_if, rule triple_andThen [OF decompress_wf [OF assms]])
      (auto intro!: triple_intros)
  show ?thesis
    unfolding consume_def
    by (rule triple_if, rule triple_throw, assumption, rule triple_andThen [OF dec], rule triple_andThen [OF incr_wf])
      (auto simp: triple_def run_simps split: option.splits)
qed

lemma consume_refusing: "\<not> (l_is_lzf L \<and> wraps (l_len L)) \<Longrightarrow> consume (refusing E) L = consume E L"
  by (auto simp: consume_def decompress_refusing)

lemma consume_agrees [agrees_intros]: "agrees (consume E L) (consume (refusing E) L)"
  unfolding consume_def by (intro agrees_intros)

lemma length_hdr_bytes_le: "length (hdr_bytes x) \<le> 9"
  by (simp add: hdr_bytes_def str_code_unat)

lemma hdr_bytes_not_Nil [simp]: "hdr_bytes x \<noteq> []"
  by (simp add: hdr_bytes_def str_code_unat)

lemma int_bytes_size:
  "int_code x \<noteq> RDB_LEN_ERR \<Longrightarrow> len_size (int_code x) = Some (word_of_nat (length (int_bytes x)))"
  "length (int_bytes x) \<le> 5"
  by (auto simp: int_bytes_def int_code_def)

lemma enc_len_size_hdr: "enc_len_size x e = Some (length (hdr_bytes x), e\<lparr>le_len := x, le_lcode := str_code x\<rparr>)"
  using length_hdr_bytes_le [of x]
  by (simp add: enc_len_size_def length_hdr_bytes unat_of_nat)

section \<open>Properties\<close>

text \<open>C12: Writing a length with \<open>RdbLenEncode::len_encode\<close> and reading it back with
  \<open>RdbLength::decode_buf\<close> gives the length back for every 64 bit value. The bytes written are as many
  as the size pass (\<open>len_size\<close>) announced and as the decoder consumes, at most nine, and no other byte
  of the block changes.\<close>

theorem rdb_length_roundtrip:
  assumes "p + 9 \<le> length b"
  shows "\<exists>n b' e'. len_encode_x x e b p = Some (n, b', e') \<and> enc_len_size x e = Some (n, e') \<and> n \<le> 9
    \<and> decode_buf b' p L = Some (int n, L\<lparr>l_len := x\<rparr>) \<and> length b' = length b
    \<and> (\<forall>i. i < p \<or> p + n \<le> i \<longrightarrow> rd8 b' i = rd8 b i)"
proof -
  obtain b' where w: "wrn b p (hdr_bytes x) = Some b'"
    using assms length_hdr_bytes_le [of x] wrn_fits [of b p "hdr_bytes x"] by fastforce
  then have "decode_buf b' p L = Some (int (length (hdr_bytes x)), L\<lparr>l_len := x\<rparr>)"
    by (intro decode_hdr_bytes wrn_bytes_at)
  then show ?thesis
    using w length_hdr_bytes_le [of x] wrn_length [OF w] wrn_frame [OF w]
    by (auto simp: len_encode_x_def len_encode_wrn enc_len_size_hdr)
qed

theorem rdb_length_roundtrip_witness:
  "(0::nat) + 9 \<le> length (replicate 9 (0::u8)) \<and> decode_buf [0x52, 0x34, 0, 0, 0, 0, 0, 0, 0] 0 RdbLength_zero
     = Some (2, RdbLength_zero\<lparr>l_len := 0x1234\<rparr>)"
proof -
  have "len_encode_x 0x1234 RdbLenEncode_init (replicate 9 0) 0
      = Some (2, [0x52, 0x34, 0, 0, 0, 0, 0, 0, 0], \<lparr>le_lcode = RDB_LEN_14, le_len = 0x1234\<rparr>)"
    by code_simp
  with rdb_length_roundtrip [where p = 0 and b = "replicate 9 0" and x = "0x1234" and e = RdbLenEncode_init and L = RdbLength_zero]
  show ?thesis by simp
qed

text \<open>C14: An integer that has an immediate encoding (\<open>int_code\<close>, exactly the 32 bit range) is written
  in the bytes its size pass announced and read back as itself.\<close>

theorem rdb_int_roundtrip:
  assumes "p + 5 \<le> length b" "- (2 ^ 31) \<le> sint x" "sint x < 2 ^ 31"
  shows "\<exists>n b' e' k v. enc_int_size x e = Some (n, e') \<and> int_encode e' b p = Some (n, b')
    \<and> decode_buf b' p L = Some (int n, L\<lparr>l_is_enc := k, l_ival := v\<rparr>) \<and> k \<noteq> 0 \<and> sint v = sint x"
proof -
  have ic: "int_code x \<noteq> RDB_LEN_ERR" using assms(2,3) by (simp add: int_code_def)
  obtain b' where w: "wrn b p (int_bytes x) = Some b'"
    using assms int_bytes_size(2) [of x] wrn_fits [of b p "int_bytes x"] by fastforce
  then have "decode_buf b' p L = Some (int (length (int_bytes x)), L\<lparr>l_is_enc := int_width x, l_ival := ucast x\<rparr>)
    \<and> sint (ucast x :: u32) = sint x"
    by (intro decode_int_bytes wrn_bytes_at ic)
  then show ?thesis
    using w int_bytes_size [of x] ic int_width_not_0 [of x]
    by (fastforce simp: enc_int_size_def int_encode_wrn unat_of_nat)
qed

theorem rdb_int_roundtrip_witness:
  "(0::nat) + 5 \<le> length (replicate 5 (0::u8)) \<and> - (2 ^ 31) \<le> sint (-3 :: u64) \<and> sint (-3 :: u64) < 2 ^ 31
   \<and> (\<exists>n L'. decode_buf [0xc0, 0xfd, 0, 0, 0] 0 RdbLength_zero = Some (n, L') \<and> sint (l_ival L') = -3)"
proof -
  have e: "enc_int_size (-3) RdbLenEncode_init = Some (2, \<lparr>le_lcode = RDB_INT8, le_len = -3\<rparr>)"
    by (simp add: enc_int_size_def int_code_def RdbLenEncode_init_def)
  have i: "int_encode \<lparr>le_lcode = RDB_INT8, le_len = -3\<rparr> (replicate 5 0) 0 = Some (2, [0xc0, 0xfd, 0, 0, 0])"
    by code_simp
  have s: "sint (-3 :: u64) = -3" by simp
  show ?thesis
    using rdb_int_roundtrip [where p = 0 and b = "replicate 5 0" and x = "-3" and e = RdbLenEncode_init
      and L = RdbLength_zero]
    unfolding e s by (auto simp: i)
qed

lemma str_encode_wrn:
  assumes "le_lcode e = str_code (le_len e)" "rdn data 0 (unat (le_len e)) = Some xs"
  shows "str_encode e b p data = map_option (\<lambda>b'. (length (hdr_bytes (le_len e)) + unat (le_len e), b'))
    (wrn b p (hdr_bytes (le_len e) @ xs))"
  using assms
  by (simp add: str_encode_def len_encode_wrn map_conv_bind_option comp_def rdb_mem wrn_wrn_ge)

lemma consume_runs:
  assumes "wf_bufptr bp" "has_bytes bp xs" "unat (l_len L) = length xs" "l_is_enc L = 0" "\<not> l_is_lzf L"
  shows "\<exists>bp'. consume E L bp = (Ok (buf bp), bp') \<and> advanced (length xs) bp bp'
    \<and> rdn (pmem (buf bp)) (ppos (buf bp)) (length xs) = Some xs"
  using incr_runs [OF assms(1,2,3)] assms(3,4,5)
  by (auto simp: consume_def run_simps andThen_Ok)

text \<open>C13: A string written with \<open>str_encode\<close> and read back from the bytes written: \<open>decode\<close> then
  \<open>consume\<close> deliver a pointer to exactly the string, and nothing of the input is left.\<close>

theorem rdb_string_roundtrip:
  assumes "unat x = length data" "p + 9 + length data \<le> length b"
  shows "\<exists>t n b' e' L q bp1 bp2. enc_str_size x e = Some (t, e') \<and> str_encode e' b p data = Some (n, b')
    \<and> decode RdbLength_zero (RdbBufptr_init (Ptr False b' p) n) = (Ok L, bp1)
    \<and> consume E L bp1 = (Ok q, bp2) \<and> rdn (pmem q) (ppos q) (unat (l_len L)) = Some data
    \<and> l_len L = x \<and> avail bp2 = 0"
proof -
  let ?h = "hdr_bytes x" let ?e = "e\<lparr>le_len := x, le_lcode := str_code x\<rparr>"
  let ?n = "length ?h + length data" and ?L = "RdbLength_zero\<lparr>l_len := x\<rparr>"
  obtain b' where w: "wrn b p (?h @ data) = Some b'"
    using assms length_hdr_bytes_le [of x] wrn_fits [of b p "?h @ data"] by fastforce
  have data: "rdn data 0 (unat (le_len ?e)) = Some data"
    using assms(1) by (simp add: rdn_def)
  have enc: "str_encode ?e b p data = Some (?n, b')"
    using str_encode_wrn [OF _ data, of b p] w assms(1) by simp
  let ?bp = "RdbBufptr_init (Ptr False b' p) ?n"
  have at: "bytes_at b' p (?h @ data)" using wrn_bytes_at [OF w] .
  have wf: "wf_bufptr ?bp"
    using bytes_at_le [OF at] by (intro wf_init) simp
  have has: "has_bytes ?bp (?h @ data)"
    using at by (simp add: has_bytes_def RdbBufptr_init_def)
  obtain bp1 where 1: "decode RdbLength_zero ?bp = (Ok ?L, bp1)" "advanced (length ?h) ?bp bp1"
    using decode_runs [OF wf has_bytes_prefix [OF has] _ _ decode_hdr_bytes] length_hdr_bytes_le [of x]
    by (auto simp: MAX_RDB_HDRLEN_def)
  have wf1: "wf_bufptr bp1"
    using advanced_wf [OF wf 1(2)] by (simp add: RdbBufptr_init_def)
  obtain bp2 where 2: "consume E ?L bp1 = (Ok (buf bp1), bp2)" "advanced (length data) bp1 bp2"
    "rdn (pmem (buf bp1)) (ppos (buf bp1)) (length data) = Some data"
    using consume_runs [OF wf1 has_bytes_advanced [OF has 1(2)], of ?L E] assms(1)
    by (auto simp: RdbLength_zero_def)
  have "avail bp2 = 0"
    using 1(2) 2(2) by (simp add: advanced_def RdbBufptr_init_def)
  then show ?thesis
    using enc 1(1) 2 assms(1) by (auto simp: enc_str_size_def enc_len_size_hdr intro!: exI)
qed

theorem rdb_string_roundtrip_witness:
  "unat (3 :: u64) = length [1, 2, 3 :: u8] \<and> (0::nat) + 9 + length [1, 2, 3 :: u8] \<le> length (replicate 12 (0::u8))
   \<and> (\<exists>L q bp1 bp2. decode RdbLength_zero (RdbBufptr_init (Ptr False [3, 1, 2, 3, 0, 0, 0, 0, 0, 0, 0, 0] 0) 4) = (Ok L, bp1)
      \<and> consume \<lparr>lzf_decompress = (\<lambda>_ _. []), malloc_ok = (\<lambda>_. True), uninit = (\<lambda>_. 0)\<rparr> L bp1 = (Ok q, bp2)
      \<and> rdn (pmem q) (ppos q) (unat (l_len L)) = Some [1, 2, 3])"
proof -
  have "enc_str_size 3 RdbLenEncode_init = Some (4, \<lparr>le_lcode = RDB_LEN_6, le_len = 3\<rparr>)"
    "str_encode \<lparr>le_lcode = RDB_LEN_6, le_len = 3\<rparr> (replicate 12 0) 0 [1, 2, 3] = Some (4, [3, 1, 2, 3, 0, 0, 0, 0, 0, 0, 0, 0])"
    by code_simp+
  then show ?thesis
    using rdb_string_roundtrip [where p = 0 and b = "replicate 12 0" and x = 3 and data = "[1, 2, 3]"
        and e = RdbLenEncode_init and E = "\<lparr>lzf_decompress = (\<lambda>_ _. []), malloc_ok = (\<lambda>_. True), uninit = (\<lambda>_. 0)\<rparr>"]
    by fastforce
qed

text \<open>C15: Decoding a header and fetching its data, for any bytes: from a well-formed buffer pointer, \<open>decode\<close> and \<open>consume\<close>
  end with a value or an error code, leave the buffer pointer well formed, and a returned pointer has all the bytes
  the header announced, decompressed ones included. There is one exception: a compressed header whose uncompressed length is one of
  the eight largest numbers, for which the size of the block wraps. Of the library only its documented bound is assumed, at most as many bytes are
  written as it was given room for; of \<open>malloc\<close> nothing.\<close>

theorem header_memory_safe:
  assumes "bounded_lzf E" "wf_bufptr bp"
    and "andThen (decode RdbLength_zero) (\<lambda>L. andThen (consume E L) (\<lambda>q. ret (L, q))) bp = (r, bp')"
  shows "(r \<noteq> Fault \<and> wf_bufptr bp' \<and> (\<forall>L q. r = Ok (L, q) \<longrightarrow> readable q (unat (l_len L))))
    \<or> (\<exists>L bp1. decode RdbLength_zero bp = (Ok L, bp1) \<and> l_is_lzf L \<and> 2 ^ 64 - 8 \<le> unat (l_len L))"
proof (cases "\<exists>L bp1. decode RdbLength_zero bp = (Ok L, bp1) \<and> l_is_lzf L \<and> wraps (l_len L)")
  case True
  then show ?thesis by (auto simp: wraps_def)
next
  case False
  let ?m = "\<lambda>E. andThen (decode RdbLength_zero) (\<lambda>L. andThen (consume E L) (\<lambda>q. ret (L, q)))"
  have "triple wf_bufptr (?m (refusing E)) (\<lambda>(L, q) bp. wf_bufptr bp \<and> readable q (unat (l_len L))) wf_bufptr"
    by (rule triple_andThen [OF decode_wf], rule triple_andThen [OF consume_wf], rule refusing(2) [THEN iffD2, OF assms(1)],
        rule refusing(1), rule triple_ret) simp
  moreover have "?m (refusing E) bp = ?m E bp"
    using False by (cases "decode RdbLength_zero bp"; cases "fst (decode RdbLength_zero bp)") (auto simp: andThen_def consume_refusing)
  ultimately show ?thesis
    using assms(2,3) by (cases r) (auto simp: triple_def)
qed

theorem header_memory_safe_witness:
  "\<exists>E bp. bounded_lzf E \<and> malloc_ok E = (\<lambda>_. True) \<and> wf_bufptr bp
     \<and> fst (andThen (decode RdbLength_zero) (\<lambda>L. andThen (consume E L) (\<lambda>q. ret (L, q))) bp) \<noteq> Fault"
proof -
  let ?E = "\<lparr>lzf_decompress = (\<lambda>zin n. take n [0]), malloc_ok = (\<lambda>_. True), uninit = (\<lambda>_. 0)\<rparr>"
  let ?bp = "RdbBufptr_init (Ptr False [0xc3, 2, 5, 7, 7] 0) 5"
  have E: "bounded_lzf ?E" by (simp add: bounded_lzf_def)
  have wf: "wf_bufptr ?bp" by (rule wf_init) simp
  obtain r bp' where run: "andThen (decode RdbLength_zero) (\<lambda>L. andThen (consume ?E L) (\<lambda>q. ret (L, q))) ?bp = (r, bp')" by fastforce
  have "fst (decode RdbLength_zero ?bp) = Ok (RdbLength_zero\<lparr>l_is_lzf := True, l_len := 5, l_zlen := 2\<rparr>)"
    by code_simp
  then have "\<not> (\<exists>L bp1. decode RdbLength_zero ?bp = (Ok L, bp1) \<and> l_is_lzf L \<and> 2 ^ 64 - 8 \<le> unat (l_len L))"
    by auto
  with header_memory_safe [OF E wf run] have "r \<noteq> Fault" by blast
  then have "fst (andThen (decode RdbLength_zero) (\<lambda>L. andThen (consume ?E L) (\<lambda>q. ret (L, q))) ?bp) \<noteq> Fault"
    unfolding run by simp
  with E wf show ?thesis by (intro exI [of _ ?E] exI [of _ ?bp]) simp
qed

text \<open>C31: A compressed header whose uncompressed length is malformed is accepted. \<open>decode_buf\<close> checks
  the first length it reads after \<open>0xc3\<close>, not the second: a bad length byte gives no error but the
  size of the first length, one byte less than was read, with the compressed length standing for the
  uncompressed one.\<close>

theorem lzf_bad_second_length:
  assumes "bytes_at m p (0xc3 # hdr_bytes z @ [bad])" "length_encoding bad = RDB_LEN_ERR"
  shows "decode_buf m p RdbLength_zero = Some (int (length (hdr_bytes z)),
    RdbLength_zero\<lparr>l_is_lzf := True, l_len := z, l_zlen := z\<rparr>)"
  by (rule decode_lzf_bad_length [OF assms]) (simp_all add: RdbLength_zero_def)

theorem lzf_bad_second_length_witness:
  "bytes_at [0xc3, 5, 0xff] 0 (0xc3 # hdr_bytes 5 @ [0xff]) \<and> length_encoding 0xff = RDB_LEN_ERR
   \<and> decode_buf [0xc3, 5, 0xff] 0 RdbLength_zero = Some (1, RdbLength_zero\<lparr>l_is_lzf := True, l_len := 5, l_zlen := 5\<rparr>)"
proof -
  have "hdr_bytes 5 = [5]" "bytes_at [0xc3, 5, 0xff] 0 (0xc3 # hdr_bytes 5 @ [0xff])"
    "length_encoding 0xff = RDB_LEN_ERR"
    by code_simp+
  then show ?thesis
    using lzf_bad_second_length [of "[0xc3, 5, 0xff]" 0 5 "0xff"] by simp
qed

end
