(* ===== verification/Rdb_Crc.thy ===== *)
theory Rdb_Crc
  imports Rdb_Int
begin

text \<open>
  The checksum of a dump, \<open>jones_crc64\<close> (\<open>src/rdb_decode.cpp\<close>): the table generator, the
  slice-by-8 loop on a little-endian machine, and the bit-serial definition they implement. The
  table is static data that the first call fills, so it is an argument and a result. The address of
  the data decides how the loops share the work and is an argument too.
\<close>

section \<open>Table generation\<close>

definition POLY :: u64 where
  "POLY = 0xad93d23594c935a9"

text \<open>The loop over the bits of \<open>n\<close>, the mask \<open>i\<close> doubling until it wraps to zero.\<close>

function crc_bits :: "u8 \<Rightarrow> u8 \<Rightarrow> u64 \<Rightarrow> u64" where
  "crc_bits n i crc =
     (if i \<noteq> 0 then
        let k = (crc AND 0x8000000000000000 \<noteq> 0);
            k' = (if n AND i \<noteq> 0 then \<not> k else k);
            crc1 = push_bit 1 crc
        in crc_bits n (push_bit 1 i) (if k' then crc1 XOR POLY else crc1)
      else crc)"
  by pat_completeness auto

lemma push_bit_Least:
  assumes "(i :: u8) \<noteq> 0"
  shows "(LEAST k. push_bit k (push_bit 1 i) = 0) < (LEAST k. push_bit k i = 0)"
proof -
  have "push_bit 8 i = 0" by (rule bit_word_eqI) (simp add: bit_simps)
  with assms have "(LEAST k. push_bit k i = 0) = Suc (LEAST k. push_bit (Suc k) i = 0)"
    by (intro Least_Suc [where n = 8]) simp_all
  then show ?thesis by (simp add: push_bit_Suc)
qed

termination crc_bits
  by (relation "measure (\<lambda>(n, i, crc). LEAST k. push_bit k i = 0)") (use push_bit_Least in auto)

declare crc_bits.simps [simp del]

text \<open>The loop that reverses the bits: \<open>k\<close> more iterations on \<open>val\<close> and \<open>crc\<close>.\<close>

fun crc_reverse :: "nat \<Rightarrow> u64 \<Rightarrow> u64 \<Rightarrow> u64" where
  "crc_reverse 0 val crc = val"
| "crc_reverse (Suc k) val crc =
     (let crc1 = drop_bit 1 crc in crc_reverse k (push_bit 1 val OR (crc1 AND 1)) crc1)"

text \<open>One entry of the first row, and the entries of the other rows behind it.\<close>

definition crc_single :: "u8 \<Rightarrow> u64" where
  "crc_single n = (let crc = crc_bits n 1 0 in crc_reverse 63 (crc AND 1) crc)"

fun crc_chain :: "u64 list \<Rightarrow> nat \<Rightarrow> u64 \<Rightarrow> u64 list" where
  "crc_chain tab0 0 crc = []"
| "crc_chain tab0 (Suc k) crc =
     (let crc1 = tab0 ! unat (crc AND 0xff) XOR drop_bit 8 crc in crc1 # crc_chain tab0 k crc1)"

text \<open>\<open>tab[ k ][ n ]\<close> is \<open>jones_crc64_init ! k ! n\<close>.\<close>

definition jones_crc64_init :: "u64 list list" where
  "jones_crc64_init = (
     let tab0 = map (\<lambda>n. crc_single (word_of_nat n)) [0..<256];
         nested = map (\<lambda>n. tab0 ! n # crc_chain tab0 7 (tab0 ! n)) [0..<256]
     in map (\<lambda>k. map (\<lambda>n. nested ! n ! k) [0..<256]) [0..<8])"

definition jones_tab_zero :: "u64 list list" where
  "jones_tab_zero = replicate 8 (replicate 256 0)"

section \<open>The checksum\<close>

definition crc_byte :: "u64 list list \<Rightarrow> u64 \<Rightarrow> u8 \<Rightarrow> u64" where
  "crc_byte tab crc b = tab ! 0 ! unat ((crc XOR ucast b) AND 0xff) XOR drop_bit 8 crc"

text \<open>The first loop: single bytes until the address is a multiple of eight.\<close>

fun crc_align :: "u64 list list \<Rightarrow> u64 \<Rightarrow> u64 \<Rightarrow> u8 list \<Rightarrow> u64 \<times> u8 list" where
  "crc_align tab addr crc [] = (crc, [])"
| "crc_align tab addr crc (b # bs) =
     (if addr AND 7 \<noteq> 0 then crc_align tab (addr + 1) (crc_byte tab crc b) bs else (crc, b # bs))"

definition crc_word :: "u64 list list \<Rightarrow> u64 \<Rightarrow> u64" where
  "crc_word tab crc =
     tab ! 7 ! unat (crc AND 0xff) XOR
     tab ! 6 ! unat (drop_bit 8 crc AND 0xff) XOR
     tab ! 5 ! unat (drop_bit 16 crc AND 0xff) XOR
     tab ! 4 ! unat (drop_bit 24 crc AND 0xff) XOR
     tab ! 3 ! unat (drop_bit 32 crc AND 0xff) XOR
     tab ! 2 ! unat (drop_bit 40 crc AND 0xff) XOR
     tab ! 1 ! unat (drop_bit 48 crc AND 0xff) XOR
     tab ! 0 ! unat (drop_bit 56 crc)"

text \<open>The second loop: eight bytes at a time.\<close>

function crc_middle :: "u64 list list \<Rightarrow> u64 \<Rightarrow> u8 list \<Rightarrow> u64 \<times> u8 list" where
  "crc_middle tab crc bs =
     (if length bs \<ge> 8 then crc_middle tab (crc_word tab (crc XOR mem_load (take 8 bs))) (drop 8 bs)
      else (crc, bs))"
  by pat_completeness auto
termination by (relation "measure (\<lambda>(tab, crc, bs). length bs)") auto

declare crc_middle.simps [simp del]

text \<open>The third loop: the rest.\<close>

fun crc_tail :: "u64 list list \<Rightarrow> u64 \<Rightarrow> u8 list \<Rightarrow> u64" where
  "crc_tail tab crc [] = crc"
| "crc_tail tab crc (b # bs) = crc_tail tab (crc_byte tab crc b) bs"

definition jones_crc64 :: "u64 list list \<Rightarrow> u64 \<Rightarrow> u64 \<Rightarrow> u8 list \<Rightarrow> u64 \<times> u64 list list" where
  "jones_crc64 tab0 addr crc bs = (
     let tab = (if tab0 ! 7 ! 255 = 0 then jones_crc64_init else tab0);
         (crc1, bs1) = crc_align tab addr crc bs;
         (crc2, bs2) = crc_middle tab crc1 bs1
     in (crc_tail tab crc2 bs2, tab))"

section \<open>The bit-serial definition\<close>

text \<open>One bit: shift right, and add the reflected polynomial when a one falls out.\<close>

definition crc_poly :: u64 where
  "crc_poly = 0x95ac9329ac4bc9b5"

definition crc_shift :: "u64 \<Rightarrow> u64" where
  "crc_shift c = drop_bit 1 c XOR (if bit c 0 then crc_poly else 0)"

definition crc_ref :: "u64 \<Rightarrow> u8 list \<Rightarrow> u64" where
  "crc_ref = foldl (\<lambda>c b. (crc_shift ^^ 8) (c XOR ucast b))"

section \<open>Functions that respect exclusive or\<close>

locale xor_linear =
  fixes f :: "u64 \<Rightarrow> u64"
  assumes f_xor: "f (x XOR y) = f x XOR f y"
begin

lemma f_0: "f 0 = 0"
  using f_xor [of 0 0] by simp

lemma funpow_xor: "(f ^^ n) (x XOR y) = (f ^^ n) x XOR (f ^^ n) y"
  by (induction n arbitrary: x y) (simp_all add: f_xor)

lemma funpow_0: "(f ^^ n) 0 = 0"
  by (induction n) (simp_all add: f_0)

text \<open>A function with a trivial kernel is injective, and so are its powers.\<close>

lemma funpow_inj:
  assumes "\<And>x. f x = 0 \<Longrightarrow> x = 0" "(f ^^ n) x = (f ^^ n) y"
  shows "x = y"
proof -
  have "(f ^^ n) z = 0 \<Longrightarrow> z = 0" for z
    by (induction n arbitrary: z) (auto dest: assms(1))
  moreover have "(f ^^ n) (x XOR y) = 0" using assms(2) by (simp add: funpow_xor)
  ultimately have 0: "x XOR y = 0" by blast
  have "x = (x XOR y) XOR y" by (simp only: xor.assoc xor_self_eq xor.right_neutral)
  also have "\<dots> = y" by (simp only: 0 xor.left_neutral)
  finally show ?thesis .
qed

end

interpretation crc_shift: xor_linear crc_shift
  by unfold_locales (rule bit_word_eqI, auto simp: crc_shift_def bit_simps)

lemma crc_shift_kernel: "crc_shift x = 0 \<Longrightarrow> x = 0"
proof -
  assume z: "crc_shift x = 0"
  have "bit crc_poly 63" by (simp add: crc_poly_def)
  moreover have "\<not> bit (crc_shift x) 63" by (simp add: z)
  ultimately have "\<not> bit x 0"
    by (auto simp: crc_shift_def bit_simps dest: bit_imp_le_length split: if_splits)
  moreover from this have "drop_bit 1 x = 0" using z by (simp add: crc_shift_def)
  then have "bit x (Suc n) = False" for n
    using bit_drop_bit_eq [of 1 x] by (metis One_nat_def bit_0_eq bot_fun_def bot_bool_def comp_apply plus_1_eq_Suc)
  ultimately show ?thesis by (intro bit_word_eqI) (metis bit_0_eq bot_fun_def bot_bool_def not0_implies_Suc)
qed

lemma bit_word_funpow_high:
  "take_bit k c = 0 \<Longrightarrow> (crc_shift ^^ k) c = drop_bit k c"
proof (induction k arbitrary: c)
  case (Suc k)
  have b0: "\<not> bit c 0"
    using Suc.prems bit_take_bit_iff [of "Suc k" c 0] by simp
  then have s: "crc_shift c = drop_bit 1 c" by (simp add: crc_shift_def)
  have "take_bit k (drop_bit 1 c) = 0"
  proof (rule bit_word_eqI)
    fix n
    show "bit (take_bit k (drop_bit 1 c)) n = bit 0 n"
      using Suc.prems bit_take_bit_iff [of "Suc k" c "Suc n"] by (simp add: bit_simps)
  qed
  from Suc.IH [OF this] show ?case
    by (simp add: funpow_swap1 s)
qed simp

lemma crc_shift_8: "(crc_shift ^^ 8) c = (crc_shift ^^ 8) (c AND 0xff) XOR drop_bit 8 c"
proof -
  have c: "c = (c AND 0xff) XOR push_bit 8 (drop_bit 8 c)"
    by (rule bit_word_eqI) (auto simp: and_masks bit_simps)
  have "take_bit 8 (push_bit 8 (drop_bit 8 c)) = (0 :: u64)"
    by (rule bit_word_eqI) (auto simp: bit_simps)
  from bit_word_funpow_high [OF this]
  have "(crc_shift ^^ 8) (push_bit 8 (drop_bit 8 c)) = drop_bit 8 c"
    by (auto simp: bit_eq_iff bit_simps dest: bit_imp_le_length)
  then show ?thesis by (metis c crc_shift.funpow_xor)
qed

lemma crc_shift_inj: "(crc_shift ^^ n) x = (crc_shift ^^ n) y \<Longrightarrow> x = y"
  by (rule crc_shift.funpow_inj) (auto dest: crc_shift_kernel)

lemma crc_shift_unfold_8:
  "(crc_shift ^^ 8) c = crc_shift (crc_shift (crc_shift (crc_shift (crc_shift (crc_shift (crc_shift (crc_shift c)))))))"
  by (simp add: eval_nat_numeral)

section \<open>The table holds the bit-serial values\<close>

lemma crc_reverse_bits:
  "m + k \<le> 63 \<Longrightarrow> (\<And>j. bit val j \<longleftrightarrow> j \<le> m \<and> bit crc0 (m - j)) \<Longrightarrow>
     bit (crc_reverse k val (drop_bit m crc0)) j \<longleftrightarrow> j \<le> m + k \<and> bit crc0 (m + k - j)"
proof (induction k arbitrary: m val)
  case (Suc k)
  have "bit (push_bit 1 val OR (drop_bit (Suc m) crc0 AND 1)) j \<longleftrightarrow> j \<le> Suc m \<and> bit crc0 (Suc m - j)" for j
    using Suc.prems(1) by (cases j) (auto simp: bit_simps Suc.prems(2) simp del: push_bit_Suc dest: bit_imp_le_length)
  from Suc.IH [OF _ this] Suc.prems(1) show ?case by (simp add: Let_def)
qed simp

lemma crc_reverse_word: "crc_reverse 63 (crc AND 1) crc = word_reverse crc"
proof (rule bit_word_eqI)
  fix n assume "n < LENGTH(64)"
  have "bit (crc AND 1) j \<longleftrightarrow> j \<le> 0 \<and> bit crc (0 - j)" for j by (auto simp: bit_simps)
  from crc_reverse_bits [of 0 63 "crc AND 1" crc n, OF _ this] \<open>n < LENGTH(64)\<close>
  show "bit (crc_reverse 63 (crc AND 1) crc) n = bit (word_reverse crc) n"
    by (simp add: bit_simps)
qed

definition crc_gen :: "bool \<Rightarrow> u64 \<Rightarrow> u64" where
  "crc_gen b c = push_bit 1 c XOR (if bit c 63 \<noteq> b then POLY else 0)"

lemma POLY_reverse: "word_reverse POLY = crc_poly"
  by code_simp

lemma crc_gen_reverse:
  "crc_shift (word_reverse c XOR x) = word_reverse (crc_gen (bit x 0) c) XOR drop_bit 1 x"
proof -
  have "word_reverse (crc_gen b c) = drop_bit 1 (word_reverse c) XOR (if bit c 63 \<noteq> b then crc_poly else 0)" for b
  proof (rule bit_word_eqI)
    fix n assume n: "n < LENGTH(64)"
    have "bit crc_poly n \<longleftrightarrow> bit POLY (63 - n)"
      using n by (simp add: bit_simps flip: POLY_reverse)
    then show "bit (word_reverse (crc_gen b c)) n = bit (drop_bit 1 (word_reverse c) XOR (if bit c 63 \<noteq> b then crc_poly else 0)) n"
      using n by (cases "n = 63") (auto simp: crc_gen_def bit_simps Suc_diff_Suc numeral_eq_Suc simp del: push_bit_Suc)
  qed
  moreover have "crc_shift (word_reverse c XOR x) = drop_bit 1 (word_reverse c) XOR drop_bit 1 x
      XOR (if bit c 63 \<noteq> bit x 0 then crc_poly else 0)"
    by (simp add: crc_shift_def bit_simps xor.assoc)
  ultimately show ?thesis by (auto simp: bit_eq_iff bit_xor_iff)
qed

lemma crc_bits_gen:
  "crc_bits n i crc = (if i \<noteq> 0 then crc_bits n (push_bit 1 i) (crc_gen (n AND i \<noteq> 0) crc) else crc)"
proof -
  have "crc AND 0x8000000000000000 \<noteq> 0 \<longleftrightarrow> bit crc 63"
    using and_exp_eq_0_iff_not_bit [of crc 63] by simp
  then show ?thesis
    by (subst crc_bits.simps) (simp add: crc_gen_def Let_def)
qed

lemma crc_single_ref: "crc_single n = (crc_shift ^^ 8) (ucast n)"
proof -
  define x where "x = (ucast n :: u64)"
  have bits: "bit (drop_bit j x) 0 \<longleftrightarrow> n AND 2 ^ j \<noteq> 0" if "j < 8" for j
    using and_exp_eq_0_iff_not_bit [of n j] that by (simp add: x_def bit_simps)
  define g where "g j = crc_gen (n AND 2 ^ j \<noteq> 0)" for j :: nat
  have step: "crc_shift (word_reverse c XOR drop_bit j x) = word_reverse (g j c) XOR drop_bit (Suc j) x" if "j < 8" for j c
    using crc_gen_reverse [of c "drop_bit j x"] bits [OF that] by (simp add: g_def)
  have fold: "j \<le> 8 \<Longrightarrow> (crc_shift ^^ j) (word_reverse 0 XOR x) = word_reverse (fold g [0..<j] 0) XOR drop_bit j x" for j
    by (induction j) (simp_all add: step)
  have "crc_bits n 1 0 = fold g [0..<8] 0"
    by (simp add: crc_bits_gen g_def upt_rec)
  moreover note fold [of 8]
  moreover have "drop_bit 8 x = 0"
    by (rule bit_word_eqI) (auto simp: x_def bit_simps)
  moreover have "word_reverse (0 :: u64) = 0" by (rule bit_word_eqI) (simp add: bit_simps)
  ultimately show ?thesis by (simp add: crc_single_def Let_def crc_reverse_word x_def)
qed

lemma unat_low_byte: "unat (x AND 0xff :: u64) = unat (ucast x :: u8)"
  by (simp only: and_masks unat_and_mask) (simp add: unat_ucast_u8)

lemma ucast_low_byte: "ucast (ucast x :: u8) = (x AND 0xff :: u64)"
  by (rule bit_word_eqI) (auto simp: and_masks bit_simps)

lemma crc_row_step:
  assumes "\<And>n :: u8. tab0 ! unat n = (crc_shift ^^ 8) (ucast n)"
  shows "tab0 ! unat (c AND 0xff) XOR drop_bit 8 c = (crc_shift ^^ 8) c"
  unfolding unat_low_byte assms ucast_low_byte by (rule crc_shift_8 [symmetric])

lemma crc_chain_ref:
  assumes "\<And>n :: u8. tab0 ! unat n = (crc_shift ^^ 8) (ucast n)"
  shows "j < k \<Longrightarrow> crc_chain tab0 k c ! j = (crc_shift ^^ (8 * (j + 1))) c"
proof (induction k arbitrary: c j)
  case (Suc k)
  show ?case
  proof (cases j)
    case 0
    then show ?thesis by (simp add: crc_row_step [OF assms] Let_def)
  next
    case (Suc i)
    have "8 * (i + 1) + 8 = 8 * (Suc i + 1)" by simp
    then show ?thesis
      using Suc.IH [of i "(crc_shift ^^ 8) c"] Suc.prems \<open>j = Suc i\<close>
      by (simp add: crc_row_step [OF assms] Let_def funpow_add [of _ 8, symmetric, THEN fun_cong, unfolded comp_apply])
  qed
qed simp

lemma length_crc_chain [simp]: "length (crc_chain tab0 k c) = k"
  by (induction k arbitrary: c) (simp_all add: Let_def)

lemma jones_tab_ref: "k < 8 \<Longrightarrow> jones_crc64_init ! k ! unat n = (crc_shift ^^ (8 * (k + 1))) (ucast (n :: u8))"
proof -
  assume k: "k < 8"
  let ?t = "map (\<lambda>n. crc_single (word_of_nat n)) [0..<256]"
  have t: "?t ! unat m = (crc_shift ^^ 8) (ucast m)" for m :: u8
    using unat_lt_256 [of m] by (simp add: crc_single_ref)
  have "jones_crc64_init ! k ! unat n = (?t ! unat n # crc_chain ?t 7 (?t ! unat n)) ! k"
    using k unat_lt_256 [of n] by (simp add: jones_crc64_init_def Let_def del: upt_conv_Cons)
  also have "\<dots> = (crc_shift ^^ (8 * (k + 1))) (ucast n)"
  proof (cases k)
    case 0
    then show ?thesis by (simp only: nth_Cons_0 t) simp
  next
    case (Suc j)
    have "(?t ! unat n # crc_chain ?t 7 (?t ! unat n)) ! k = (crc_shift ^^ (8 * (j + 1))) (?t ! unat n)"
      using k Suc crc_chain_ref [OF t, of j 7] by simp
    also have "\<dots> = (crc_shift ^^ (8 * (j + 1) + 8)) (ucast n)"
      by (simp only: t funpow_add comp_apply)
    finally show ?thesis using Suc by (simp add: add.commute)
  qed
  finally show ?thesis .
qed

lemma crc_byte_ref: "crc_byte jones_crc64_init c b = (crc_shift ^^ 8) (c XOR ucast b)"
proof -
  have t: "jones_crc64_init ! 0 ! unat n = (crc_shift ^^ 8) (ucast n)" for n :: u8
    using jones_tab_ref [of 0 n] by simp
  have "drop_bit 8 c = drop_bit 8 (c XOR ucast b)"
    by (rule bit_word_eqI) (auto simp: bit_simps)
  then show ?thesis
    by (simp only: crc_byte_def crc_row_step [OF t])
qed

section \<open>The loops compute the bit-serial checksum\<close>

lemma crc_ref_simps [simp]:
  "crc_ref c [] = c" "crc_ref c (b # bs) = crc_ref ((crc_shift ^^ 8) (c XOR ucast b)) bs"
  by (simp_all add: crc_ref_def)

lemma crc_ref_append: "crc_ref c (xs @ ys) = crc_ref (crc_ref c xs) ys"
  by (simp add: crc_ref_def)

lemma crc_align_ref:
  "crc_align jones_crc64_init addr c bs = (c', bs') \<Longrightarrow> crc_ref c bs = crc_ref c' bs'"
  by (induction jones_crc64_init addr c bs rule: crc_align.induct) (auto simp: crc_byte_ref split: if_splits)

lemma crc_tail_ref: "crc_tail jones_crc64_init c bs = crc_ref c bs"
  by (induction bs arbitrary: c) (simp_all add: crc_byte_ref)

text \<open>Eight bytes: their checksum is that of one word that holds them.\<close>

lemma crc_ref_word:
  "length bs \<le> 8 \<Longrightarrow> crc_ref c bs = (crc_shift ^^ (8 * length bs)) (c XOR mem_load bs)"
proof (induction bs arbitrary: c)
  case (Cons b bs)
  let ?m = "mem_load bs :: u64"
  have len: "length bs \<le> 7" using Cons.prems by simp
  have "take_bit 8 (push_bit 8 ?m) = 0" by (rule bit_word_eqI) (auto simp: bit_simps)
  then have hi: "(crc_shift ^^ 8) (push_bit 8 ?m) = drop_bit 8 (push_bit 8 ?m)" by (rule bit_word_funpow_high)
  have "nat_of_le bs < 2 ^ 56"
    using nat_of_le_bound [of bs] power_increasing [of "length bs" 7 "256 :: nat"] len by simp
  then have small: "unat ?m < 2 ^ 56"
    by (simp add: mem_load_def unat_of_nat)
  have "drop_bit 8 (push_bit 8 ?m) = ?m"
  proof (rule bit_word_eqI)
    fix n assume "n < LENGTH(64)"
    have "take_bit 56 ?m = ?m"
      using small and_mask_id [of ?m 56] by (simp add: take_bit_eq_mask)
    then have "bit ?m n \<Longrightarrow> n < 56" by (metis bit_take_bit_iff)
    then show "bit (drop_bit 8 (push_bit 8 ?m)) n = bit ?m n"
      using \<open>n < LENGTH(64)\<close> by (auto simp: bit_simps)
  qed
  then have "(crc_shift ^^ 8) (c XOR ucast b) XOR ?m = (crc_shift ^^ 8) (c XOR ucast b XOR push_bit 8 ?m)"
    using hi by (simp add: crc_shift.funpow_xor xor.assoc)
  moreover have "ucast b XOR push_bit 8 ?m = (mem_load (b # bs) :: u64)"
    by (simp only: mem_load_Cons) (rule bit_word_eqI, auto simp: bit_simps)
  moreover have "(crc_shift ^^ (8 * length (b # bs))) y = (crc_shift ^^ (8 * length bs)) ((crc_shift ^^ 8) y)" for y
    by (simp only: length_Cons mult_Suc_right add.commute [of 8] funpow_add comp_apply)
  ultimately show ?case
    using Cons.IH [of "(crc_shift ^^ 8) (c XOR ucast b)"] len
    by (simp add: xor.assoc)
qed (simp add: mem_load_Nil)

lemma byte_bits: "bit (drop_bit k (c :: u64) AND 0xff) n \<longleftrightarrow> n < 8 \<and> bit c (k + n)"
  by (auto simp: and_masks bit_simps dest: bit_imp_le_length)

lemma crc_byte_at: "(crc_shift ^^ (8 * (k + 1))) (ucast (ucast (drop_bit (8 * j) c) :: u8))
    = (crc_shift ^^ (8 * (k + 1 + j))) (push_bit (8 * j) (drop_bit (8 * j) c AND 0xff))" if "j \<le> 7"
proof -
  let ?y = "drop_bit (8 * j) c AND 0xff"
  have "take_bit (8 * j) (push_bit (8 * j) ?y) = 0" by (rule bit_word_eqI) (auto simp: bit_simps)
  from bit_word_funpow_high [OF this]
  have "(crc_shift ^^ (8 * j)) (push_bit (8 * j) ?y) = drop_bit (8 * j) (push_bit (8 * j) ?y)" .
  also have "\<dots> = ?y"
    by (rule bit_word_eqI) (use that in \<open>simp only: bit_drop_bit_eq comp_apply bit_push_bit_iff byte_bits, auto\<close>)
  finally have "(crc_shift ^^ (8 * (k + 1) + 8 * j)) (push_bit (8 * j) ?y) = (crc_shift ^^ (8 * (k + 1))) ?y"
    by (simp only: funpow_add comp_apply)
  then show ?thesis by (simp only: ucast_low_byte distrib_left)
qed

lemma word_bytes_xor:
  "(c :: u64) = push_bit (8 * 0) (drop_bit (8 * 0) c AND 0xff) XOR push_bit (8 * 1) (drop_bit (8 * 1) c AND 0xff) XOR
     push_bit (8 * 2) (drop_bit (8 * 2) c AND 0xff) XOR push_bit (8 * 3) (drop_bit (8 * 3) c AND 0xff) XOR
     push_bit (8 * 4) (drop_bit (8 * 4) c AND 0xff) XOR push_bit (8 * 5) (drop_bit (8 * 5) c AND 0xff) XOR
     push_bit (8 * 6) (drop_bit (8 * 6) c AND 0xff) XOR push_bit (8 * 7) (drop_bit (8 * 7) c AND 0xff)"
proof (rule bit_word_eqI, goal_cases)
  case (1 n)
  have b: "bit (push_bit (8 * k) (drop_bit (8 * k) c AND 0xff)) n \<longleftrightarrow> n div 8 = k \<and> bit c n" if "k < 8" for k
    using 1 that by (simp only: bit_push_bit_iff byte_bits) auto
  have lt: "(0 :: nat) < 8" "(1 :: nat) < 8" "(2 :: nat) < 8" "(3 :: nat) < 8" "(4 :: nat) < 8" "(5 :: nat) < 8"
    "(6 :: nat) < 8" "(7 :: nat) < 8" by simp_all
  define q where "q = n div 8"
  have "q < 8" using 1 by (simp add: q_def)
  then consider "q = 0" | "q = 1" | "q = 2" | "q = 3" | "q = 4" | "q = 5" | "q = 6" | "q = 7" by linarith
  then show ?case
    unfolding bit_xor_iff b [OF lt(1)] b [OF lt(2)] b [OF lt(3)] b [OF lt(4)] b [OF lt(5)] b [OF lt(6)] b [OF lt(7)]
      b [OF lt(8)] q_def [symmetric]
    by cases simp_all
qed

lemma crc_word_ref: "crc_word jones_crc64_init c = (crc_shift ^^ 64) c"
proof -
  have t: "jones_crc64_init ! k ! unat (drop_bit (8 * j) c AND 0xff)
      = (crc_shift ^^ 64) (push_bit (8 * j) (drop_bit (8 * j) c AND 0xff))" if "k + 1 + j = 8" for j k
    using that crc_byte_at [of j k c] jones_tab_ref [of k "ucast (drop_bit (8 * j) c)"]
    by (simp only: unat_low_byte) simp
  have top: "drop_bit 56 c = drop_bit (8 * 7) c AND 0xff"
    by (rule bit_word_eqI, simp only: byte_bits bit_drop_bit_eq comp_apply) (auto dest: bit_imp_le_length)
  have "crc_word jones_crc64_init c =
     jones_crc64_init ! 7 ! unat (drop_bit (8 * 0) c AND 0xff) XOR jones_crc64_init ! 6 ! unat (drop_bit (8 * 1) c AND 0xff) XOR
     jones_crc64_init ! 5 ! unat (drop_bit (8 * 2) c AND 0xff) XOR jones_crc64_init ! 4 ! unat (drop_bit (8 * 3) c AND 0xff) XOR
     jones_crc64_init ! 3 ! unat (drop_bit (8 * 4) c AND 0xff) XOR jones_crc64_init ! 2 ! unat (drop_bit (8 * 5) c AND 0xff) XOR
     jones_crc64_init ! 1 ! unat (drop_bit (8 * 6) c AND 0xff) XOR jones_crc64_init ! 0 ! unat (drop_bit (8 * 7) c AND 0xff)"
    unfolding crc_word_def top by simp
  also have "\<dots> = (crc_shift ^^ 64) c"
    by (subst word_bytes_xor [of c], simp only: crc_shift.funpow_xor,
        subst t, simp, subst t, simp, subst t, simp, subst t, simp, subst t, simp, subst t, simp, subst t, simp, subst t, simp, rule refl)
  finally show ?thesis .
qed

lemma crc_middle_ref:
  "crc_middle jones_crc64_init c bs = (c', bs') \<Longrightarrow> crc_ref c bs = crc_ref c' bs'"
proof (induction jones_crc64_init c bs rule: crc_middle.induct)
  case (1 c bs)
  show ?case
  proof (cases "8 \<le> length bs")
    case True
    have "crc_ref c bs = crc_ref (crc_ref c (take 8 bs)) (drop 8 bs)"
      using crc_ref_append [of c "take 8 bs" "drop 8 bs"] by simp
    also have "crc_ref c (take 8 bs) = crc_word jones_crc64_init (c XOR mem_load (take 8 bs))"
      using True crc_ref_word [of "take 8 bs" c] by (simp add: crc_word_ref min_def)
    finally show ?thesis
      using 1 True by (simp add: crc_middle.simps [of _ c bs])
  next
    case False
    with 1 show ?thesis by (simp add: crc_middle.simps [of _ c bs])
  qed
qed

lemma jones_crc64_value:
  assumes "tab = jones_tab_zero \<or> tab = jones_crc64_init"
  shows "jones_crc64 tab addr c bs = (crc_ref c bs, jones_crc64_init)"
proof -
  obtain c1 bs1 where 1: "crc_align jones_crc64_init addr c bs = (c1, bs1)" by fastforce
  obtain c2 bs2 where 2: "crc_middle jones_crc64_init c1 bs1 = (c2, bs2)" by fastforce
  have "jones_tab_zero ! 7 ! 255 = 0" by (simp add: jones_tab_zero_def)
  then have "(if tab ! 7 ! 255 = 0 then jones_crc64_init else tab) = jones_crc64_init" using assms by auto
  then show ?thesis
    using crc_align_ref [OF 1] crc_middle_ref [OF 2]
    by (simp add: jones_crc64_def Let_def 1 2 crc_tail_ref)
qed

lemma crc_ref_inj: "crc_ref c bs = crc_ref d bs \<Longrightarrow> c = d"
proof (induction bs arbitrary: c d)
  case (Cons b bs)
  then have "(crc_shift ^^ 8) (c XOR ucast b) = (crc_shift ^^ 8) (d XOR ucast b)" by simp
  then have "c XOR ucast b = d XOR ucast b" by (rule crc_shift_inj)
  then have "(c XOR ucast b) XOR ucast b = (d XOR ucast b) XOR ucast b" by simp
  then show ?case by (simp only: xor.assoc xor_self_eq xor.right_neutral)
qed simp

lemma mem_load_short_inj:
  "length xs = length ys \<Longrightarrow> length xs \<le> 8 \<Longrightarrow> mem_load xs = (mem_load ys :: u64) \<Longrightarrow> xs = ys"
proof -
  assume len: "length xs = length ys" "length xs \<le> 8" and eq: "mem_load xs = (mem_load ys :: u64)"
  have lt: "nat_of_le zs < 2 ^ 64" if "length zs \<le> 8" for zs
    using nat_of_le_bound [of zs] power_increasing [of "length zs" 8 "256 :: nat"] that by simp
  have "unat (mem_load zs :: u64) = nat_of_le zs" if "length zs \<le> 8" for zs
    using lt [OF that] by (simp add: mem_load_def unat_of_nat)
  then have "nat_of_le xs = nat_of_le ys" using len eq by metis
  with len(1) show ?thesis by (rule nat_of_le_inj)
qed

lemma crc_ref_burst:
  assumes "length v = length w" "length v \<le> 8" "v \<noteq> w"
  shows "crc_ref crc (xs @ v @ ys) \<noteq> crc_ref crc (xs @ w @ ys)"
proof
  assume "crc_ref crc (xs @ v @ ys) = crc_ref crc (xs @ w @ ys)"
  then have "crc_ref (crc_ref crc xs) v = crc_ref (crc_ref crc xs) w"
    by (auto simp: crc_ref_append dest: crc_ref_inj)
  then have "(crc_shift ^^ (8 * length v)) (crc_ref crc xs XOR mem_load v) = (crc_shift ^^ (8 * length v)) (crc_ref crc xs XOR mem_load w)"
    using assms(1,2) by (simp add: crc_ref_word)
  then have "crc_ref crc xs XOR mem_load v = crc_ref crc xs XOR mem_load w"
    by (rule crc_shift_inj)
  then have "crc_ref crc xs XOR (crc_ref crc xs XOR mem_load v) = crc_ref crc xs XOR (crc_ref crc xs XOR mem_load w)" by simp
  then have "mem_load v = (mem_load w :: u64)"
    by (simp only: xor.assoc [symmetric] xor_self_eq xor.left_neutral)
  with assms show False using mem_load_short_inj by blast
qed

section \<open>Properties\<close>

text \<open>C16: The optimised checksum is the bit-serial one. Whatever the address of the data, hence however the
  three loops share the bytes, and whether this is the first call or a later one, \<open>jones_crc64\<close>
  returns the checksum defined one bit at a time with the reflected Jones polynomial, and leaves
  the filled table.\<close>

theorem crc_equals_reference:
  assumes "tab = jones_tab_zero \<or> tab = jones_crc64_init"
  shows "jones_crc64 tab addr crc bs = (crc_ref crc bs, jones_crc64_init)"
  by (rule jones_crc64_value [OF assms])

theorem crc_equals_reference_witness:
  "(jones_tab_zero = jones_tab_zero \<or> jones_tab_zero = jones_crc64_init) \<and> fst (jones_crc64 jones_tab_zero 3 0 [0x31]) = crc_ref 0 [0x31]"
  using crc_equals_reference [of jones_tab_zero 3 0 "[0x31]"] by simp

text \<open>The check value of the source's own test: the nine bytes of "123456789" give
  \<open>e9c6d914c4b8d9ca\<close> from the initial value 0, at every address.\<close>

theorem crc_check_value:
  "jones_crc64 jones_tab_zero addr 0 [0x31, 0x32, 0x33, 0x34, 0x35, 0x36, 0x37, 0x38, 0x39]
     = (0xe9c6d914c4b8d9ca, jones_crc64_init)"
proof -
  have "crc_ref 0 [0x31, 0x32, 0x33, 0x34, 0x35, 0x36, 0x37, 0x38, 0x39] = 0xe9c6d914c4b8d9ca"
    by (simp add: crc_shift_unfold_8 crc_shift_def crc_poly_def)
  then show ?thesis by (simp add: jones_crc64_value)
qed

text \<open>C17: Checksums are incremental: continuing with the checksum of a first part over a second part is the
  checksum of the whole, at any three addresses.\<close>

theorem crc_incremental:
  "fst (jones_crc64 jones_crc64_init addr2 (fst (jones_crc64 jones_tab_zero addr1 crc xs)) ys)
     = fst (jones_crc64 jones_tab_zero addr3 crc (xs @ ys))"
  by (simp add: jones_crc64_value crc_ref_append)

text \<open>C18: Any change confined to eight consecutive bytes is detected: two inputs that agree outside a window of
  at most eight bytes and differ in it have different checksums.\<close>

theorem crc_detects_burst:
  assumes "length v = length w" "length v \<le> 8" "v \<noteq> w"
  shows "fst (jones_crc64 jones_tab_zero addr crc (xs @ v @ ys)) \<noteq> fst (jones_crc64 jones_tab_zero addr crc (xs @ w @ ys))"
  using assms by (simp add: jones_crc64_value crc_ref_burst)

theorem crc_detects_burst_witness:
  "length [1 :: u8, 2] = length [1 :: u8, 3] \<and> [1 :: u8, 2] \<noteq> [1, 3] \<and>
     fst (jones_crc64 jones_tab_zero 0 0 ([9] @ [1, 2] @ [7])) \<noteq> fst (jones_crc64 jones_tab_zero 0 0 ([9] @ [1, 3] @ [7]))"
  using crc_detects_burst [of "[1, 2]" "[1, 3]" 0 0 "[9]" "[7]"] by simp

text \<open>The table is filled once: its last entry, which the first statement of \<open>jones_crc64\<close> tests, is not
  zero after the generator ran.\<close>

theorem crc_table_filled_once:
  "jones_crc64_init ! 7 ! 255 \<noteq> 0 \<and> jones_tab_zero ! 7 ! 255 = 0"
proof -
  have "jones_crc64_init ! 7 ! 255 = (crc_shift ^^ 64) 255"
    using jones_tab_ref [of 7 255] by simp
  moreover have "(crc_shift ^^ 64) 255 \<noteq> 0"
    using crc_shift_inj [of 64 255 0] crc_shift.funpow_0 [of 64] by auto
  ultimately show ?thesis by (simp add: jones_tab_zero_def)
qed

end
