(* ===== verification/Rdb_Cursor.thy ===== *)
theory Rdb_Cursor
  imports Rdb_Int
begin

text \<open>
  What \<open>RdbZipList\<close> and \<open>RdbListPack\<close> share: the element \<open>RdbListValue\<close> their traversal
  fills, and the contract of a traversal. Pointers into the list are indices of its block.
\<close>

record RdbListValue =
  lv_data :: "nat option"
  lv_entry :: nat
  lv_data_len :: nat
  lv_entry_len :: nat
  lv_ival :: u64

text \<open>The loop \<open>for ( ; next( lval ); )\<close> and the elements it visits.\<close>

inductive iterates ::
  "(RdbListValue \<Rightarrow> (bool \<times> RdbListValue) option) \<Rightarrow> RdbListValue \<Rightarrow> RdbListValue list \<Rightarrow> bool" for nxt where
  stop: "nxt lv = Some (False, lv') \<Longrightarrow> iterates nxt lv []"
| step: "nxt lv = Some (True, lv') \<Longrightarrow> iterates nxt lv' lvs \<Longrightarrow> iterates nxt lv (lv' # lvs)"

inductive_cases iterates_NilE: "iterates nxt lv []"
inductive_cases iterates_ConsE: "iterates nxt lv (v # vs)"

lemma iterates_deterministic: "iterates nxt lv xs \<Longrightarrow> iterates nxt lv ys \<Longrightarrow> xs = ys"
proof (induction arbitrary: ys rule: iterates.induct)
  case (stop lv lv')
  from stop.prems stop.hyps show ?case by (auto elim: iterates.cases)
next
  case (step lv lv' lvs)
  from step.prems step.hyps(1) obtain zs where "ys = lv' # zs" "iterates nxt lv' zs"
    by (auto elim: iterates.cases)
  then show ?case using step.IH by blast
qed

text \<open>The position behind an element, where the next one starts.\<close>

definition lv_next_pos :: "RdbListValue \<Rightarrow> nat" where
  "lv_next_pos lv = lv_entry lv + lv_entry_len lv"

text \<open>
  The contract of a traversal of the bytes up to \<open>lim\<close>: when the list header is sound
  (\<open>live\<close>) each step that succeeds moves forward, stays below \<open>lim\<close> and its data lies inside
  the element; when moreover the block holds all the bytes (\<open>safe\<close>) nothing outside is read.
\<close>

locale list_cursor =
  fixes nxt :: "RdbListValue \<Rightarrow> (bool \<times> RdbListValue) option"
    and lim :: nat
    and live :: bool
    and safe :: bool
  assumes nxt_safe: "safe \<Longrightarrow> nxt lv \<noteq> None"
    and nxt_forward: "live \<Longrightarrow> nxt lv = Some (True, lv') \<Longrightarrow>
      lv_next_pos lv < lv_next_pos lv' \<and> lv_next_pos lv' \<le> lim"
    and nxt_data: "live \<Longrightarrow> nxt lv = Some (True, lv') \<Longrightarrow> lv_data lv' = Some d \<Longrightarrow>
      lv_next_pos lv \<le> d \<and> d + lv_data_len lv' \<le> lv_next_pos lv'"
begin

lemma iterates_total:
  assumes live safe
  shows "\<exists>lvs. iterates nxt lv lvs"
proof (induction "Suc lim - lv_next_pos lv" arbitrary: lv rule: less_induct)
  case less
  obtain ok lv' where n: "nxt lv = Some (ok, lv')"
    using nxt_safe [OF assms(2), of lv] by auto
  show ?case
  proof (cases ok)
    case True
    with n have "Suc lim - lv_next_pos lv' < Suc lim - lv_next_pos lv"
      using nxt_forward [OF assms(1), of lv lv'] by auto
    from less [OF this] n True show ?thesis by (auto intro: iterates.step)
  next
    case False
    with n show ?thesis by (auto intro: iterates.stop)
  qed
qed

lemma iterates_bounded: "iterates nxt lv lvs \<Longrightarrow> live \<Longrightarrow> length lvs \<le> lim - lv_next_pos lv"
proof (induction rule: iterates.induct)
  case (step lv lv' lvs)
  with nxt_forward [of lv lv'] show ?case by auto
qed simp

lemma iterates_inside: "iterates nxt lv lvs \<Longrightarrow> live \<Longrightarrow> v \<in> set lvs \<Longrightarrow> lv_next_pos v \<le> lim \<and>
    (\<forall>d. lv_data v = Some d \<longrightarrow> d + lv_data_len v \<le> lim)"
proof (induction rule: iterates.induct)
  case (step lv lv' lvs)
  with nxt_forward [of lv lv'] nxt_data [of lv lv'] show ?case by force
qed simp

end

end
