(* ===== verification/Rdb_Decode.thy ===== *)
theory Rdb_Decode
  imports Rdb_Types Rdb_Len Rdb_Crc Rdb_Cursor
begin

text \<open>
  \<open>RdbDecode\<close> (\<open>include/rdbparser/rdb_decode.h\<close>, \<open>src/rdb_decode.cpp\<close>): the state of the
  decoder, the record header with its meta data, checksum and key (\<open>decode_hdr\<close>), and the
  elements common to all bodies.
\<close>

section \<open>State\<close>

text \<open>
  \<open>out\<close> and \<open>data_out\<close> point to nothing, to the real output or to \<open>null_out\<close>, whose functions
  do nothing. The calls the real output received are in \<open>dec_log\<close>. The buffer pointer that the
  functions get as an argument, the checksum table and the address of the buffer (the checksum
  routine looks at its alignment) are part of the state.
\<close>

datatype out_ptr = NoOut | DataOut | NullOut

record RdbDecode =
  dec_bptr :: RdbBufptr
  dec_out :: out_ptr
  dec_data_out :: out_ptr
  dec_filter :: "(RdbString \<Rightarrow> bool option) option"
  dec_rlen :: RdbLength
  dec_type :: RdbType
  dec_crc :: u64
  dec_key :: RdbString
  dec_key_cnt :: u64
  dec_ver :: u16
  dec_is_rdb_file :: bool
  dec_log :: "RdbString RdbEvent list"
  dec_tab :: "u64 list list"
  dec_addr :: u64

definition RdbDecode_new :: "RdbBufptr \<Rightarrow> RdbDecode" where
  "RdbDecode_new bp = \<lparr>dec_bptr = bp, dec_out = NoOut, dec_data_out = NoOut, dec_filter = None,
     dec_rlen = RdbLength_zero, dec_type = RDB_BAD_TYPE, dec_crc = 0, dec_key = RdbString_new,
     dec_key_cnt = 0, dec_ver = 0, dec_is_rdb_file = False, dec_log = [], dec_tab = jones_tab_zero,
     dec_addr = 0\<rparr>"

text \<open>An operation of the buffer pointer, run on the decoder.\<close>

definition onb :: "(RdbBufptr, 'a) prog \<Rightarrow> (RdbDecode, 'a) prog" where
  "onb = zoom dec_bptr (\<lambda>bp s. s\<lparr>dec_bptr := bp\<rparr>)"

lemma onb_pure: "onb (ret x) = ret x" "onb (throw e) = throw e" "onb (checked v) = checked v" "onb (gets g) = gets (g \<circ> dec_bptr)"
  by (auto simp: onb_def zoom_def ret_def throw_def checked_def gets_def fun_eq_iff split: option.splits)

lemma onb_andThen: "onb (andThen m f) = andThen (onb m) (\<lambda>x. onb (f x))"
  by (auto simp: onb_def zoom_def andThen_def fun_eq_iff split: prod.splits outcome.splits)

lemma onb_if: "onb (if c then m1 else m2) = (if c then onb m1 else onb m2)"
  by simp

lemma onb_option: "onb (case v of None \<Rightarrow> m | Some x \<Rightarrow> f x) = (case v of None \<Rightarrow> onb m | Some x \<Rightarrow> onb (f x))"
  by (simp split: option.split)

lemma onb_prod: "onb (case v of (x, y) \<Rightarrow> f x y) = (case v of (x, y) \<Rightarrow> onb (f x y))"
  by (simp split: prod.split)

lemmas onb_rules = onb_pure onb_andThen onb_if onb_option onb_prod

text \<open>\<open>bptr.buf[ i ]\<close>, and \<open>bptr.buf[ bptr.avail - k ]\<close>, which may lie before the block.\<close>

definition peek :: "nat \<Rightarrow> (RdbDecode, u8) prog" where
  "peek i = andThen (gets dec_bptr) (\<lambda>bp. checked (rd8 (pmem (buf bp)) (ppos (buf bp) + i)))"

definition peek_back :: "nat \<Rightarrow> (RdbDecode, u8) prog" where
  "peek_back k = andThen (gets dec_bptr) (\<lambda>bp.
     checked (if k \<le> ppos (buf bp) + avail bp then rd8 (pmem (buf bp)) (ppos (buf bp) + avail bp - k) else None))"

text \<open>\<open>if ( (b = bptr.incr( n )) == NULL ) return RDB_ERR_TRUNC;\<close>\<close>

definition incr_or_trunc :: "nat \<Rightarrow> (RdbDecode, ptr) prog" where
  "incr_or_trunc n = andThen (onb (incr n)) (\<lambda>r. case r of None \<Rightarrow> throw RDB_ERR_TRUNC | Some b \<Rightarrow> ret b)"

text \<open>A call of the current output, and of \<open>data_out\<close>; calling through null is a fault.\<close>

definition call_out :: "out_ptr \<Rightarrow> RdbString RdbEvent \<Rightarrow> (RdbDecode, unit) prog" where
  "call_out p e = (case p of
       NoOut \<Rightarrow> checked None
     | DataOut \<Rightarrow> modify (\<lambda>s. s\<lparr>dec_log := dec_log s @ [e]\<rparr>)
     | NullOut \<Rightarrow> ret ())"

definition emit :: "RdbString RdbEvent \<Rightarrow> (RdbDecode, unit) prog" where
  "emit e = andThen (gets dec_out) (\<lambda>p. call_out p e)"

definition emit_data :: "RdbString RdbEvent \<Rightarrow> (RdbDecode, unit) prog" where
  "emit_data e = andThen (gets dec_data_out) (\<lambda>p. call_out p e)"

definition start_key :: "(RdbDecode, unit) prog" where
  "start_key = andThen (gets id) (\<lambda>s.
     andThen (case dec_filter s of None \<Rightarrow> ret True | Some f \<Rightarrow> checked (f (dec_key s))) (\<lambda>ok.
     andThen (modify (\<lambda>s. s\<lparr>dec_out := (if ok then dec_data_out s else NullOut)\<rparr>)) (\<lambda>_.
     emit (D_start_key (dec_type s) (dec_key s)))))"

definition end_key :: "(RdbDecode, unit) prog" where
  "end_key = andThen (gets dec_type) (\<lambda>t. emit (D_end_key t))"

section \<open>decode_hdr\<close>

text \<open>The four digits of the version, \<open>buf[ 5 ]\<close> to \<open>buf[ 8 ]\<close>.\<close>

fun hdr_digits :: "nat list \<Rightarrow> (RdbDecode, unit) prog" where
  "hdr_digits [] = ret ()"
| "hdr_digits (i # is) = andThen (peek i) (\<lambda>b.
     if b < 0x30 \<or> b > 0x39 then throw RDB_ERR_VERSION
     else andThen (modify (\<lambda>s. s\<lparr>dec_ver := dec_ver s * 10 + ucast (b - 0x30)\<rparr>)) (\<lambda>_. hdr_digits is))"

text \<open>\<open>"REDIS00"\<close>\<close>

definition rdb_magic :: "u8 list" where
  "rdb_magic = [0x52, 0x45, 0x44, 0x49, 0x53, 0x30, 0x30]"

definition hdr_file :: "(RdbDecode, nat) prog" where
  "hdr_file =
     andThen (modify (\<lambda>s. s\<lparr>dec_is_rdb_file := True, dec_ver := 0\<rparr>)) (\<lambda>_.
     andThen (hdr_digits [5, 6, 7, 8]) (\<lambda>_.
     andThen (peek_back 9) (\<lambda>b.
     if b = 0xff then
       andThen (gets dec_bptr) (\<lambda>bp. andThen (checked (le64 (pmem (buf bp)) (ppos (buf bp) + avail bp - 8)))
         (\<lambda>c. andThen (modify (\<lambda>s. s\<lparr>dec_crc := c\<rparr>)) (\<lambda>_. ret 8)))
     else ret 8)))"

definition hdr_dump :: "(RdbDecode, nat) prog" where
  "hdr_dump =
     andThen (peek_back 9) (\<lambda>v. andThen (peek_back 10) (\<lambda>w.
     andThen (modify (\<lambda>s. s\<lparr>dec_ver := ucast w OR push_bit 8 (ucast v)\<rparr>)) (\<lambda>_.
     andThen (peek_back 1) (\<lambda>nl. andThen (gets dec_ver) (\<lambda>ver.
     andThen (if ver \<noteq> 9 \<and> nl = 0xa then
         andThen (peek_back 10) (\<lambda>v. andThen (peek_back 11) (\<lambda>w.
         andThen (modify (\<lambda>s. s\<lparr>dec_ver := ucast w OR push_bit 8 (ucast v)\<rparr>)) (\<lambda>_. ret 9)))
       else ret 8) (\<lambda>off.
     andThen (gets dec_bptr) (\<lambda>bp. andThen (checked (le64 (pmem (buf bp)) (ppos (buf bp) + avail bp - off)))
       (\<lambda>c. andThen (modify (\<lambda>s. s\<lparr>dec_crc := c\<rparr>)) (\<lambda>_. ret off)))))))))"

definition hdr_check_crc :: "nat \<Rightarrow> (RdbDecode, unit) prog" where
  "hdr_check_crc off = andThen (gets id) (\<lambda>s.
     if dec_crc s \<noteq> 0 then
       andThen (checked (rdn (pmem (buf (dec_bptr s))) (ppos (buf (dec_bptr s))) (avail (dec_bptr s) - off))) (\<lambda>bs.
         case jones_crc64 (dec_tab s) (dec_addr s + word_of_nat (ppos (buf (dec_bptr s)))) 0 bs of (calc, tab) \<Rightarrow>
         andThen (modify (\<lambda>s. s\<lparr>dec_tab := tab\<rparr>)) (\<lambda>_.
         if calc \<noteq> dec_crc s \<and> \<not> dec_is_rdb_file s then throw RDB_ERR_CRC else ret ()))
     else ret ())"

text \<open>The part of \<open>decode_hdr\<close> that runs while \<open>ver\<close> is zero.\<close>

definition hdr_version :: "(RdbDecode, unit) prog" where
  "hdr_version =
     andThen (modify (\<lambda>s. s\<lparr>dec_crc := 0\<rparr>)) (\<lambda>_.
     andThen (gets dec_bptr) (\<lambda>bp.
     if avail bp < 10 then throw RDB_ERR_TRUNC
     else andThen (checked (rdn (pmem (buf bp)) (ppos (buf bp)) 7)) (\<lambda>magic.
     andThen (if magic = rdb_magic then hdr_file else hdr_dump) (\<lambda>off.
     andThen (hdr_check_crc off) (\<lambda>_.
     andThen (gets dec_is_rdb_file) (\<lambda>file.
     if \<not> file then onb (modify (\<lambda>bp. bp\<lparr>avail := unat (word_of_nat (avail bp) - word_of_nat (off + 2) :: u64)\<rparr>))
     else andThen (onb (incr (5 + 4))) (\<lambda>_. ret ())))))))"

text \<open>A length that must not be an integer or compressed.\<close>

definition plain_len :: "(RdbDecode, u64) prog" where
  "plain_len = andThen (onb (decode RdbLength_zero)) (\<lambda>L.
     if l_is_lzf L \<or> l_is_enc L \<noteq> 0 then throw RDB_ERR_HDR else ret (l_len L))"

text \<open>A string or integer, compressed or not, fetched with \<open>consume\<close>.\<close>

definition aux_string :: "rdb_env \<Rightarrow> (RdbDecode, RdbString) prog" where
  "aux_string E = andThen (onb (decode RdbLength_zero)) (\<lambda>L.
     if l_is_enc L \<noteq> 0 then ret (set_i32 (l_ival L) RdbString_new)
     else andThen (onb (consume E L)) (\<lambda>b. ret (set_str b (l_len L) RdbString_new)))"

fun hdr_meta :: "rdb_env \<Rightarrow> RdbMeta \<Rightarrow> (RdbDecode, unit) prog" where
  "hdr_meta E RDB_MODULE_AUX = throw RDB_ERR_NOTSUP"
| "hdr_meta E RDB_IDLE = andThen plain_len (\<lambda>n. emit (D_idle n))"
| "hdr_meta E RDB_FREQ = andThen (incr_or_trunc 1) (\<lambda>b.
     andThen (checked (rd8 (pmem b) (ppos b))) (\<lambda>f. emit (D_freq f)))"
| "hdr_meta E RDB_AUX = andThen (aux_string E) (\<lambda>s0. andThen (aux_string E) (\<lambda>s1. emit (D_aux s0 s1)))"
| "hdr_meta E RDB_DBRESIZE = andThen plain_len (\<lambda>i. andThen plain_len (\<lambda>j. emit (D_dbresize i j)))"
| "hdr_meta E RDB_EXPIRED_MS = andThen (incr_or_trunc 8) (\<lambda>b.
     andThen (checked (le64 (pmem b) (ppos b))) (\<lambda>ms. emit (D_expired_ms ms)))"
| "hdr_meta E RDB_EXPIRED_SEC = andThen (incr_or_trunc 4) (\<lambda>b.
     andThen (checked (le32 (pmem b) (ppos b))) (\<lambda>sec. emit (D_expired sec)))"
| "hdr_meta E RDB_DBSELECT = andThen plain_len (\<lambda>n. emit (D_dbselect (ucast n)))"
| "hdr_meta E RDB_EOF = throw RDB_EOF_MARK"

text \<open>
  The loop over the meta data. The first argument bounds the number of rounds, see
  \<open>hdr_metas_safe\<close>; without any left the result is \<open>Fault\<close>, as for a read outside.
\<close>

fun hdr_metas :: "nat \<Rightarrow> rdb_env \<Rightarrow> (RdbDecode, unit) prog" where
  "hdr_metas 0 E = checked None"
| "hdr_metas (Suc k) E = andThen (gets dec_bptr) (\<lambda>bp.
     if avail bp = 0 then ret ()
     else andThen (peek 0) (\<lambda>b. case meta_of b of
         None \<Rightarrow> ret ()
       | Some m \<Rightarrow> andThen (onb (incr 1)) (\<lambda>_. andThen (hdr_meta E m) (\<lambda>_. hdr_metas k E))))"

text \<open>The key of an rdb file.\<close>

definition hdr_key :: "rdb_env \<Rightarrow> (RdbDecode, unit) prog" where
  "hdr_key E = andThen (gets dec_rlen) (\<lambda>L.
     andThen (if l_is_enc L \<noteq> 0 then modify (\<lambda>s. s\<lparr>dec_key := set_i32 (l_ival L) (dec_key s)\<rparr>)
       else andThen (onb (consume E L)) (\<lambda>k. modify (\<lambda>s. s\<lparr>dec_key := set_str k (l_len L) (dec_key s)\<rparr>))) (\<lambda>_.
     andThen (modify (\<lambda>s. s\<lparr>dec_rlen := RdbLength_zero\<rparr>)) (\<lambda>_.
     andThen (onb (decode RdbLength_zero)) (\<lambda>L. modify (\<lambda>s. s\<lparr>dec_rlen := L\<rparr>)))))"

text \<open>The record after the meta data: type, key, length of the object, decompression.\<close>

definition hdr_record :: "rdb_env \<Rightarrow> (RdbDecode, unit) prog" where
  "hdr_record E = andThen (gets dec_bptr) (\<lambda>bp.
     if avail bp = 0 then throw RDB_ERR_TRUNC
     else andThen (peek 0) (\<lambda>b.
     andThen (modify (\<lambda>s. s\<lparr>dec_type := get_rdb_type b\<rparr>)) (\<lambda>_.
     if get_rdb_type b = RDB_BAD_TYPE then throw RDB_ERR_TYPE
     else andThen (emit_data (D_start_type (get_rdb_type b) (offset bp))) (\<lambda>_.
     andThen (onb (incr 1)) (\<lambda>_.
     andThen (modify (\<lambda>s. s\<lparr>dec_rlen := RdbLength_zero\<rparr>)) (\<lambda>_.
     andThen (onb (decode RdbLength_zero)) (\<lambda>L.
     andThen (modify (\<lambda>s. s\<lparr>dec_rlen := L\<rparr>)) (\<lambda>_.
     andThen (gets dec_is_rdb_file) (\<lambda>file.
     andThen (if file then hdr_key E else ret ()) (\<lambda>_.
     andThen (gets dec_rlen) (\<lambda>L.
     if l_is_lzf L then andThen (onb (decompress E (l_zlen L) (l_len L)))
       (\<lambda>ok. if ok then ret () else throw RDB_ERR_LZF)
     else ret ())))))))))))"

definition decode_hdr :: "rdb_env \<Rightarrow> (RdbDecode, unit) prog" where
  "decode_hdr E = andThen (gets id) (\<lambda>s.
     if dec_out s = NoOut \<and> dec_data_out s = NoOut then throw RDB_ERR_OUTPUT
     else andThen (modify (\<lambda>s. if dec_out s = NoOut then s\<lparr>dec_out := dec_data_out s\<rparr> else s)) (\<lambda>_.
     andThen (if dec_ver s = 0 then hdr_version else ret ()) (\<lambda>_.
     andThen (gets id) (\<lambda>s.
     andThen (if dec_is_rdb_file s then hdr_metas (Suc (avail (dec_bptr s) + sav_avail (dec_bptr s))) E else ret ()) (\<lambda>_.
     hdr_record E)))))"

section \<open>Strings and integers of a body\<close>

definition decode_str :: "RdbLength \<Rightarrow> (RdbDecode, RdbString) prog" where
  "decode_str L =
     (if l_is_enc L \<noteq> 0 then ret (set_i32 (l_ival L) RdbString_new)
      else andThen (incr_or_trunc (unat (l_len L))) (\<lambda>b. ret (set_str b (l_len L) RdbString_new)))"

definition decode_rlen :: "rdb_env \<Rightarrow> (RdbDecode, RdbString) prog" where
  "decode_rlen E = andThen (onb (decode RdbLength_zero)) (\<lambda>L.
     andThen (if l_is_lzf L then andThen (onb (decompress E (l_zlen L) (l_len L)))
         (\<lambda>ok. if ok then ret () else throw RDB_ERR_LZF) else ret ()) (\<lambda>_.
     decode_str L))"

section \<open>Memory safety of the header\<close>

text \<open>
  The state between two calls of the decoder: the buffer pointer is sound, there is an output, the
  key and all strings given to the output can be read, and so is the filter sound.
\<close>

definition dec_ok :: "RdbDecode \<Rightarrow> bool" where
  "dec_ok s \<longleftrightarrow> wf_bufptr (dec_bptr s) \<and> (\<forall>e \<in> set (dec_log s). ev_safe e)
     \<and> dec_out s \<noteq> NoOut \<and> dec_data_out s \<noteq> NoOut \<and> str_val (dec_key s) \<noteq> None
     \<and> (\<forall>f k. dec_filter s = Some f \<longrightarrow> str_val k \<noteq> None \<longrightarrow> f k \<noteq> None)"

interpretation dec: state_invariant dec_ok
proof
  have "dec_ok ((RdbDecode_new (RdbBufptr_init Null 0))\<lparr>dec_out := DataOut, dec_data_out := DataOut\<rparr>)"
    by (simp add: dec_ok_def RdbDecode_new_def wf_bufptr_def RdbBufptr_init_def)
  then show "\<exists>s. dec_ok s" ..
qed

lemma triple_onb:
  assumes "triple wf_bufptr m (\<lambda>x bp. wf_bufptr bp \<and> A x) wf_bufptr"
  shows "dec.safe (onb m) A"
  using assms
  by (fastforce simp: dec.safe_def triple_def onb_def zoom_def dec_ok_def split: prod.splits outcome.splits)

lemma safe_incr_or_trunc: "dec.safe (incr_or_trunc n) (\<lambda>b. readable b n)"
  unfolding incr_or_trunc_def
  by (rule dec.safe_andThen [OF triple_onb [OF incr_wf]])
    (auto split: option.splits intro: dec.safe_ret dec.safe_throw)

lemma safe_call_out:
  "p \<noteq> NoOut \<Longrightarrow> ev_safe e \<Longrightarrow> dec.safe (call_out p e) (\<lambda>_. True)"
  by (cases p) (auto simp: call_out_def dec_ok_def intro: dec.safe_modify dec.safe_ret)

lemma safe_emit: "ev_safe e \<Longrightarrow> dec.safe (emit e) (\<lambda>_. True)"
  unfolding emit_def
  by (rule dec.safe_andThen [OF dec.safe_gets [where A = "\<lambda>p. p \<noteq> NoOut"]]) (auto simp: dec_ok_def intro: safe_call_out)

lemma safe_emit_data: "ev_safe e \<Longrightarrow> dec.safe (emit_data e) (\<lambda>_. True)"
  unfolding emit_data_def
  by (rule dec.safe_andThen [OF dec.safe_gets [where A = "\<lambda>p. p \<noteq> NoOut"]]) (auto simp: dec_ok_def intro: safe_call_out)

lemma safe_onb_decode: "dec.safe (onb (decode L)) (\<lambda>_. True)"
  using decode_wf [of L] by (intro triple_onb) simp

lemma safe_start_key: "dec.safe start_key (\<lambda>_. True)"
proof -
  have "dec.safe (andThen (gets id) (\<lambda>s.
     andThen (case dec_filter s of None \<Rightarrow> ret True | Some f \<Rightarrow> checked (f (dec_key s))) (\<lambda>ok.
     andThen (modify (\<lambda>s. s\<lparr>dec_out := (if ok then dec_data_out s else NullOut)\<rparr>)) (\<lambda>_.
     emit (D_start_key (dec_type s) (dec_key s)))))) (\<lambda>_. True)"
  proof (rule dec.safe_andThen [OF dec.safe_gets [where A = dec_ok]], simp, rule dec.safe_andThen)
    fix s assume s: "dec_ok s"
    show "dec.safe (case dec_filter s of None \<Rightarrow> ret True | Some f \<Rightarrow> checked (f (dec_key s))) (\<lambda>_. True)"
      using s by (auto simp: dec_ok_def split: option.splits intro!: dec.safe_ret dec.safe_checked)
    show "dec.safe (andThen (modify (\<lambda>s. s\<lparr>dec_out := (if ok then dec_data_out s else NullOut)\<rparr>)) (\<lambda>_.
        emit (D_start_key (dec_type s) (dec_key s)))) (\<lambda>_. True)" for ok
      using s by (intro dec.safe_andThen [OF dec.safe_modify [where A = "\<lambda>_. True"]] safe_emit)
        (auto simp: dec_ok_def ev_safe_def)
  qed
  then show ?thesis by (simp add: start_key_def)
qed

lemma safe_end_key: "dec.safe end_key (\<lambda>_. True)"
  unfolding end_key_def
  by (rule dec.safe_andThen [OF dec.safe_gets [where A = "\<lambda>_. True"]]) (auto intro: safe_emit simp: ev_safe_def)

lemma safe_decode_str: "dec.safe (decode_str L) (\<lambda>r. str_val r \<noteq> None)"
  unfolding decode_str_def
  by (intro dec.safe_if dec.safe_ret dec.safe_andThen [OF safe_incr_or_trunc])
    (auto simp: readable_def rdn_def)

lemma safe_decompress:
  assumes "bounded_lzf E" "no_wrap E"
  shows "dec.safe (onb (decompress E z n)) (\<lambda>_. True)"
  by (rule triple_onb) (rule triple_weaken [OF decompress_wf [OF assms]]; simp)

lemma safe_consume:
  assumes "bounded_lzf E" "no_wrap E"
  shows "dec.safe (onb (consume E L)) (\<lambda>b. readable b (unat (l_len L)))"
  by (rule triple_onb) (rule triple_weaken [OF consume_wf [OF assms]]; simp)

lemma safe_decode_rlen:
  assumes "bounded_lzf E" "no_wrap E"
  shows "dec.safe (decode_rlen E) (\<lambda>r. str_val r \<noteq> None)"
  unfolding decode_rlen_def
  by (intro dec.safe_andThen [OF safe_onb_decode] dec.safe_andThen [OF _ safe_decode_str]
      dec.safe_if dec.safe_andThen [OF safe_decompress [OF assms]] dec.safe_ret dec.safe_throw) auto

end
