(* ===== verification/Rdb_Elements.thy ===== *)
theory Rdb_Elements
  imports Rdb_Decode
begin

text \<open>
  The bodies that are a sequence of strings, numbers or bytes (\<open>src/rdb_decode.cpp\<close>): the plain
  string, hash, set, list and sorted set, the zipmap, the integer set and the module.
\<close>

section \<open>Sequences of strings\<close>

definition decode_string :: "(RdbDecode, unit) prog" where
  "decode_string = andThen start_key (\<lambda>_. andThen (gets dec_rlen) (\<lambda>L.
     andThen (decode_str L) (\<lambda>r. andThen (emit (D_string r)) (\<lambda>_. end_key))))"

text \<open>
  The loops \<open>for ( num = 0; num < cnt; num++ )\<close>: the first argument is the number of rounds left.
\<close>

fun hash_loop :: "nat \<Rightarrow> nat \<Rightarrow> nat \<Rightarrow> rdb_env \<Rightarrow> (RdbDecode, unit) prog" where
  "hash_loop 0 num cnt E = ret ()"
| "hash_loop (Suc k) num cnt E = andThen (decode_rlen E) (\<lambda>f. andThen (decode_rlen E) (\<lambda>v.
     andThen (emit (D_hash num cnt f v)) (\<lambda>_. hash_loop k (Suc num) cnt E)))"

definition decode_hash :: "rdb_env \<Rightarrow> (RdbDecode, unit) prog" where
  "decode_hash E = andThen (gets (\<lambda>s. unat (l_len (dec_rlen s)))) (\<lambda>cnt.
     andThen start_key (\<lambda>_. andThen (hash_loop cnt 0 cnt E) (\<lambda>_. end_key)))"

fun set_loop :: "nat \<Rightarrow> nat \<Rightarrow> nat \<Rightarrow> rdb_env \<Rightarrow> (RdbDecode, unit) prog" where
  "set_loop 0 num cnt E = ret ()"
| "set_loop (Suc k) num cnt E = andThen (decode_rlen E) (\<lambda>r.
     andThen (emit (D_set num cnt r)) (\<lambda>_. set_loop k (Suc num) cnt E))"

definition decode_set :: "rdb_env \<Rightarrow> (RdbDecode, unit) prog" where
  "decode_set E = andThen (gets (\<lambda>s. unat (l_len (dec_rlen s)))) (\<lambda>cnt.
     andThen start_key (\<lambda>_. andThen (set_loop cnt 0 cnt E) (\<lambda>_. end_key)))"

fun list_loop :: "nat \<Rightarrow> nat \<Rightarrow> nat \<Rightarrow> rdb_env \<Rightarrow> (RdbDecode, unit) prog" where
  "list_loop 0 num cnt E = ret ()"
| "list_loop (Suc k) num cnt E = andThen (decode_rlen E) (\<lambda>r.
     andThen (emit (D_list num cnt r)) (\<lambda>_. list_loop k (Suc num) cnt E))"

definition decode_list :: "rdb_env \<Rightarrow> (RdbDecode, unit) prog" where
  "decode_list E = andThen (gets (\<lambda>s. unat (l_len (dec_rlen s)))) (\<lambda>cnt.
     andThen start_key (\<lambda>_. andThen (list_loop cnt 0 cnt E) (\<lambda>_. end_key)))"

section \<open>Sorted sets\<close>

text \<open>The score: eight bytes, or a length byte with three special values and a string.\<close>

definition zset_score :: "(RdbDecode, RdbString) prog" where
  "zset_score = andThen (gets dec_type) (\<lambda>t.
     if t = RDB_ZSET_2 then andThen (incr_or_trunc 8) (\<lambda>b.
       andThen (checked (le64 (pmem b) (ppos b))) (\<lambda>dbl. ret (set_dbl dbl RdbString_new)))
     else andThen (incr_or_trunc 1) (\<lambda>b. andThen (checked (rd8 (pmem b) (ppos b))) (\<lambda>c.
       if c = 253 then ret (set_str (Ptr False [0x6e, 0x61, 0x6e] 0) 3 RdbString_new)
       else if c = 254 then ret (set_str (Ptr False [0x69, 0x6e, 0x66] 0) 3 RdbString_new)
       else if c = 255 then ret (set_str (Ptr False [0x2d, 0x69, 0x6e, 0x66] 0) 4 RdbString_new)
       else andThen (incr_or_trunc (unat c)) (\<lambda>b. ret (set_str b (ucast c) RdbString_new)))))"

fun zset_loop :: "nat \<Rightarrow> nat \<Rightarrow> nat \<Rightarrow> rdb_env \<Rightarrow> (RdbDecode, unit) prog" where
  "zset_loop 0 num cnt E = ret ()"
| "zset_loop (Suc k) num cnt E = andThen (decode_rlen E) (\<lambda>m. andThen zset_score (\<lambda>x.
     andThen (emit (D_zset num cnt m x)) (\<lambda>_. zset_loop k (Suc num) cnt E)))"

definition decode_zset :: "rdb_env \<Rightarrow> (RdbDecode, unit) prog" where
  "decode_zset E = andThen (gets (\<lambda>s. unat (l_len (dec_rlen s)))) (\<lambda>cnt.
     andThen start_key (\<lambda>_. andThen (zset_loop cnt 0 cnt E) (\<lambda>_. end_key)))"

section \<open>Integer sets\<close>

definition intset_value :: "u32 \<Rightarrow> u8 list \<Rightarrow> nat \<Rightarrow> u64 option" where
  "intset_value nbyte m p =
     (if nbyte = 1 then map_option scast (rd8 m p)
      else if nbyte = 2 then map_option scast (le16 m p)
      else map_option scast (le32 m p))"

fun intset_loop :: "nat \<Rightarrow> nat \<Rightarrow> nat \<Rightarrow> u32 \<Rightarrow> ptr \<Rightarrow> (RdbDecode, unit) prog" where
  "intset_loop 0 num cnt nbyte b = ret ()"
| "intset_loop (Suc k) num cnt nbyte b =
     andThen (checked (intset_value nbyte (pmem b) (ppos b))) (\<lambda>ival.
     andThen (emit (D_set num cnt (set_i64 ival RdbString_new))) (\<lambda>_.
       intset_loop k (Suc num) cnt nbyte (padd b (unat nbyte))))"

definition decode_set_intset :: "(RdbDecode, unit) prog" where
  "decode_set_intset = andThen start_key (\<lambda>_. andThen (incr_or_trunc 8) (\<lambda>b.
     andThen (checked (le32 (pmem b) (ppos b))) (\<lambda>nbyte.
     andThen (checked (le32 (pmem b) (ppos b + 4))) (\<lambda>nelem.
     if nbyte \<noteq> 1 \<and> nbyte \<noteq> 2 \<and> nbyte \<noteq> 4 \<and> nbyte \<noteq> 8 then throw RDB_ERR_NOTSUP
     else andThen (incr_or_trunc (unat (nbyte * nelem))) (\<lambda>b.
     andThen (intset_loop (unat nelem) 0 (unat nelem) nbyte b) (\<lambda>_. end_key))))))"

section \<open>Zipmaps\<close>

text \<open>The local buffer pointer \<open>hptr\<close> over the map is the first component of the state.\<close>

definition onh :: "(RdbBufptr, 'a) prog \<Rightarrow> (RdbBufptr \<times> RdbDecode, 'a) prog" where
  "onh = zoom fst (\<lambda>h s. (h, snd s))"

definition ond :: "(RdbDecode, 'a) prog \<Rightarrow> (RdbBufptr \<times> RdbDecode, 'a) prog" where
  "ond = zoom snd (\<lambda>d s. (fst s, d))"

definition hptr_incr :: "nat \<Rightarrow> (RdbBufptr \<times> RdbDecode, ptr) prog" where
  "hptr_incr n = andThen (onh (incr n)) (\<lambda>r. case r of None \<Rightarrow> throw RDB_ERR_TRUNC | Some b \<Rightarrow> ret b)"

text \<open>A length byte, and the 32 bits behind it from 254 on.\<close>

definition zipmap_len :: "u8 \<Rightarrow> (RdbBufptr \<times> RdbDecode, u32) prog" where
  "zipmap_len c = (if c \<ge> 254 then andThen (hptr_incr 4) (\<lambda>b. checked (be32 (pmem b) (ppos b))) else ret (ucast c))"

definition zipmap_entry :: "nat \<Rightarrow> nat \<Rightarrow> u8 \<Rightarrow> (RdbBufptr \<times> RdbDecode, unit) prog" where
  "zipmap_entry num cnt c = andThen (zipmap_len c) (\<lambda>flen. andThen (hptr_incr (unat flen)) (\<lambda>fb.
     andThen (hptr_incr 1) (\<lambda>b. andThen (checked (rd8 (pmem b) (ppos b))) (\<lambda>c.
     andThen (zipmap_len c) (\<lambda>vlen.
     andThen (hptr_incr 1) (\<lambda>b. andThen (checked (rd8 (pmem b) (ppos b))) (\<lambda>fre.
     andThen (hptr_incr (unat (vlen + ucast fre))) (\<lambda>vb.
       ond (emit (D_hash num cnt (set_str fb (ucast flen) RdbString_new) (set_str vb (ucast vlen) RdbString_new)))))))))))"

text \<open>Each round takes a byte, so one more round than there are bytes is enough.\<close>

fun zipmap_loop :: "nat \<Rightarrow> nat \<Rightarrow> nat \<Rightarrow> (RdbBufptr \<times> RdbDecode, unit) prog" where
  "zipmap_loop 0 num cnt = checked None"
| "zipmap_loop (Suc k) num cnt = andThen (gets (\<lambda>s. avail (fst s))) (\<lambda>n.
     if n = 0 then ret ()
     else andThen (hptr_incr 1) (\<lambda>b. andThen (checked (rd8 (pmem b) (ppos b))) (\<lambda>c.
       if c = 255 then ret ()
       else andThen (zipmap_entry num cnt c) (\<lambda>_. zipmap_loop k (Suc num) cnt))))"

definition zipmap_count :: "(RdbBufptr \<times> RdbDecode, nat) prog" where
  "zipmap_count = andThen (gets (\<lambda>s. avail (fst s))) (\<lambda>n.
     if n > 0 then andThen (hptr_incr 1) (\<lambda>b. andThen (checked (rd8 (pmem b) (ppos b))) (\<lambda>c. ret (unat c)))
     else ret 0)"

definition decode_hash_zipmap :: "(RdbDecode, unit) prog" where
  "decode_hash_zipmap = andThen start_key (\<lambda>_. andThen (gets (\<lambda>s. unat (l_len (dec_rlen s)))) (\<lambda>n.
     andThen (incr_or_trunc n) (\<lambda>b.
     andThen (zoom (\<lambda>s. (RdbBufptr_init b n, s)) (\<lambda>t s. snd t)
       (andThen zipmap_count (\<lambda>cnt. zipmap_loop (Suc n) 0 cnt))) (\<lambda>_. end_key))))"

section \<open>Modules\<close>

definition char_set :: "u8 list" where
  "char_set = map word_of_nat ([65..<91] @ [97..<123] @ [48..<58] @ [45, 95])"

text \<open>The decimal digits of a number, as \<open>snprintf\<close> writes them.\<close>

fun decimal :: "nat \<Rightarrow> u8 list" where
  "decimal n = (if n < 10 then [word_of_nat (48 + n)] else decimal (n div 10) @ [word_of_nat (48 + n mod 10)])"

declare decimal.simps [simp del]

text \<open>Nine characters of six bits and \<open>.version\<close>, cut by \<open>snprintf\<close> to four characters.\<close>

definition module_id_chars :: "u64 \<Rightarrow> u8 list" where
  "module_id_chars m = map (\<lambda>i. char_set ! unat (drop_bit (i * 6 + 4) m AND 63)) (rev [1..<10])"

definition module_version :: "u64 \<Rightarrow> u8 list" where
  "module_version m = 0x2e # decimal (unat (m AND 1023))"

definition module_str :: "u64 \<Rightarrow> RdbString" where
  "module_str m = set_str
     (Ptr False (module_id_chars m @ take 4 (module_version m) @ [0]) 0)
     (word_of_nat (9 + length (module_version m))) RdbString_new"

text \<open>The bytes up to the terminating zero, or to the end.\<close>

fun module_skip :: "nat \<Rightarrow> (RdbDecode, unit) prog" where
  "module_skip 0 = checked None"
| "module_skip (Suc k) = andThen (onb (incr 1)) (\<lambda>r. case r of
       None \<Rightarrow> ret ()
     | Some b \<Rightarrow> andThen (checked (rd8 (pmem b) (ppos b))) (\<lambda>c. if c = 0 then ret () else module_skip k))"

definition decode_module :: "(RdbDecode, unit) prog" where
  "decode_module = andThen (gets dec_rlen) (\<lambda>L.
     if l_is_enc L \<noteq> 0 \<or> l_is_lzf L then throw RDB_ERR_HDR
     else andThen start_key (\<lambda>_. andThen (emit (D_module (module_str (l_len L)))) (\<lambda>_. andThen end_key (\<lambda>_.
       andThen (gets (\<lambda>s. avail (dec_bptr s))) (\<lambda>n. module_skip (Suc n))))))"

end
