(* ===== verification/Rdb_Zip.thy ===== *)
theory Rdb_Zip
  imports Rdb_Cursor
begin

text \<open>
  \<open>RdbZipList\<close> (\<open>include/rdbparser/rdb_decode.h\<close>, \<open>src/rdb_decode.cpp\<close>) and its encoder
  \<open>RdbZipEncode\<close> (\<open>include/rdbparser/rdb_encode.h\<close>): the ziplist format of lists, hashes and
  sorted sets. The list starts at an index of a block of memory.
\<close>

section \<open>Link encodings\<close>

datatype ZipLinkEnc =
    ZIP_END | LEN_32 | BIG_32 | LEN_8 | LEN_6 | BIG_14
  | IMMED_16 | IMMED_32 | IMMED_64 | IMMED_24 | IMMED_8 | IMMED_4

fun ZipLinkEnc_val :: "ZipLinkEnc \<Rightarrow> nat" where
  "ZipLinkEnc_val ZIP_END = 0"
| "ZipLinkEnc_val LEN_32 = 1"
| "ZipLinkEnc_val BIG_32 = 2"
| "ZipLinkEnc_val LEN_8 = 3"
| "ZipLinkEnc_val LEN_6 = 4"
| "ZipLinkEnc_val BIG_14 = 5"
| "ZipLinkEnc_val IMMED_16 = 6"
| "ZipLinkEnc_val IMMED_32 = 7"
| "ZipLinkEnc_val IMMED_64 = 8"
| "ZipLinkEnc_val IMMED_24 = 9"
| "ZipLinkEnc_val IMMED_8 = 10"
| "ZipLinkEnc_val IMMED_4 = 11"

definition zip_is_immed :: "ZipLinkEnc \<Rightarrow> bool" where
  "zip_is_immed e \<longleftrightarrow> ZipLinkEnc_val e \<ge> ZipLinkEnc_val IMMED_16"

definition ZISZ :: "u64 \<Rightarrow> ZipLinkEnc \<Rightarrow> u64" where
  "ZISZ v e = push_bit (ZipLinkEnc_val e * 4) v"

definition ZSIZE :: u64 where
  "ZSIZE = ZISZ 0 ZIP_END OR ZISZ 5 LEN_32 OR ZISZ 5 BIG_32 OR ZISZ 1 LEN_8 OR ZISZ 1 LEN_6 OR
     ZISZ 2 BIG_14 OR ZISZ 3 IMMED_16 OR ZISZ 5 IMMED_32 OR ZISZ 9 IMMED_64 OR ZISZ 4 IMMED_24 OR
     ZISZ 2 IMMED_8 OR ZISZ 1 IMMED_4"

definition zlink_size :: "ZipLinkEnc \<Rightarrow> u8" where
  "zlink_size e = ucast (drop_bit (ZipLinkEnc_val e * 4) ZSIZE AND 0xf)"

definition znext_str_code :: "u64 \<Rightarrow> ZipLinkEnc" where
  "znext_str_code x =
     (if x AND 0x3f = x then LEN_6
      else if x AND 0x3fff = x then BIG_14
      else if x AND 0xffffffff = x then BIG_32
      else ZIP_END)"

definition zprev_code :: "u64 \<Rightarrow> ZipLinkEnc" where
  "zprev_code x =
     (if x < 0xfe then LEN_8
      else if x AND 0xffffffff = x then LEN_32
      else ZIP_END)"

definition zlink_prev :: "u8 \<Rightarrow> ZipLinkEnc" where
  "zlink_prev n = (if n < 0xfe then LEN_8 else if n = 0xff then ZIP_END else LEN_32)"

definition zlink_next :: "u8 \<Rightarrow> ZipLinkEnc" where
  "zlink_next n =
     (if n AND 0xc0 = 0x00 then LEN_6
      else if n AND 0xc0 = 0x40 then BIG_14
      else if n AND 0xc0 = 0x80 then BIG_32
      else if n AND 0xf0 = 0xc0 then IMMED_16
      else if n AND 0xf0 = 0xd0 then IMMED_32
      else if n AND 0xf0 = 0xe0 then IMMED_64
      else if n AND 0x0f = 0x00 then IMMED_24
      else if n AND 0x0f = 0x0e then IMMED_8
      else if n AND 0x0f = 0x0f then ZIP_END
      else IMMED_4)"

fun zlink_val :: "ZipLinkEnc \<Rightarrow> u8 list \<Rightarrow> nat \<Rightarrow> u64 option" where
  "zlink_val ZIP_END m p = Some 0"
| "zlink_val LEN_32 m p = l32 m (p + 1)"
| "zlink_val BIG_32 m p = b32 m (p + 1)"
| "zlink_val LEN_8 m p = map_option ucast (rd8 m p)"
| "zlink_val LEN_6 m p = map_option (\<lambda>b. ucast (b AND 0x3f)) (rd8 m p)"
| "zlink_val BIG_14 m p = do {
     b0 \<leftarrow> rd8 m p; b1 \<leftarrow> rd8 m (p + 1);
     Some (push_bit 8 (ucast (b0 AND 0x3f)) OR ucast b1) }"
| "zlink_val IMMED_16 m p = s16 m (p + 1)"
| "zlink_val IMMED_32 m p = s32 m (p + 1)"
| "zlink_val IMMED_64 m p = s64 m (p + 1)"
| "zlink_val IMMED_24 m p = s24 m (p + 1)"
| "zlink_val IMMED_8 m p = map_option s8 (rd8 m (p + 1))"
| "zlink_val IMMED_4 m p = map_option (\<lambda>b. ucast (b AND 0xf) - 1) (rd8 m p)"

section \<open>RdbZipList\<close>

record RdbZipList =
  zlbytes :: u32
  zltail :: u32
  zllen :: u16
  zl_data :: nat
  zl_end :: nat

definition RdbZipList_new :: RdbZipList where
  "RdbZipList_new = \<lparr>zlbytes = 0, zltail = 0, zllen = 0, zl_data = 0, zl_end = 0\<rparr>"

definition zip_init :: "u8 list \<Rightarrow> nat \<Rightarrow> u64 \<Rightarrow> RdbZipList \<Rightarrow> (bool \<times> RdbZipList) option" where
  "zip_init m b sz z =
     (if sz < 10 then Some (False, z)
      else do {
        zb \<leftarrow> le32 m b;
        zt \<leftarrow> le32 m (b + 4);
        zn \<leftarrow> le16 m (b + 8);
        let z1 = z\<lparr>zlbytes := zb, zltail := zt, zllen := zn\<rparr>;
        if zb < 11 then Some (False, z1)
        else Some (True, z1\<lparr>zl_data := b + 10, zl_end := b + unat zb\<rparr>) })"

text \<open>The test that ends \<open>next\<close>.\<close>

definition zip_in_bounds :: "RdbZipList \<Rightarrow> RdbListValue \<Rightarrow> bool \<times> RdbListValue" where
  "zip_in_bounds z lv = (lv_entry lv + lv_entry_len lv \<le> zl_end z, lv)"

definition zip_next :: "u8 list \<Rightarrow> RdbZipList \<Rightarrow> RdbListValue \<Rightarrow> (bool \<times> RdbListValue) option" where
  "zip_next m z lv0 = (
     let lv = lv0\<lparr>lv_entry := lv_entry lv0 + lv_entry_len lv0, lv_entry_len := unat (zlbytes z),
                  lv_data := None, lv_data_len := 0, lv_ival := 0\<rparr> in
     if lv_entry lv < zl_end z then do {
       b \<leftarrow> rd8 m (lv_entry lv);
       let p = zlink_prev b;
       if p = ZIP_END then Some (False, lv)
       else do {
         let lv1 = lv\<lparr>lv_entry := lv_entry lv + unat (zlink_size p)\<rparr>;
         if lv_entry lv1 < zl_end z then do {
           c \<leftarrow> rd8 m (lv_entry lv1);
           let n = zlink_next c;
           let sz = unat (zlink_size n);
           let next = lv_entry lv1 + sz;
           if next \<le> zl_end z then do {
             v \<leftarrow> zlink_val n m (lv_entry lv1);
             let lv2 = lv1\<lparr>lv_ival := v\<rparr>;
             if zip_is_immed n then Some (zip_in_bounds z (lv2\<lparr>lv_entry_len := sz\<rparr>))
             else Some (zip_in_bounds z
               (lv2\<lparr>lv_entry_len := sz + unat v, lv_data := Some next, lv_data_len := unat v\<rparr>)) }
           else Some (zip_in_bounds z lv1) }
         else Some (zip_in_bounds z lv1) } }
     else Some (zip_in_bounds z lv))"

definition zip_first :: "u8 list \<Rightarrow> RdbZipList \<Rightarrow> RdbListValue \<Rightarrow> (bool \<times> RdbListValue) option" where
  "zip_first m z lv = zip_next m z (lv\<lparr>lv_entry := zl_data z, lv_entry_len := 0\<rparr>)"

section \<open>Traversal stays inside the list and makes progress\<close>

lemma zlink_size_simps [simp]:
  "zlink_size ZIP_END = 0" "zlink_size LEN_32 = 5" "zlink_size BIG_32 = 5" "zlink_size LEN_8 = 1"
  "zlink_size LEN_6 = 1" "zlink_size BIG_14 = 2" "zlink_size IMMED_16 = 3" "zlink_size IMMED_32 = 5"
  "zlink_size IMMED_64 = 9" "zlink_size IMMED_24 = 4" "zlink_size IMMED_8 = 2" "zlink_size IMMED_4 = 1"
  by (simp_all add: zlink_size_def ZSIZE_def ZISZ_def)

lemma zip_is_immed_simps [simp]:
  "zip_is_immed e \<longleftrightarrow> e \<in> {IMMED_16, IMMED_32, IMMED_64, IMMED_24, IMMED_8, IMMED_4}"
  by (cases e) (auto simp: zip_is_immed_def)

lemma zlink_prev_unat:
  "zlink_prev n = (if unat n < 254 then LEN_8 else if unat n = 255 then ZIP_END else LEN_32)"
  by (simp add: zlink_prev_def word_less_nat_alt word_unat_eq_iff)

lemma zlink_next_unat:
  "zlink_next c =
     (let n = unat c in
      if n < 64 then LEN_6 else if n < 128 then BIG_14 else if n < 192 then BIG_32
      else if n < 208 then IMMED_16 else if n < 224 then IMMED_32 else if n < 240 then IMMED_64
      else if n = 240 then IMMED_24 else if n = 254 then IMMED_8 else if n = 255 then ZIP_END
      else IMMED_4)"
proof -
  have "c AND 0xc0 = 0 \<longleftrightarrow> unat c < 64"
    "c AND 0xc0 = 0x40 \<longleftrightarrow> 64 \<le> unat c \<and> unat c < 128"
    "c AND 0xc0 = 0x80 \<longleftrightarrow> 128 \<le> unat c \<and> unat c < 192"
    "c AND 0xf0 = 0xc0 \<longleftrightarrow> 192 \<le> unat c \<and> unat c < 208"
    "c AND 0xf0 = 0xd0 \<longleftrightarrow> 208 \<le> unat c \<and> unat c < 224"
    "c AND 0xf0 = 0xe0 \<longleftrightarrow> 224 \<le> unat c \<and> unat c < 240"
    using unat_lt_256 [of c] by (auto simp: word_unat_eq_iff unat_u8_high)
  moreover have nib: "unat (c AND 0x0f) = unat c mod 16"
    by (simp only: and_masks unat_and_mask) simp
  then have "c AND 0x0f = 0 \<longleftrightarrow> unat c mod 16 = 0" "c AND 0x0f = 0x0e \<longleftrightarrow> unat c mod 16 = 14"
    "c AND 0x0f = 0x0f \<longleftrightarrow> unat c mod 16 = 15"
    by (simp_all add: word_unat_eq_iff)
  moreover have "240 \<le> unat c \<Longrightarrow> (unat c mod 16 = 0 \<longleftrightarrow> unat c = 240) \<and>
      (unat c mod 16 = 14 \<longleftrightarrow> unat c = 254) \<and> (unat c mod 16 = 15 \<longleftrightarrow> unat c = 255)"
    using unat_lt_256 [of c] mod_block [of 15 16 "unat c"] by auto
  moreover consider "unat c < 64" | "64 \<le> unat c \<and> unat c < 128" | "128 \<le> unat c \<and> unat c < 192"
    | "192 \<le> unat c \<and> unat c < 208" | "208 \<le> unat c \<and> unat c < 224"
    | "224 \<le> unat c \<and> unat c < 240" | "240 \<le> unat c" by linarith
  ultimately show ?thesis
    by cases (simp_all add: zlink_next_def Let_def)
qed

lemma zlink_val_safe:
  assumes "p + unat (zlink_size e) \<le> length m" shows "\<exists>v. zlink_val e m p = Some v"
  using assms
  by (cases e) (auto simp: endian_read_bytes l32_def b32_def s16_def s32_def s64_def s24_def
      rdn_def rd8_def Let_def)

lemma zip_next_safe:
  assumes "zl_end z \<le> length m" shows "zip_next m z lv \<noteq> None"
proof -
  have "p + unat (zlink_size n) \<le> zl_end z \<Longrightarrow> \<exists>v. zlink_val n m p = Some v" for n p
    using assms by (intro zlink_val_safe) auto
  then show ?thesis
    using assms by (fastforce simp: zip_next_def Let_def rd8_def)
qed

lemma zip_next_True:
  assumes "zip_next m z lv = Some (True, lv')" "zlbytes z \<noteq> 0"
  shows "lv_next_pos lv < lv_next_pos lv' \<and> lv_next_pos lv' \<le> zl_end z \<and>
    (\<forall>d. lv_data lv' = Some d \<longrightarrow> lv_next_pos lv \<le> d \<and> d + lv_data_len lv' \<le> lv_next_pos lv')"
proof -
  have "0 < unat (zlbytes z)" using assms(2) by (simp add: unat_gt_0)
  moreover have "zlink_prev b \<noteq> ZIP_END \<Longrightarrow> 0 < unat (zlink_size (zlink_prev b))" for b
    by (simp add: zlink_prev_unat split: if_splits)
  ultimately show ?thesis
    using assms(1)
    by (auto simp: zip_next_def Let_def bind_Some_iff zip_in_bounds_def lv_next_pos_def
        simp del: zip_is_immed_simps split: if_splits)
qed

interpretation zip_cursor: list_cursor "zip_next m z" "zl_end z" "zlbytes z \<noteq> 0" "zl_end z \<le> length m"
  for m z
  by unfold_locales (use zip_next_safe zip_next_True in blast)+

section \<open>RdbZipEncode\<close>

text \<open>\<open>p\<close> is the block the list is written to; a write outside it is \<open>None\<close>.\<close>

record RdbZipEncode =
  ze_next :: ZipLinkEnc
  ze_prev :: ZipLinkEnc
  ze_link_sz :: u32
  ze_off :: u32
  ze_prev_off :: u32
  ze_p :: "u8 list"

definition ze_init :: "u8 list \<Rightarrow> RdbZipEncode \<Rightarrow> RdbZipEncode" where
  "ze_init out e = e\<lparr>ze_prev := ZIP_END, ze_link_sz := 0, ze_off := 10, ze_prev_off := 0, ze_p := out\<rparr>"

definition ze_calc_end :: "RdbZipEncode \<Rightarrow> RdbZipEncode" where
  "ze_calc_end e = e\<lparr>ze_prev := ZIP_END, ze_off := ze_off e + 1\<rparr>"

definition ze_calc_link :: "u32 \<Rightarrow> RdbZipEncode \<Rightarrow> RdbZipEncode" where
  "ze_calc_link sz e = (
     let e1 = e\<lparr>ze_prev := zprev_code (ucast (ze_link_sz e + ucast (zlink_size (ze_prev e)))),
                ze_next := znext_str_code (ucast sz)\<rparr>;
         e2 = e1\<lparr>ze_link_sz := ucast (zlink_size (ze_next e1)) + sz\<rparr>
     in e2\<lparr>ze_off := ze_off e2 + (ucast (zlink_size (ze_prev e2)) + ze_link_sz e2)\<rparr>)"

text \<open>\<open>b[ this->off++ ] = v\<close>, and a multi-byte store followed by \<open>off += n\<close>.\<close>

definition ze_put :: "u8 list \<Rightarrow> RdbZipEncode \<Rightarrow> RdbZipEncode option" where
  "ze_put vs e = map_option (\<lambda>p. e\<lparr>ze_p := p, ze_off := ze_off e + word_of_nat (length vs)\<rparr>)
     (wrn (ze_p e) (unat (ze_off e)) vs)"

definition ze_encode_prev :: "u32 \<Rightarrow> RdbZipEncode \<Rightarrow> RdbZipEncode option" where
  "ze_encode_prev val e =
     (if ze_prev e = LEN_8 then ze_put [ucast val] e
      else if ze_prev e = LEN_32 then do {
        e1 \<leftarrow> ze_put [0xfe] e;
        p \<leftarrow> le32_write (ze_p e1) (unat (ze_off e1)) val;
        Some (e1\<lparr>ze_p := p, ze_off := ze_off e1 + 4\<rparr>) }
      else ze_put [0] e)"

definition ze_encode_next :: "u32 \<Rightarrow> RdbZipEncode \<Rightarrow> RdbZipEncode option" where
  "ze_encode_next sz e =
     (if ze_next e = LEN_6 then ze_put [ucast sz] e
      else if ze_next e = BIG_14 then do {
        e1 \<leftarrow> ze_put [0x40 OR ucast (drop_bit 8 sz)] e;
        ze_put [ucast (sz AND 0xff)] e1 }
      else if ze_next e = BIG_32 then do {
        e1 \<leftarrow> ze_put [0x80] e;
        p \<leftarrow> be32_write (ze_p e1) (unat (ze_off e1)) sz;
        Some (e1\<lparr>ze_p := p, ze_off := ze_off e1 + 4\<rparr>) }
      else Some e)"

definition ze_encode_next_data :: "u8 list \<Rightarrow> u32 \<Rightarrow> RdbZipEncode \<Rightarrow> RdbZipEncode option" where
  "ze_encode_next_data data sz e = do {
     e1 \<leftarrow> ze_encode_next sz e;
     xs \<leftarrow> rdn data 0 (unat sz);
     p \<leftarrow> wrn (ze_p e1) (unat (ze_off e1)) xs;
     Some (e1\<lparr>ze_p := p, ze_off := ze_off e1 + sz\<rparr>) }"

definition ze_encode_next_data2 ::
  "u8 list \<Rightarrow> u8 list \<Rightarrow> u32 \<Rightarrow> u32 \<Rightarrow> RdbZipEncode \<Rightarrow> RdbZipEncode option" where
  "ze_encode_next_data2 data data2 sz sz2 e = do {
     e1 \<leftarrow> ze_encode_next (sz + sz2) e;
     xs \<leftarrow> rdn data 0 (unat sz);
     p1 \<leftarrow> wrn (ze_p e1) (unat (ze_off e1)) xs;
     p2 \<leftarrow> (if sz2 > 0 then do {
         ys \<leftarrow> rdn data2 0 (unat sz2);
         wrn p1 (unat (ze_off e1 + sz)) ys } else Some p1);
     Some (e1\<lparr>ze_p := p2, ze_off := ze_off e1 + (sz + sz2)\<rparr>) }"

definition ze_append_end :: "u32 \<Rightarrow> RdbZipEncode \<Rightarrow> RdbZipEncode option" where
  "ze_append_end count e = do {
     e1 \<leftarrow> ze_put [0xff] e;
     p1 \<leftarrow> le32_write (ze_p e1) 0 (ze_off e1);
     p2 \<leftarrow> le32_write p1 4 (ze_prev_off e1);
     p3 \<leftarrow> le16_write p2 8 (if count \<le> 0xffff then ucast count else 0xffff);
     Some (e1\<lparr>ze_p := p3\<rparr>) }"

definition ze_append_link :: "u8 list \<Rightarrow> u32 \<Rightarrow> RdbZipEncode \<Rightarrow> RdbZipEncode option" where
  "ze_append_link data sz e = (
     let prev_val = ze_link_sz e + ucast (zlink_size (ze_prev e)) in do {
       e1 \<leftarrow> ze_encode_prev prev_val (e\<lparr>ze_prev_off := ze_off e, ze_prev := zprev_code (ucast prev_val)\<rparr>);
       e2 \<leftarrow> ze_encode_next_data data sz (e1\<lparr>ze_next := znext_str_code (ucast sz)\<rparr>);
       Some (e2\<lparr>ze_link_sz := ucast (zlink_size (ze_next e2)) + sz\<rparr>) })"

definition ze_append_link2 ::
  "u8 list \<Rightarrow> u8 list \<Rightarrow> u32 \<Rightarrow> u32 \<Rightarrow> RdbZipEncode \<Rightarrow> RdbZipEncode option" where
  "ze_append_link2 data data2 sz sz2 e = (
     let prev_val = ze_link_sz e + ucast (zlink_size (ze_prev e)) in do {
       e1 \<leftarrow> ze_encode_prev prev_val (e\<lparr>ze_prev_off := ze_off e, ze_prev := zprev_code (ucast prev_val)\<rparr>);
       e2 \<leftarrow> ze_encode_next_data2 data data2 sz sz2 (e1\<lparr>ze_next := znext_str_code (ucast (sz + sz2))\<rparr>);
       Some (e2\<lparr>ze_link_sz := ucast (zlink_size (ze_next e2)) + sz + sz2\<rparr>) })"

section \<open>The bytes of a list\<close>

definition prev_bytes :: "u32 \<Rightarrow> u8 list" where
  "prev_bytes v = (if unat v < 254 then [ucast v] else 0xfe # mem_store 4 v)"

definition next_bytes :: "u32 \<Rightarrow> u8 list" where
  "next_bytes sz =
     (if unat sz < 64 then [ucast sz]
      else if unat sz < 16384 then [0x40 OR ucast (drop_bit 8 sz), ucast sz]
      else 0x80 # rev (mem_store 4 sz))"

lemma znext_code_unat:
  "znext_str_code (ucast (sz :: u32)) = (if unat sz < 64 then LEN_6 else if unat sz < 16384 then BIG_14 else BIG_32)"
  using unsigned_less [of sz, where ?'a = nat]
  by (simp only: znext_str_code_def and_masks and_mask_id unat_ucast_64) simp

lemma zprev_code_unat:
  "zprev_code (ucast (v :: u32)) = (if unat v < 254 then LEN_8 else LEN_32)"
  using unsigned_less [of v, where ?'a = nat]
  by (simp only: zprev_code_def and_masks and_mask_id word_less_nat_alt unat_ucast_64) simp

lemma length_next_bytes: "length (next_bytes sz) = unat (zlink_size (znext_str_code (ucast sz)))"
  by (simp add: next_bytes_def znext_code_unat)

lemma length_prev_bytes: "length (prev_bytes v) = unat (zlink_size (zprev_code (ucast v)))"
  by (simp add: prev_bytes_def zprev_code_unat)

lemma zlink_prev_bytes: "zlink_prev (hd (prev_bytes v)) = zprev_code (ucast v)"
  by (simp add: zlink_prev_unat prev_bytes_def zprev_code_unat unat_ucast_u8)

lemma zlink_next_bytes: "zlink_next (hd (next_bytes sz)) = znext_str_code (ucast sz)"
  by (auto simp: zlink_next_unat next_bytes_def znext_code_unat Let_def unat_ucast_u8 hdr14_first_32)

lemma zlink_val_bytes:
  assumes "bytes_at m p (next_bytes sz)"
  shows "zlink_val (znext_str_code (ucast sz)) m p = Some (ucast sz)"
proof -
  consider "unat sz < 64" | "64 \<le> unat sz" "unat sz < 16384" | "16384 \<le> unat sz" by linarith
  then show ?thesis
  proof cases
    case 1
    then have "(ucast sz :: u8) AND 0x3f = ucast sz"
      by (simp only: and_masks and_mask_id unat_ucast_u8) simp
    with 1 assms show ?thesis
      by (auto simp: next_bytes_def znext_code_unat rdb_mem word_unat_eq_iff unat_u8_up unat_ucast_u8 unat_ucast_64)
  next
    case 2
    with assms hdr14_value [of "ucast sz", folded ucast_32_64] show ?thesis
      by (simp add: next_bytes_def znext_code_unat rdb_mem unat_ucast_64)
  next
    case 3
    with assms bytes_at_rdn [of m "Suc p" "rev (mem_store 4 sz)" 4] show ?thesis
      by (auto simp: next_bytes_def znext_code_unat rdb_mem b32_def endian_read_bytes mem_load_store)
  qed
qed

lemma ze_encode_prev_wrn:
  assumes "ze_prev e = zprev_code (ucast v)" "unat (ze_off e) + length (prev_bytes v) < 2 ^ 32"
  shows "ze_encode_prev v e = map_option (\<lambda>p. e\<lparr>ze_p := p, ze_off := ze_off e + word_of_nat (length (prev_bytes v))\<rparr>)
    (wrn (ze_p e) (unat (ze_off e)) (prev_bytes v))"
  using assms
  by (simp add: ze_encode_prev_def prev_bytes_def zprev_code_unat ze_put_def endian_write_bytes
      unat_off_Suc map_conv_bind_option comp_def rdb_mem add.commute [of "2 :: u32"] add.commute [of "5 :: u32"] split: if_splits)

lemma ze_encode_next_wrn:
  assumes "ze_next e = znext_str_code (ucast v)" "unat (ze_off e) + length (next_bytes v) < 2 ^ 32"
  shows "ze_encode_next v e = map_option (\<lambda>p. e\<lparr>ze_p := p, ze_off := ze_off e + word_of_nat (length (next_bytes v))\<rparr>)
    (wrn (ze_p e) (unat (ze_off e)) (next_bytes v))"
proof -
  have "ucast (v AND 0xff) = (ucast v :: u8)"
    by (rule bit_word_eqI) (simp add: and_masks bit_simps)
  then show ?thesis
    using assms
    by (simp add: ze_encode_next_def next_bytes_def znext_code_unat ze_put_def endian_write_bytes
      unat_off_Suc map_conv_bind_option comp_def rdb_mem add.commute [of "2 :: u32"] add.commute [of "5 :: u32"] split: if_splits)
qed

definition zip_entry :: "u32 \<Rightarrow> u8 list \<Rightarrow> u8 list" where
  "zip_entry pv d = prev_bytes pv @ next_bytes (word_of_nat (length d)) @ d"

definition ze_prev_val :: "RdbZipEncode \<Rightarrow> u32" where
  "ze_prev_val e = ze_link_sz e + ucast (zlink_size (ze_prev e))"

lemma ze_append_link_wrn:
  assumes "unat (ze_off e) + length (zip_entry (ze_prev_val e) d) < 2 ^ 32"
  shows "ze_append_link d (word_of_nat (length d)) e = map_option
    (\<lambda>p. e\<lparr>ze_prev_off := ze_off e, ze_prev := zprev_code (ucast (ze_prev_val e)),
          ze_next := znext_str_code (ucast (word_of_nat (length d) :: u32)),
          ze_p := p, ze_off := ze_off e + word_of_nat (length (zip_entry (ze_prev_val e) d)),
          ze_link_sz := word_of_nat (length (next_bytes (word_of_nat (length d))) + length d)\<rparr>)
    (wrn (ze_p e) (unat (ze_off e)) (zip_entry (ze_prev_val e) d))"
proof -
  let ?pb = "prev_bytes (ze_prev_val e)" let ?sz = "word_of_nat (length d) :: u32"
  let ?nb = "next_bytes ?sz"
  have len: "unat ?sz = length d"
    using assms by (simp add: zip_entry_def unat_length_u32)
  have o1: "unat (ze_off e + word_of_nat (length ?pb)) = unat (ze_off e) + length ?pb"
    using assms by (intro unat_off_add) (simp add: zip_entry_def)
  have o2: "unat (ze_off e + word_of_nat (length ?pb) + word_of_nat (length ?nb)) = unat (ze_off e) + length ?pb + length ?nb"
    using assms o1 unat_off_add [of "ze_off e + word_of_nat (length ?pb)" "length ?nb"] by (simp add: zip_entry_def)
  have nb: "ucast (zlink_size (znext_str_code (ucast ?sz))) = (word_of_nat (length ?nb) :: u32)"
    by (simp add: next_bytes_def znext_code_unat)
  let ?k = "\<lambda>p. e\<lparr>ze_prev_off := ze_off e, ze_prev := zprev_code (ucast (ze_prev_val e)), ze_p := p,
      ze_off := ze_off e + word_of_nat (length ?pb), ze_next := znext_str_code (ucast ?sz)\<rparr>"
  have nx: "ze_encode_next ?sz (?k p) = map_option (\<lambda>p. (?k p)\<lparr>ze_p := p, ze_off := ze_off (?k p) + word_of_nat (length ?nb)\<rparr>)
      (wrn p (unat (ze_off (?k p))) ?nb)" for p
    using assms o1 by (subst ze_encode_next_wrn) (simp_all add: zip_entry_def)
  show ?thesis
    using assms o1 o2 len
    by (simp add: ze_append_link_def ze_prev_val_def [symmetric] Let_def ze_encode_prev_wrn
        zip_entry_def ze_encode_next_data_def rdn_def bind_map_option nx [simplified])
      (simp add: map_conv_bind_option comp_def nb wrn_wrn_ge [symmetric] add.assoc)
qed

text \<open>Appending every string of a list, after the first one, with \<open>append_link\<close>.\<close>

fun zip_entries :: "u32 \<Rightarrow> u8 list list \<Rightarrow> u8 list" where
  "zip_entries pv [] = []"
| "zip_entries pv (d # ds) = zip_entry pv d @ zip_entries (word_of_nat (length (zip_entry pv d))) ds"

fun ze_append_links :: "u8 list list \<Rightarrow> RdbZipEncode \<Rightarrow> RdbZipEncode option" where
  "ze_append_links [] e = Some e"
| "ze_append_links (d # ds) e = do {
     e1 \<leftarrow> ze_append_link d (word_of_nat (length d)) e;
     ze_append_links ds e1 }"

fun ze_calc_links :: "u8 list list \<Rightarrow> RdbZipEncode \<Rightarrow> RdbZipEncode" where
  "ze_calc_links [] e = e"
| "ze_calc_links (d # ds) e = ze_calc_links ds (ze_calc_link (word_of_nat (length d)) e)"

lemma ze_append_links_wrn:
  assumes "unat (ze_off e) + length (zip_entries (ze_prev_val e) ds) < 2 ^ 32"
    "unat (ze_off e) + length (zip_entries (ze_prev_val e) ds) \<le> length (ze_p e)"
  shows "\<exists>e'. ze_append_links ds e = Some e'
    \<and> wrn (ze_p e) (unat (ze_off e)) (zip_entries (ze_prev_val e) ds) = Some (ze_p e')
    \<and> ze_off e' = ze_off e + word_of_nat (length (zip_entries (ze_prev_val e) ds))
    \<and> (ds \<noteq> [] \<longrightarrow> ze_prev_off e' = ze_off e + word_of_nat (length (zip_entries (ze_prev_val e) (butlast ds))))"
  using assms
proof (induction ds arbitrary: e)
  case Nil
  then show ?case by simp
next
  case (Cons d ds)
  let ?ent = "zip_entry (ze_prev_val e) d"
  obtain p where p: "wrn (ze_p e) (unat (ze_off e)) ?ent = Some p"
    using Cons.prems(2) wrn_fits [of "ze_p e" "unat (ze_off e)" ?ent] by fastforce
  obtain e1 where e1: "ze_append_link d (word_of_nat (length d)) e = Some e1" "ze_p e1 = p"
    "ze_off e1 = ze_off e + word_of_nat (length ?ent)" "ze_prev_off e1 = ze_off e"
    "ze_prev_val e1 = word_of_nat (length ?ent)"
    using Cons.prems(1) p
    by (simp add: ze_append_link_wrn)
      (simp add: ze_prev_val_def zip_entry_def length_prev_bytes ac_simps)
  have off: "unat (ze_off e1) = unat (ze_off e) + length ?ent"
    using Cons.prems(1) by (simp only: e1) (rule unat_off_add, simp)
  have len: "length p = length (ze_p e)" using wrn_length [OF p] .
  have "\<exists>e'. ze_append_links ds e1 = Some e'
    \<and> wrn (ze_p e1) (unat (ze_off e1)) (zip_entries (ze_prev_val e1) ds) = Some (ze_p e')
    \<and> ze_off e' = ze_off e1 + word_of_nat (length (zip_entries (ze_prev_val e1) ds))
    \<and> (ds \<noteq> [] \<longrightarrow> ze_prev_off e' = ze_off e1 + word_of_nat (length (zip_entries (ze_prev_val e1) (butlast ds))))"
    using Cons.prems off len by (intro Cons.IH) (simp_all add: e1)
  then obtain e' where e': "ze_append_links ds e1 = Some e'"
    "wrn (ze_p e1) (unat (ze_off e1)) (zip_entries (ze_prev_val e1) ds) = Some (ze_p e')"
    "ze_off e' = ze_off e1 + word_of_nat (length (zip_entries (ze_prev_val e1) ds))"
    "ds \<noteq> [] \<Longrightarrow> ze_prev_off e' = ze_off e1 + word_of_nat (length (zip_entries (ze_prev_val e1) (butlast ds)))"
    by blast
  have "wrn (ze_p e) (unat (ze_off e)) (zip_entries (ze_prev_val e) (d # ds)) = Some (ze_p e')"
    using e'(2) wrn_wrn [of "ze_p e" "unat (ze_off e)" ?ent] p by (simp add: e1(2,5) off)
  moreover have "ze_prev_off e' = ze_off e + word_of_nat (length (zip_entries (ze_prev_val e) (butlast (d # ds))))"
    using e'(1,4) e1 by (cases "ds = []") (simp_all add: ac_simps)
  ultimately show ?case
    using e' e1 by (simp add: ac_simps)
qed

lemma prev_next_not_Nil [simp]: "prev_bytes v \<noteq> []" "next_bytes v \<noteq> []"
  by (simp_all add: prev_bytes_def next_bytes_def)

lemma str_codes_not_immed:
  "zprev_code (ucast (v :: u32)) \<noteq> ZIP_END" "\<not> zip_is_immed (znext_str_code (ucast (v :: u32)))"
  by (simp_all add: zprev_code_unat znext_code_unat)

lemma zip_next_entry:
  assumes "bytes_at m (lv_next_pos lv) (zip_entry pv d)" "lv_next_pos lv + length (zip_entry pv d) \<le> zl_end z"
    "length d < 2 ^ 32"
  shows "zip_next m z lv = Some (True, \<lparr>lv_data = Some (lv_next_pos lv + length (zip_entry pv d) - length d),
     lv_entry = lv_next_pos lv + length (prev_bytes pv), lv_data_len = length d,
     lv_entry_len = length (next_bytes (word_of_nat (length d))) + length d, lv_ival = word_of_nat (length d)\<rparr>)"
proof -
  let ?nb = "next_bytes (word_of_nat (length d))" and ?q = "lv_next_pos lv + length (prev_bytes pv)"
  have at: "bytes_at m (lv_next_pos lv) (prev_bytes pv)" "bytes_at m ?q ?nb"
    using assms(1) by (simp_all add: zip_entry_def bytes_at_append)
  have len: "length (prev_bytes pv) > 0" "length ?nb > 0" by simp_all
  define c where "c = znext_str_code (ucast (word_of_nat (length d) :: u32))"
  have c: "zlink_next (hd ?nb) = c" "unat (zlink_size c) = length ?nb" "\<not> zip_is_immed c"
    by (simp_all only: c_def zlink_next_bytes length_next_bytes str_codes_not_immed not_False_eq_True)
  have "ucast (word_of_nat (length d) :: u32) = (word_of_nat (length d) :: u64)"
    using assms(3) by (simp add: unat_of_nat word_unat_eq_iff unat_ucast_64)
  then have v: "zlink_val c m ?q = Some (word_of_nat (length d))"
    using zlink_val_bytes [OF at(2)] unfolding c_def by (rule subst)
  have u: "unat (word_of_nat (length d) :: u64) = length d"
    using assms(3) by (simp add: unat_of_nat)
  have p: "zlink_prev (hd (prev_bytes pv)) \<noteq> ZIP_END"
    "unat (zlink_size (zlink_prev (hd (prev_bytes pv)))) = length (prev_bytes pv)"
    by (simp_all only: zlink_prev_bytes length_prev_bytes str_codes_not_immed not_False_eq_True)
  have lt: "lv_next_pos lv < zl_end z" "?q < zl_end z"
    using assms(2) len by (simp_all only: zip_entry_def length_append)
  show ?thesis
    using assms(2) lt bytes_at_hd [OF at(1)] bytes_at_hd [OF at(2)] u p c v
    by (simp add: zip_next_def lv_next_pos_def Let_def zip_entry_def zip_in_bounds_def del: zip_is_immed_simps)
qed

lemma zip_next_end:
  "bytes_at m (lv_next_pos lv) [0xff] \<Longrightarrow> lv_next_pos lv < zl_end z \<Longrightarrow> \<exists>lv'. zip_next m z lv = Some (False, lv')"
  by (simp add: zip_next_def Let_def lv_next_pos_def bytes_at_Cons zlink_prev_unat)

lemma iterates_zip_entries:
  assumes "bytes_at m (lv_next_pos lv) (zip_entries pv ds @ [0xff])"
    "lv_next_pos lv + length (zip_entries pv ds) < zl_end z" "length (zip_entries pv ds) < 2 ^ 32"
  shows "\<exists>lvs. iterates (zip_next m z) lv lvs \<and>
    map (\<lambda>v. rdn m (the (lv_data v)) (lv_data_len v)) lvs = map Some ds \<and> (\<forall>v\<in>set lvs. lv_data v \<noteq> None)"
  using assms
proof (induction ds arbitrary: lv pv)
  case Nil
  then show ?case using zip_next_end [of m lv z] by (auto intro: iterates.stop)
next
  case (Cons d ds)
  let ?ent = "zip_entry pv d"
  have ent: "bytes_at m (lv_next_pos lv) ?ent"
    using Cons.prems(1) by (simp add: bytes_at_append)
  have le: "length d \<le> length ?ent" by (simp add: zip_entry_def)
  obtain lv1 where 1: "zip_next m z lv = Some (True, lv1)" "lv_next_pos lv1 = lv_next_pos lv + length ?ent"
    "lv_data lv1 = Some (lv_next_pos lv + length ?ent - length d)" "lv_data_len lv1 = length d"
    using zip_next_entry [OF ent, of z] Cons.prems(2,3) le
    by (auto simp: lv_next_pos_def zip_entry_def)
  have d: "rdn m (the (lv_data lv1)) (lv_data_len lv1) = Some d"
    using ent by (simp add: 1 zip_entry_def bytes_at_append bytes_at_rdn add.assoc)
  have "bytes_at m (lv_next_pos lv1) (zip_entries (word_of_nat (length ?ent)) ds @ [0xff])"
    using Cons.prems(1) by (simp add: 1 bytes_at_append add.assoc)
  then obtain lvs where "iterates (zip_next m z) lv1 lvs"
    "map (\<lambda>v. rdn m (the (lv_data v)) (lv_data_len v)) lvs = map Some ds" "\<forall>v\<in>set lvs. lv_data v \<noteq> None"
    using Cons.IH [of lv1 "word_of_nat (length ?ent)"] Cons.prems(2,3) 1 by auto
  then show ?case
    using 1 d by (auto intro!: exI [of _ "lv1 # lvs"] iterates.step)
qed

lemma zip_entries_last:
  "ds \<noteq> [] \<Longrightarrow> \<exists>pv'. zip_entries pv ds = zip_entries pv (butlast ds) @ zip_entry pv' (last ds)"
  by (induction ds arbitrary: pv) auto

lemma length_zip_entry_le: "length (zip_entry pv d) \<le> length d + 10"
  by (simp add: zip_entry_def prev_bytes_def next_bytes_def)

lemma length_zip_entries_le: "length (zip_entries pv ds) \<le> (\<Sum>d\<leftarrow>ds. length d + 10)"
proof (induction ds arbitrary: pv)
  case (Cons d ds)
  show ?case
    using Cons.IH [of "word_of_nat (length (zip_entry pv d))"] length_zip_entry_le [of pv d] by simp
qed simp

lemma ze_calc_links_off:
  "ze_off (ze_calc_links ds e) = ze_off e + word_of_nat (length (zip_entries (ze_prev_val e) ds))"
proof (induction ds arbitrary: e)
  case (Cons d ds)
  let ?e = "ze_calc_link (word_of_nat (length d)) e"
  have "ze_off ?e = ze_off e + word_of_nat (length (zip_entry (ze_prev_val e) d))"
    "ze_prev_val ?e = word_of_nat (length (zip_entry (ze_prev_val e) d))"
    by (simp_all add: ze_calc_link_def Let_def zip_entry_def length_prev_bytes length_next_bytes ze_prev_val_def ac_simps)
  with Cons [of ?e] show ?case by (simp add: ac_simps)
qed simp

lemma ze_append_end_bytes:
  assumes "bytes_at (ze_p e) 10 xs" "unat (ze_off e) = 10 + length xs" "11 + length xs < 2 ^ 32"
    "11 + length xs \<le> length (ze_p e)"
  shows "\<exists>p. ze_append_end count e = Some (e\<lparr>ze_off := ze_off e + 1, ze_p := p\<rparr>)
    \<and> bytes_at p 0 (mem_store 4 (ze_off e + 1)) \<and> bytes_at p 4 (mem_store 4 (ze_prev_off e))
    \<and> bytes_at p 8 (mem_store 2 (if count \<le> 0xffff then ucast count else 0xffff :: u16))
    \<and> bytes_at p 10 (xs @ [0xff])"
proof -
  obtain p0 where 0: "wrn (ze_p e) (10 + length xs) [0xff] = Some p0" "length p0 = length (ze_p e)"
    "bytes_at p0 (10 + length xs) [0xff]"
    using assms(4) wrn_ok [of "10 + length xs" "[0xff]" "ze_p e"] by auto
  have l0: "bytes_at p0 10 (xs @ [0xff])"
    using 0 assms(1) by (simp add: bytes_at_append wrn_keeps_bytes [OF 0(1)])
  obtain p1 where 1: "wrn p0 0 (mem_store 4 (ze_off e + 1)) = Some p1" "length p1 = length (ze_p e)"
    "bytes_at p1 0 (mem_store 4 (ze_off e + 1))"
    using assms(4) 0 wrn_ok [of 0 "mem_store 4 (ze_off e + 1)" p0] by auto
  obtain p2 where 2: "wrn p1 4 (mem_store 4 (ze_prev_off e)) = Some p2" "length p2 = length (ze_p e)"
    "bytes_at p2 4 (mem_store 4 (ze_prev_off e))"
    using assms(4) 1 wrn_ok [of 4 "mem_store 4 (ze_prev_off e)" p1] by auto
  let ?c = "mem_store 2 (if count \<le> 0xffff then ucast count else 0xffff :: u16)"
  obtain p3 where 3: "wrn p2 8 ?c = Some p3" "length p3 = length (ze_p e)" "bytes_at p3 8 ?c"
    using assms(4) 2 wrn_ok [of 8 ?c p2] by auto
  have "bytes_at p3 10 (xs @ [0xff])" "bytes_at p3 4 (mem_store 4 (ze_prev_off e))"
    "bytes_at p3 0 (mem_store 4 (ze_off e + 1))"
    using l0 1 2 3 by (simp_all add: wrn_keeps_bytes [OF 3(1)] wrn_keeps_bytes [OF 2(1)] wrn_keeps_bytes [OF 1(1)])
  then show ?thesis
    using 0 1 2 3 assms(2)
    by (auto simp: ze_append_end_def ze_put_def endian_write_bytes)
qed

abbreviation zip_size :: "u8 list list \<Rightarrow> nat" where
  "zip_size ds \<equiv> 11 + length (zip_entries 0 ds)"

definition zip_count :: "u8 list list \<Rightarrow> u16" where
  "zip_count ds = (if word_of_nat (length ds) \<le> (0xffff :: u32) then ucast (word_of_nat (length ds) :: u32) else 0xffff)"

lemma ze_init_prev_val: "ze_prev_val (ze_init b e) = 0"
  by (simp add: ze_prev_val_def ze_init_def)

lemma ze_init_sel: "ze_off (ze_init b e) = 10" "ze_p (ze_init b e) = b"
  by (simp_all add: ze_init_def)

lemma zip_calc_size: "ze_off (ze_calc_end (ze_calc_links ds (ze_init b e))) = word_of_nat (zip_size ds)"
  by (simp add: ze_calc_end_def ze_calc_links_off ze_init_prev_val) (simp add: ze_init_def)

lemma zip_count_unat: "length ds < 2 ^ 32 \<Longrightarrow> unat (zip_count ds) = min (length ds) 0xffff"
  by (simp add: zip_count_def word_le_nat_alt unat_of_nat unsigned_ucast_eq take_bit_nat_eq_self)

text \<open>The bytes the writing pass leaves: the header fields, the entries and the end marker.\<close>

lemma zip_encode_bytes:
  assumes "zip_size ds < 2 ^ 32" "zip_size ds \<le> length b"
  shows "\<exists>e1 e2. ze_append_links ds (ze_init b e) = Some e1 \<and> ze_append_end (word_of_nat (length ds)) e1 = Some e2
    \<and> ze_off e2 = word_of_nat (zip_size ds) \<and> bytes_at (ze_p e2) 0 (mem_store 4 (ze_off e2))
    \<and> bytes_at (ze_p e2) 4 (mem_store 4 (ze_prev_off e1)) \<and> bytes_at (ze_p e2) 8 (mem_store 2 (zip_count ds))
    \<and> bytes_at (ze_p e2) 10 (zip_entries 0 ds @ [0xff])
    \<and> (ds \<noteq> [] \<longrightarrow> unat (ze_prev_off e1) = 10 + length (zip_entries 0 (butlast ds)))"
proof -
  let ?xs = "zip_entries 0 ds"
  obtain e1 where e1: "ze_append_links ds (ze_init b e) = Some e1" "wrn b 10 ?xs = Some (ze_p e1)"
    "ze_off e1 = 10 + word_of_nat (length ?xs)"
    "ds \<noteq> [] \<Longrightarrow> ze_prev_off e1 = 10 + word_of_nat (length (zip_entries 0 (butlast ds)))"
    using ze_append_links_wrn [of "ze_init b e" ds] assms by (auto simp: ze_init_prev_val ze_init_sel)
  have off1: "unat (ze_off e1) = 10 + length ?xs"
    using assms(1) unat_off_add [of 10 "length ?xs"] by (simp add: e1)
  have "ds \<noteq> [] \<Longrightarrow> length (zip_entries 0 (butlast ds)) \<le> length ?xs"
    using zip_entries_last [of ds 0] by auto
  then have prev: "ds \<noteq> [] \<Longrightarrow> unat (ze_prev_off e1) = 10 + length (zip_entries 0 (butlast ds))"
    using e1(4) assms(1) unat_off_add [of 10 "length (zip_entries 0 (butlast ds))"] by simp
  have "11 + length ?xs < 2 ^ 32" "11 + length ?xs \<le> length (ze_p e1)"
    using assms wrn_length [OF e1(2)] by simp_all
  from ze_append_end_bytes [OF wrn_bytes_at [OF e1(2)] off1 this, of "word_of_nat (length ds)"]
  obtain p where p: "ze_append_end (word_of_nat (length ds)) e1 = Some (e1\<lparr>ze_off := ze_off e1 + 1, ze_p := p\<rparr>)"
    "bytes_at p 0 (mem_store 4 (ze_off e1 + 1))" "bytes_at p 4 (mem_store 4 (ze_prev_off e1))"
    "bytes_at p 8 (mem_store 2 (zip_count ds))" "bytes_at p 10 (?xs @ [0xff])"
    unfolding zip_count_def by blast
  have off: "ze_off e1 + 1 = word_of_nat (zip_size ds)" by (simp add: e1(3))
  show ?thesis
    by (intro exI [of _ e1] exI [of _ "e1\<lparr>ze_off := ze_off e1 + 1, ze_p := p\<rparr>"])
      (use e1(1) p prev off in simp)
qed

lemma zip_init_bytes:
  assumes "bytes_at m p (mem_store 4 zb)" "bytes_at m (p + 4) (mem_store 4 zt)" "bytes_at m (p + 8) (mem_store 2 zn)"
    "11 \<le> unat zb"
  shows "zip_init m p (ucast zb) z = Some (True, z\<lparr>zlbytes := zb, zltail := zt, zllen := zn, zl_data := p + 10, zl_end := p + unat zb\<rparr>)"
  using assms
  by (simp add: zip_init_def endian_read_bytes bytes_at_rdn mem_load_store word_less_nat_alt unat_ucast_64)

lemma zip_next_tail:
  assumes "bytes_at m 10 (zip_entries 0 ds @ [0xff])" "ds \<noteq> []" "zl_end z = zip_size ds" "zip_size ds < 2 ^ 32"
    "lv_next_pos lv = 10 + length (zip_entries 0 (butlast ds))"
  shows "\<exists>v. zip_next m z lv = Some (True, v) \<and> rdn m (the (lv_data v)) (lv_data_len v) = Some (last ds)"
proof -
  let ?d = "last ds"
  obtain pv where pv: "zip_entries 0 ds = zip_entries 0 (butlast ds) @ zip_entry pv ?d"
    using zip_entries_last [OF assms(2)] by blast
  have at: "bytes_at m (lv_next_pos lv) (zip_entry pv ?d)"
    using assms(1) by (simp add: pv bytes_at_append assms(5))
  have "length ?d \<le> length (zip_entry pv ?d)" by (simp add: zip_entry_def)
  then have "length ?d < 2 ^ 32" "lv_next_pos lv + length (zip_entry pv ?d) \<le> zl_end z"
    using assms(3,4,5) pv by simp_all
  moreover have "rdn m (lv_next_pos lv + length (zip_entry pv ?d) - length ?d) (length ?d) = Some ?d"
    using at by (simp add: zip_entry_def bytes_at_append bytes_at_rdn add.assoc)
  ultimately show ?thesis using zip_next_entry [OF at] by simp
qed

section \<open>Properties\<close>

text \<open>C10: Building a ziplist and reading it back. For any list of strings that fits 32 bit offsets, a
  block of the size the calculating pass (\<open>calc_link\<close>, \<open>calc_end\<close>) announces is enough for the
  writing pass, which ends at exactly that offset; the list then opens, its header holds that size and the
  count (saturated at 65535), and the traversal yields exactly the strings, in order. Starting from
  the tail offset in the header gives the last one.\<close>

theorem zip_roundtrip:
  assumes "(\<Sum>d\<leftarrow>ds. length d + 10) + 11 < 2 ^ 32"
    "unat (ze_off (ze_calc_end (ze_calc_links ds (ze_init b e)))) \<le> length b"
  shows "\<exists>e1 e2 z lvs. ze_append_links ds (ze_init b e) = Some e1
    \<and> ze_append_end (word_of_nat (length ds)) e1 = Some e2
    \<and> ze_off e2 = ze_off (ze_calc_end (ze_calc_links ds (ze_init b e)))
    \<and> zip_init (ze_p e2) 0 (ucast (ze_off e2)) RdbZipList_new = Some (True, z)
    \<and> zlbytes z = ze_off e2 \<and> unat (zllen z) = min (length ds) 0xffff
    \<and> iterates (zip_next (ze_p e2) z) (lv\<lparr>lv_entry := zl_data z, lv_entry_len := 0\<rparr>) lvs
    \<and> map (\<lambda>v. rdn (ze_p e2) (the (lv_data v)) (lv_data_len v)) lvs = map Some ds
    \<and> (\<forall>v\<in>set lvs. lv_data v \<noteq> None)
    \<and> (ds \<noteq> [] \<longrightarrow> (\<exists>v. zip_next (ze_p e2) z (lv\<lparr>lv_entry := unat (zltail z), lv_entry_len := 0\<rparr>) = Some (True, v)
          \<and> rdn (ze_p e2) (the (lv_data v)) (lv_data_len v) = Some (last ds)))"
proof -
  let ?n = "zip_size ds"
  have "length ds \<le> (\<Sum>d\<leftarrow>ds. length d + 10)" by (induction ds) auto
  then have lt: "?n < 2 ^ 32" "length ds < 2 ^ 32"
    using assms(1) length_zip_entries_le [of 0 ds] by simp_all
  have un: "unat (word_of_nat ?n :: u32) = ?n" using lt(1) by (simp only: unat_of_nat) simp
  then have fits: "?n \<le> length b" using assms(2) by (simp only: zip_calc_size)
  from zip_encode_bytes [OF lt(1) fits, of e] obtain e1 e2 where e: "ze_append_links ds (ze_init b e) = Some e1"
    "ze_append_end (word_of_nat (length ds)) e1 = Some e2" "ze_off e2 = word_of_nat ?n"
    "bytes_at (ze_p e2) 0 (mem_store 4 (ze_off e2))" "bytes_at (ze_p e2) 4 (mem_store 4 (ze_prev_off e1))"
    "bytes_at (ze_p e2) 8 (mem_store 2 (zip_count ds))" "bytes_at (ze_p e2) 10 (zip_entries 0 ds @ [0xff])"
    "ds \<noteq> [] \<longrightarrow> unat (ze_prev_off e1) = 10 + length (zip_entries 0 (butlast ds))"
    by blast
  have sz: "unat (ze_off e2) = ?n" using e(3) un by (simp only:)
  let ?z = "RdbZipList_new\<lparr>zlbytes := ze_off e2, zltail := ze_prev_off e1, zllen := zip_count ds,
      zl_data := 10, zl_end := ?n\<rparr>"
  have z: "zip_init (ze_p e2) 0 (ucast (ze_off e2)) RdbZipList_new = Some (True, ?z)"
    using zip_init_bytes [of "ze_p e2" 0 "ze_off e2" "ze_prev_off e1" "zip_count ds"] e(4-6) sz by simp
  obtain lvs where "iterates (zip_next (ze_p e2) ?z) (lv\<lparr>lv_entry := 10, lv_entry_len := 0\<rparr>) lvs"
    "map (\<lambda>v. rdn (ze_p e2) (the (lv_data v)) (lv_data_len v)) lvs = map Some ds" "\<forall>v\<in>set lvs. lv_data v \<noteq> None"
    using iterates_zip_entries [of "ze_p e2" "lv\<lparr>lv_entry := 10, lv_entry_len := 0\<rparr>" 0 ds ?z] e(7) lt
    by (auto simp: lv_next_pos_def)
  moreover have "\<exists>v. zip_next (ze_p e2) ?z (lv\<lparr>lv_entry := unat (zltail ?z), lv_entry_len := 0\<rparr>) = Some (True, v)
          \<and> rdn (ze_p e2) (the (lv_data v)) (lv_data_len v) = Some (last ds)" if "ds \<noteq> []"
    using e(8) that lt(1) by (intro zip_next_tail [OF e(7)]) (simp_all add: lv_next_pos_def)
  ultimately show ?thesis
    using e(1-3) z zip_count_unat [OF lt(2)]
    by (intro exI [of _ e1] exI [of _ e2] exI [of _ ?z] exI [of _ lvs]) (simp add: zip_calc_size)
qed

theorem zip_roundtrip_witness:
  "(\<Sum>d\<leftarrow>[[1, 2], [3 :: u8]]. length d + 10) + 11 < (2::nat) ^ 32
   \<and> (\<exists>E e1 e2. ze_append_links [[1, 2], [3]] (ze_init (replicate 18 0) E) = Some e1 \<and> ze_append_end 2 e1 = Some e2)"
proof -
  have "unat (ze_off (ze_calc_end (ze_calc_links [[1, 2], [3]] (ze_init (replicate 18 0) E)))) = 18" for E
    by (simp only: zip_calc_size) (simp add: zip_entry_def prev_bytes_def next_bytes_def)
  then show ?thesis using zip_roundtrip [of "[[1, 2], [3]]" "replicate 18 0"] by fastforce
qed

text \<open>C29: Traversing any ziplist whose bytes are there. When the list opened and the block holds the
  \<open>zlbytes\<close> bytes its header announces, the loop over \<open>next\<close> ends for every content of
  the list, after at most \<open>zlbytes - 10\<close> elements, without reading outside the block, and every string it
  yields lies inside the list.\<close>

theorem zip_traversal_safe:
  assumes "zip_init m b sz z0 = Some (True, z)" "b + unat (zlbytes z) \<le> length m"
  shows "\<exists>lvs. iterates (zip_next m z) (lv\<lparr>lv_entry := zl_data z, lv_entry_len := 0\<rparr>) lvs
    \<and> length lvs \<le> unat (zlbytes z) - 10
    \<and> (\<forall>v\<in>set lvs. \<forall>d. lv_data v = Some d \<longrightarrow> d + lv_data_len v \<le> b + unat (zlbytes z))"
proof -
  have z: "zlbytes z \<noteq> 0" "zl_data z = b + 10" "zl_end z = b + unat (zlbytes z)"
    using assms(1) by (auto simp: zip_init_def Let_def bind_Some_iff word_less_nat_alt split: if_splits)
  then have safe: "zl_end z \<le> length m" using assms(2) by simp
  let ?lv = "lv\<lparr>lv_entry := zl_data z, lv_entry_len := 0\<rparr>"
  obtain lvs where lvs: "iterates (zip_next m z) ?lv lvs"
    using zip_cursor.iterates_total [OF z(1) safe] by blast
  then show ?thesis
    using zip_cursor.iterates_bounded [OF lvs z(1)] zip_cursor.iterates_inside [OF lvs z(1)] z
    by (auto simp: lv_next_pos_def)
qed

theorem zip_traversal_safe_witness:
  "\<exists>z lvs. zip_init [13, 0, 0, 0, 10, 0, 0, 0, 1, 0, 0, 0xf3, 0xff] 0 13 RdbZipList_new = Some (True, z)
     \<and> iterates (zip_next [13, 0, 0, 0, 10, 0, 0, 0, 1, 0, 0, 0xf3, 0xff] z) \<lparr>lv_data = None, lv_entry = 10, lv_data_len = 0,
        lv_entry_len = 0, lv_ival = 0\<rparr> lvs"
proof -
  let ?m = "[13, 0, 0, 0, 10, 0, 0, 0, 1, 0, 0, 0xf3, 0xff] :: u8 list"
  let ?z = "\<lparr>zlbytes = 13, zltail = 10, zllen = 1, zl_data = 10, zl_end = 13\<rparr>"
  have "zip_init ?m 0 13 RdbZipList_new = Some (True, ?z)"
    by code_simp
  then show ?thesis
    using zip_traversal_safe [of ?m 0 13 RdbZipList_new ?z
      "\<lparr>lv_data = None, lv_entry = 10, lv_data_len = 0, lv_entry_len = 0, lv_ival = 0\<rparr>"] by auto
qed

text \<open>C32: \<open>init\<close> does not compare the size in the header with the size of the data it was given. For any header that announces
  at least eleven bytes and any size of the data from ten on the list opens, with its end where the header says; when the
  header is all there is, looking for the first element reads outside the data.\<close>

theorem zip_size_not_checked:
  assumes "le32 m b = Some zb" "11 \<le> zb" "b + 10 \<le> length m" "10 \<le> sz"
  shows "\<exists>z. zip_init m b sz z0 = Some (True, z) \<and> zl_end z = b + unat zb
    \<and> (length m = b + 10 \<longrightarrow> zip_first m z lv = None)"
proof -
  obtain zt where zt: "le32 m (b + 4) = Some zt" using assms(3) by (auto simp: endian_read_bytes rdn_def)
  obtain zn where zn: "le16 m (b + 8) = Some zn" using assms(3) by (auto simp: endian_read_bytes rdn_def)
  define z where "z = z0\<lparr>zlbytes := zb, zltail := zt, zllen := zn, zl_data := b + 10, zl_end := b + unat zb\<rparr>"
  have "zip_init m b sz z0 = Some (True, z)"
    using assms(1,2,4) zt zn by (simp add: zip_init_def z_def Let_def not_less)
  moreover have "11 \<le> unat zb" using assms(2) by (simp add: word_le_nat_alt)
  then have "zip_first m z lv = None" if "length m = b + 10"
    using that by (simp add: zip_first_def zip_next_def Let_def rd8_def z_def)
  ultimately show ?thesis by (auto simp: z_def)
qed

theorem zip_size_not_checked_witness:
  "\<exists>z. zip_init [0xff, 0, 0, 0, 10, 0, 0, 0, 1, 0] 0 10 RdbZipList_new = Some (True, z) \<and> zl_end z = 255
    \<and> zip_first [0xff, 0, 0, 0, 10, 0, 0, 0, 1, 0] z \<lparr>lv_data = None, lv_entry = 0, lv_data_len = 0, lv_entry_len = 0, lv_ival = 0\<rparr> = None"
proof -
  have "le32 [0xff, 0, 0, 0, 10, 0, 0, 0, 1, 0] 0 = Some 0xff" by code_simp
  from zip_size_not_checked [OF this, of 10] show ?thesis by auto
qed

end
