(* ===== verification/Rdb_Pack.thy ===== *)
theory Rdb_Pack
  imports Rdb_Cursor
begin

text \<open>
  \<open>RdbListPack\<close> (\<open>include/rdbparser/rdb_decode.h\<close>, \<open>src/rdb_decode.cpp\<close>) and its encoder
  \<open>RdbListPackEncode\<close> (\<open>include/rdbparser/rdb_encode.h\<close>): the listpack format of streams and of
  the later hash, sorted set and list types. The list starts at an index of a block of memory.
\<close>

section \<open>Entry encodings\<close>

datatype ListPackEnc =
    LP_7BIT_UINT | LP_6BIT_STR | LP_13BIT_INT | LP_12BIT_STR | LP_32BIT_STR | LP_16BIT_INT
  | LP_24BIT_INT | LP_32BIT_INT | LP_64BIT_INT | LP_END | LP_UNUSED

fun ListPackEnc_val :: "ListPackEnc \<Rightarrow> nat" where
  "ListPackEnc_val LP_7BIT_UINT = 0"
| "ListPackEnc_val LP_6BIT_STR = 1"
| "ListPackEnc_val LP_13BIT_INT = 2"
| "ListPackEnc_val LP_12BIT_STR = 3"
| "ListPackEnc_val LP_32BIT_STR = 4"
| "ListPackEnc_val LP_16BIT_INT = 5"
| "ListPackEnc_val LP_24BIT_INT = 6"
| "ListPackEnc_val LP_32BIT_INT = 7"
| "ListPackEnc_val LP_64BIT_INT = 8"
| "ListPackEnc_val LP_END = 9"
| "ListPackEnc_val LP_UNUSED = 10"

definition lp_is_immed :: "ListPackEnc \<Rightarrow> bool" where
  "lp_is_immed e \<longleftrightarrow> e \<noteq> LP_6BIT_STR \<and> e \<noteq> LP_12BIT_STR \<and> e \<noteq> LP_32BIT_STR"

definition LISZ :: "u64 \<Rightarrow> ListPackEnc \<Rightarrow> u64" where
  "LISZ v e = push_bit (ListPackEnc_val e * 4) v"

definition LP_SIZE :: u64 where
  "LP_SIZE = LISZ 1 LP_7BIT_UINT OR LISZ 1 LP_6BIT_STR OR LISZ 2 LP_13BIT_INT OR LISZ 2 LP_12BIT_STR OR
     LISZ 5 LP_32BIT_STR OR LISZ 3 LP_16BIT_INT OR LISZ 4 LP_24BIT_INT OR LISZ 5 LP_32BIT_INT OR
     LISZ 9 LP_64BIT_INT OR LISZ 1 LP_END OR LISZ 0 LP_UNUSED"

definition lp_size :: "ListPackEnc \<Rightarrow> u8" where
  "lp_size e = ucast (drop_bit (ListPackEnc_val e * 4) LP_SIZE AND 0xf)"

definition lpnext_str_code :: "u64 \<Rightarrow> ListPackEnc" where
  "lpnext_str_code x =
     (if x AND 0x3f = x then LP_6BIT_STR
      else if x AND 0xfff = x then LP_12BIT_STR
      else if x AND 0xffffffff = x then LP_32BIT_STR
      else LP_END)"

definition lpnext_imm_code :: "u64 \<Rightarrow> ListPackEnc" where
  "lpnext_imm_code x =
     (if sint x \<le> 0x7f \<and> sint x \<ge> 0 then LP_7BIT_UINT
      else if sint x \<le> 0xfff \<and> sint x \<ge> - 0x1000 then LP_13BIT_INT
      else if sint x \<le> 0x7fff \<and> sint x \<ge> - 0x8000 then LP_16BIT_INT
      else if sint x \<le> 0x7fffff \<and> sint x \<ge> - 0x800000 then LP_24BIT_INT
      else if sint x \<le> 0x7fffffff \<and> sint x \<ge> - 0x80000000 then LP_32BIT_INT
      else LP_64BIT_INT)"

text \<open>The loop of \<open>lpback_size\<close>; its guard and the condition of its \<open>do while\<close> are the same.\<close>

function lpback_loop :: "nat \<Rightarrow> u64 \<Rightarrow> nat" where
  "lpback_loop i x = (if x \<ge> 128 then lpback_loop (i + 1) (drop_bit 7 x) else i)"
  by pat_completeness auto
termination
  by (relation "measure (\<lambda>(i, x). unat x)")
    (auto simp: unat_drop_bit_eq drop_bit_eq_div [of 7 "unat _"] word_le_nat_alt)

declare lpback_loop.simps [simp del]

definition lpback_size :: "u64 \<Rightarrow> u8" where
  "lpback_size x = word_of_nat (lpback_loop 1 x)"

definition lp_code :: "u8 \<Rightarrow> ListPackEnc" where
  "lp_code b = (let hi = drop_bit 4 (b AND 0xF0); lo = b AND 0x0F in
     if hi \<le> 7 then LP_7BIT_UINT
     else if hi \<in> {8, 9, 10, 11} then LP_6BIT_STR
     else if hi \<in> {12, 13} then LP_13BIT_INT
     else if hi = 14 then LP_12BIT_STR
     else if lo = 0 then LP_32BIT_STR
     else if lo = 1 then LP_16BIT_INT
     else if lo = 2 then LP_24BIT_INT
     else if lo = 3 then LP_32BIT_INT
     else if lo = 4 then LP_64BIT_INT
     else if lo = 15 then LP_END
     else LP_UNUSED)"

fun lp_val :: "ListPackEnc \<Rightarrow> u8 list \<Rightarrow> nat \<Rightarrow> u64 option" where
  "lp_val LP_7BIT_UINT m p = map_option (\<lambda>b. ucast (b AND 0x7f)) (rd8 m p)"
| "lp_val LP_6BIT_STR m p = map_option (\<lambda>b. ucast (b AND 0x3f)) (rd8 m p)"
| "lp_val LP_13BIT_INT m p = s13 m p"
| "lp_val LP_12BIT_STR m p = do {
     b0 \<leftarrow> rd8 m p; b1 \<leftarrow> rd8 m (p + 1);
     Some (push_bit 8 (ucast b0 AND 0xf) OR ucast b1) }"
| "lp_val LP_32BIT_STR m p = l32 m (p + 1)"
| "lp_val LP_16BIT_INT m p = s16 m (p + 1)"
| "lp_val LP_24BIT_INT m p = s24 m (p + 1)"
| "lp_val LP_32BIT_INT m p = s32 m (p + 1)"
| "lp_val LP_64BIT_INT m p = s64 m (p + 1)"
| "lp_val LP_END m p = Some 0"
| "lp_val LP_UNUSED m p = Some 0"

section \<open>RdbListPack\<close>

record RdbListPack =
  lpbytes :: u32
  lplen :: u16
  lp_data :: nat
  lp_end :: nat

text \<open>The structure has no constructor: the fields before \<open>init\<close> are those of the argument.\<close>

definition lp_init :: "u8 list \<Rightarrow> nat \<Rightarrow> u64 \<Rightarrow> RdbListPack \<Rightarrow> (bool \<times> RdbListPack) option" where
  "lp_init m b sz z =
     (if sz < 6 then Some (False, z)
      else do {
        zb \<leftarrow> le32 m b;
        zn \<leftarrow> le16 m (b + 4);
        let z1 = z\<lparr>lpbytes := zb, lplen := zn\<rparr>;
        if zb < 7 then Some (False, z1)
        else Some (True, z1\<lparr>lp_data := b + 6, lp_end := b + unat zb\<rparr>) })"

definition lp_in_bounds :: "RdbListPack \<Rightarrow> RdbListValue \<Rightarrow> bool \<times> RdbListValue" where
  "lp_in_bounds z lv = (lv_entry lv + lv_entry_len lv \<le> lp_end z, lv)"

definition lp_next :: "u8 list \<Rightarrow> RdbListPack \<Rightarrow> RdbListValue \<Rightarrow> (bool \<times> RdbListValue) option" where
  "lp_next m z lv0 = (
     let lv = lv0\<lparr>lv_entry := lv_entry lv0 + lv_entry_len lv0, lv_entry_len := unat (lpbytes z),
                  lv_data := None, lv_data_len := 0, lv_ival := 0\<rparr> in
     if lv_entry lv < lp_end z then do {
       b \<leftarrow> rd8 m (lv_entry lv);
       let n = lp_code b;
       if n = LP_END then Some (False, lv)
       else do {
         let sz = unat (lp_size n);
         let next = lv_entry lv + sz;
         if next \<le> lp_end z then do {
           v \<leftarrow> lp_val n m (lv_entry lv);
           let lv1 = lv\<lparr>lv_ival := v\<rparr>;
           let lv2 = (if lp_is_immed n then lv1\<lparr>lv_entry_len := sz\<rparr>
                      else lv1\<lparr>lv_entry_len := sz + unat v, lv_data := Some next, lv_data_len := unat v\<rparr>);
           Some (lp_in_bounds z (lv2\<lparr>lv_entry_len :=
             lv_entry_len lv2 + unat (lpback_size (word_of_nat (lv_entry_len lv2)))\<rparr>)) }
         else Some (lp_in_bounds z lv) } }
     else Some (lp_in_bounds z lv))"

definition lp_first :: "u8 list \<Rightarrow> RdbListPack \<Rightarrow> RdbListValue \<Rightarrow> (bool \<times> RdbListValue) option" where
  "lp_first m z lv = lp_next m z (lv\<lparr>lv_entry := lp_data z, lv_entry_len := 0\<rparr>)"

definition lp_first_ival :: "u8 list \<Rightarrow> RdbListPack \<Rightarrow> RdbListValue \<Rightarrow> (bool \<times> RdbListValue) option" where
  "lp_first_ival m z lv = map_option (\<lambda>(ok, lv'). (ok \<and> lv_data lv' = None, lv')) (lp_first m z lv)"

definition lp_next_ival :: "u8 list \<Rightarrow> RdbListPack \<Rightarrow> RdbListValue \<Rightarrow> (bool \<times> RdbListValue) option" where
  "lp_next_ival m z lv = map_option (\<lambda>(ok, lv'). (ok \<and> lv_data lv' = None, lv')) (lp_next m z lv)"

section \<open>Traversal stays inside the list and makes progress\<close>

lemma lp_size_simps [simp]:
  "lp_size LP_7BIT_UINT = 1" "lp_size LP_6BIT_STR = 1" "lp_size LP_13BIT_INT = 2" "lp_size LP_12BIT_STR = 2"
  "lp_size LP_32BIT_STR = 5" "lp_size LP_16BIT_INT = 3" "lp_size LP_24BIT_INT = 4" "lp_size LP_32BIT_INT = 5"
  "lp_size LP_64BIT_INT = 9" "lp_size LP_END = 1" "lp_size LP_UNUSED = 0"
  by (simp_all add: lp_size_def LP_SIZE_def LISZ_def)

lemma lp_code_unat:
  "lp_code b =
     (let n = unat b in
      if n < 128 then LP_7BIT_UINT else if n < 192 then LP_6BIT_STR else if n < 224 then LP_13BIT_INT
      else if n < 240 then LP_12BIT_STR else if n = 240 then LP_32BIT_STR else if n = 241 then LP_16BIT_INT
      else if n = 242 then LP_24BIT_INT else if n = 243 then LP_32BIT_INT else if n = 244 then LP_64BIT_INT
      else if n = 255 then LP_END else LP_UNUSED)"
proof -
  define hi lo where "hi = drop_bit 4 (b AND 0xF0)" and "lo = b AND 0x0F"
  have h: "unat hi = unat b div 16"
    by (simp only: hi_def unat_drop_bit_eq unat_u8_high) (simp add: drop_bit_eq_div)
  have l: "unat lo = unat b mod 16"
    by (simp only: lo_def and_masks unat_and_mask) simp
  have q: "16 * unat hi \<le> unat b" "unat b < 16 * unat hi + 16"
    by (simp_all add: h)
  have "hi \<le> 7 \<longleftrightarrow> unat hi \<le> 7" "hi = 14 \<longleftrightarrow> unat hi = 14"
    "hi \<in> {12, 13} \<longleftrightarrow> 12 \<le> unat hi \<and> unat hi \<le> 13" "hi \<in> {8, 9, 10, 11} \<longleftrightarrow> 8 \<le> unat hi \<and> unat hi \<le> 11"
    by (auto simp: word_le_nat_alt word_unat_eq_iff)
  note hi = this
  have m: "240 \<le> unat b \<Longrightarrow> unat b mod 16 = unat b - 240"
    using unat_lt_256 [of b] mod_block [of 15 16 "unat b"] by simp
  have "hi \<le> 7 \<longleftrightarrow> unat b < 128" "hi \<in> {8, 9, 10, 11} \<longleftrightarrow> 128 \<le> unat b \<and> unat b < 192"
    "hi \<in> {12, 13} \<longleftrightarrow> 192 \<le> unat b \<and> unat b < 224" "hi = 14 \<longleftrightarrow> 224 \<le> unat b \<and> unat b < 240"
    unfolding hi using q by linarith+
  moreover have "240 \<le> unat b \<Longrightarrow> lo = 0 \<longleftrightarrow> unat b = 240" "240 \<le> unat b \<Longrightarrow> lo = 1 \<longleftrightarrow> unat b = 241"
    "240 \<le> unat b \<Longrightarrow> lo = 2 \<longleftrightarrow> unat b = 242" "240 \<le> unat b \<Longrightarrow> lo = 3 \<longleftrightarrow> unat b = 243"
    "240 \<le> unat b \<Longrightarrow> lo = 4 \<longleftrightarrow> unat b = 244" "240 \<le> unat b \<Longrightarrow> lo = 15 \<longleftrightarrow> unat b = 255"
    using unat_lt_256 [of b] m by (auto simp: word_unat_eq_iff l)
  moreover consider "unat b < 128" | "128 \<le> unat b \<and> unat b < 192" | "192 \<le> unat b \<and> unat b < 224"
    | "224 \<le> unat b \<and> unat b < 240" | "240 \<le> unat b" by linarith
  ultimately show ?thesis
    unfolding lp_code_def Let_def hi_def [symmetric] lo_def [symmetric] by cases simp_all
qed

lemma lpback_loop_le: "unat x < 128 ^ k \<Longrightarrow> k > 0 \<Longrightarrow> lpback_loop i x \<le> i + k - 1"
proof (induction k arbitrary: i x)
  case (Suc k)
  show ?case
  proof (cases "k = 0")
    case True
    with Suc.prems show ?thesis by (subst lpback_loop.simps) (simp add: word_le_nat_alt)
  next
    case False
    have "unat (drop_bit 7 x) < 128 ^ k"
      using Suc.prems(1) by (simp add: unat_drop_bit_eq drop_bit_eq_div [of 7 "unat x"] less_mult_imp_div_less mult.commute)
    with Suc.IH [of "drop_bit 7 x" "i + 1"] False show ?thesis
      by (subst lpback_loop.simps) simp
  qed
qed simp

lemma lpback_loop_ge: "i \<le> lpback_loop i x"
proof (induction i x rule: lpback_loop.induct)
  case (1 i x)
  then show ?case by (subst lpback_loop.simps) auto
qed

lemma lpback_size_range: "1 \<le> unat (lpback_size x)" "unat (lpback_size x) \<le> 10"
proof -
  have "unat x < 128 ^ 10"
    using unsigned_less [of x, where ?'a = nat] by simp
  then have "lpback_loop 1 x \<le> 10" using lpback_loop_le [of x 10 1] by simp
  then show "1 \<le> unat (lpback_size x)" "unat (lpback_size x) \<le> 10"
    using lpback_loop_ge [of 1 x] by (simp_all add: lpback_size_def unat_of_nat)
qed

lemma lp_val_safe:
  assumes "p + unat (lp_size e) \<le> length m" shows "\<exists>v. lp_val e m p = Some v"
  using assms
  by (cases e) (auto simp: endian_read_bytes l32_def b32_def s16_def s32_def s64_def s24_def s13_def
      rdn_def rd8_def Let_def)

lemma lp_next_safe:
  assumes "lp_end z \<le> length m" shows "lp_next m z lv \<noteq> None"
proof -
  have "p + unat (lp_size n) \<le> lp_end z \<Longrightarrow> \<exists>v. lp_val n m p = Some v" for n p
    using assms by (intro lp_val_safe) auto
  then show ?thesis
    using assms by (fastforce simp: lp_next_def Let_def rd8_def)
qed

lemma lp_next_True:
  assumes "lp_next m z lv = Some (True, lv')" "lpbytes z \<noteq> 0"
  shows "lv_next_pos lv < lv_next_pos lv' \<and> lv_next_pos lv' \<le> lp_end z \<and>
    (\<forall>d. lv_data lv' = Some d \<longrightarrow> lv_next_pos lv \<le> d \<and> d + lv_data_len lv' \<le> lv_next_pos lv')"
proof -
  have "0 < unat (lpbytes z)" using assms(2) by (simp add: unat_gt_0)
  moreover have "0 < unat (lpback_size x)" for x using lpback_size_range [of x] by simp
  ultimately show ?thesis
    using assms(1)
    by (auto simp: lp_next_def Let_def bind_Some_iff lp_in_bounds_def lv_next_pos_def split: if_splits)
qed

interpretation lp_cursor: list_cursor "lp_next m z" "lp_end z" "lpbytes z \<noteq> 0" "lp_end z \<le> length m"
  for m z
  by unfold_locales (use lp_next_safe lp_next_True in blast)+

section \<open>RdbListPackEncode\<close>

text \<open>\<open>pe_p\<close> is the block the list is written to; a write outside it is \<open>None\<close>.\<close>

record RdbListPackEncode =
  pe_next :: ListPackEnc
  pe_link_sz :: u32
  pe_off :: u32
  pe_items :: u32
  pe_p :: "u8 list"

definition pe_init :: "u8 list \<Rightarrow> RdbListPackEncode \<Rightarrow> RdbListPackEncode" where
  "pe_init out e = e\<lparr>pe_off := 6, pe_items := 0, pe_p := out\<rparr>"

definition pe_calc_end :: "RdbListPackEncode \<Rightarrow> RdbListPackEncode" where
  "pe_calc_end e = e\<lparr>pe_off := pe_off e + 1\<rparr>"

definition pe_calc_immediate_int :: "u64 \<Rightarrow> RdbListPackEncode \<Rightarrow> RdbListPackEncode" where
  "pe_calc_immediate_int val e = (
     let e1 = e\<lparr>pe_next := lpnext_imm_code val\<rparr>;
         e2 = e1\<lparr>pe_link_sz := ucast (lp_size (pe_next e1))\<rparr>
     in e2\<lparr>pe_off := pe_off e2 + (ucast (lpback_size (ucast (pe_link_sz e2))) + pe_link_sz e2),
           pe_items := pe_items e2 + 1\<rparr>)"

definition pe_calc_link :: "u32 \<Rightarrow> RdbListPackEncode \<Rightarrow> RdbListPackEncode" where
  "pe_calc_link sz e = (
     let e1 = e\<lparr>pe_next := lpnext_str_code (ucast sz)\<rparr>;
         e2 = e1\<lparr>pe_link_sz := ucast (lp_size (pe_next e1)) + sz\<rparr>
     in e2\<lparr>pe_off := pe_off e2 + (ucast (lpback_size (ucast (pe_link_sz e2))) + pe_link_sz e2),
           pe_items := pe_items e2 + 1\<rparr>)"

text \<open>\<open>b[ this->off++ ] = v\<close>, and a multi-byte store followed by \<open>off += n\<close>.\<close>

definition pe_put :: "u8 list \<Rightarrow> RdbListPackEncode \<Rightarrow> RdbListPackEncode option" where
  "pe_put vs e = map_option (\<lambda>p. e\<lparr>pe_p := p, pe_off := pe_off e + word_of_nat (length vs)\<rparr>)
     (wrn (pe_p e) (unat (pe_off e)) vs)"

text \<open>The loop of \<open>encode_back\<close> from \<open>i\<close> on: the block and \<open>val\<close> behind it.\<close>

function pe_back_loop :: "u32 \<Rightarrow> nat \<Rightarrow> nat \<Rightarrow> u32 \<Rightarrow> u8 list \<Rightarrow> (u8 list \<times> u32) option" where
  "pe_back_loop off sz i val b =
     (if i < sz then do {
        b1 \<leftarrow> wrn b (unat (off - word_of_nat i)) [0x80 OR ucast (val AND 0x7f)];
        pe_back_loop off sz (i + 1) (drop_bit 7 val) b1 }
      else Some (b, val))"
  by pat_completeness auto
termination
  by (relation "measure (\<lambda>(off, sz, i, val, b). sz - i)") auto

declare pe_back_loop.simps [simp del]

definition pe_encode_back :: "RdbListPackEncode \<Rightarrow> RdbListPackEncode option" where
  "pe_encode_back e = (
     let val = pe_link_sz e;
         sz = lpback_size (ucast val);
         e1 = e\<lparr>pe_off := pe_off e + ucast sz\<rparr> in do {
       (b, val') \<leftarrow> pe_back_loop (pe_off e1) (unat sz) 1 val (pe_p e1);
       b' \<leftarrow> wrn b (unat (pe_off e1 - ucast sz)) [ucast val'];
       Some (e1\<lparr>pe_p := b', pe_items := pe_items e1 + 1\<rparr>) })"

definition pe_encode_immediate_int :: "u64 \<Rightarrow> RdbListPackEncode \<Rightarrow> RdbListPackEncode option" where
  "pe_encode_immediate_int val e = do {
     e1 \<leftarrow> (case pe_next e of
        LP_13BIT_INT \<Rightarrow> do {
          e1 \<leftarrow> pe_put [0xc0 OR ucast (drop_bit 8 val AND 0xf)] e;
          pe_put [ucast (val AND 0xff)] e1 }
      | LP_16BIT_INT \<Rightarrow> do {
          e1 \<leftarrow> pe_put [0xf1] e;
          p \<leftarrow> le16_write (pe_p e1) (unat (pe_off e1)) (ucast (val AND 0xffff));
          Some (e1\<lparr>pe_p := p, pe_off := pe_off e1 + 2\<rparr>) }
      | LP_24BIT_INT \<Rightarrow> do {
          e1 \<leftarrow> pe_put [0xf2] e;
          e2 \<leftarrow> pe_put [ucast (drop_bit 16 (val AND 0xff0000))] e1;
          p \<leftarrow> le16_write (pe_p e2) (unat (pe_off e2)) (ucast (val AND 0xffff));
          Some (e2\<lparr>pe_p := p, pe_off := pe_off e2 + 2\<rparr>) }
      | LP_32BIT_INT \<Rightarrow> do {
          e1 \<leftarrow> pe_put [0xf3] e;
          p \<leftarrow> le32_write (pe_p e1) (unat (pe_off e1)) (ucast (val AND 0xffffffff));
          Some (e1\<lparr>pe_p := p, pe_off := pe_off e1 + 4\<rparr>) }
      | LP_64BIT_INT \<Rightarrow> do {
          e1 \<leftarrow> pe_put [0xf4] e;
          p \<leftarrow> le64_write (pe_p e1) (unat (pe_off e1)) val;
          Some (e1\<lparr>pe_p := p, pe_off := pe_off e1 + 8\<rparr>) }
      | _ \<Rightarrow> pe_put [ucast val] e);
     Some (e1\<lparr>pe_link_sz := ucast (lp_size (pe_next e1))\<rparr>) }"

definition pe_encode_next :: "u32 \<Rightarrow> RdbListPackEncode \<Rightarrow> RdbListPackEncode option" where
  "pe_encode_next sz e = do {
     e1 \<leftarrow> (if pe_next e = LP_6BIT_STR then pe_put [0x80 OR ucast sz] e
      else if pe_next e = LP_12BIT_STR then do {
        e1 \<leftarrow> pe_put [0xe0 OR ucast (drop_bit 8 sz)] e;
        pe_put [ucast (sz AND 0xff)] e1 }
      else if pe_next e = LP_32BIT_STR then do {
        e1 \<leftarrow> pe_put [0xf0] e;
        p \<leftarrow> be32_write (pe_p e1) (unat (pe_off e1)) sz;
        Some (e1\<lparr>pe_p := p, pe_off := pe_off e1 + 4\<rparr>) }
      else Some e);
     Some (e1\<lparr>pe_link_sz := ucast (lp_size (pe_next e1)) + sz\<rparr>) }"

definition pe_encode_next_data :: "u8 list \<Rightarrow> u32 \<Rightarrow> RdbListPackEncode \<Rightarrow> RdbListPackEncode option" where
  "pe_encode_next_data data sz e = do {
     e1 \<leftarrow> pe_encode_next sz e;
     xs \<leftarrow> rdn data 0 (unat sz);
     p \<leftarrow> wrn (pe_p e1) (unat (pe_off e1)) xs;
     Some (e1\<lparr>pe_p := p, pe_off := pe_off e1 + sz\<rparr>) }"

definition pe_encode_next_data2 ::
  "u8 list \<Rightarrow> u8 list \<Rightarrow> u32 \<Rightarrow> u32 \<Rightarrow> RdbListPackEncode \<Rightarrow> RdbListPackEncode option" where
  "pe_encode_next_data2 data data2 sz sz2 e = do {
     e1 \<leftarrow> pe_encode_next (sz + sz2) e;
     xs \<leftarrow> rdn data 0 (unat sz);
     p1 \<leftarrow> wrn (pe_p e1) (unat (pe_off e1)) xs;
     p2 \<leftarrow> (if sz2 > 0 then do {
         ys \<leftarrow> rdn data2 0 (unat sz2);
         wrn p1 (unat (pe_off e1 + sz)) ys } else Some p1);
     Some (e1\<lparr>pe_p := p2, pe_off := pe_off e1 + (sz + sz2)\<rparr>) }"

definition pe_append_end :: "RdbListPackEncode \<Rightarrow> RdbListPackEncode option" where
  "pe_append_end e = do {
     e1 \<leftarrow> pe_put [0xff] e;
     p1 \<leftarrow> le32_write (pe_p e1) 0 (pe_off e1);
     p2 \<leftarrow> le16_write p1 4 (if pe_items e1 \<le> 0xffff then ucast (pe_items e1) else 0xffff);
     Some (e1\<lparr>pe_p := p2\<rparr>) }"

definition pe_append_immediate_int :: "u64 \<Rightarrow> RdbListPackEncode \<Rightarrow> RdbListPackEncode option" where
  "pe_append_immediate_int val e = do {
     e1 \<leftarrow> pe_encode_immediate_int val (e\<lparr>pe_next := lpnext_imm_code val\<rparr>);
     pe_encode_back e1 }"

definition pe_append_link :: "u8 list \<Rightarrow> u32 \<Rightarrow> RdbListPackEncode \<Rightarrow> RdbListPackEncode option" where
  "pe_append_link data sz e = do {
     e1 \<leftarrow> pe_encode_next_data data sz (e\<lparr>pe_next := lpnext_str_code (ucast sz)\<rparr>);
     pe_encode_back e1 }"

definition pe_append_link2 ::
  "u8 list \<Rightarrow> u8 list \<Rightarrow> u32 \<Rightarrow> u32 \<Rightarrow> RdbListPackEncode \<Rightarrow> RdbListPackEncode option" where
  "pe_append_link2 data data2 sz sz2 e = do {
     e1 \<leftarrow> pe_encode_next_data2 data data2 sz sz2 (e\<lparr>pe_next := lpnext_str_code (ucast (sz + sz2))\<rparr>);
     pe_encode_back e1 }"

section \<open>The bytes of a list\<close>

text \<open>The back link: the length of the entry, seven bits a byte, all but the first byte marked.\<close>

fun back_bytes :: "nat \<Rightarrow> u32 \<Rightarrow> u8 list" where
  "back_bytes 0 v = []"
| "back_bytes (Suc k) v =
     (if k = 0 then [ucast v] else back_bytes k (drop_bit 7 v) @ [0x80 OR ucast (v AND 0x7f)])"

definition lp_str_bytes :: "u32 \<Rightarrow> u8 list" where
  "lp_str_bytes sz =
     (if unat sz < 64 then [0x80 OR ucast sz]
      else if unat sz < 4096 then [0xe0 OR ucast (drop_bit 8 sz), ucast sz]
      else 0xf0 # rev (mem_store 4 sz))"

definition lp_int_bytes :: "u64 \<Rightarrow> u8 list" where
  "lp_int_bytes v = (case lpnext_imm_code v of
       LP_13BIT_INT \<Rightarrow> [0xc0 OR ucast (drop_bit 8 v AND 0xf), ucast v]
     | LP_16BIT_INT \<Rightarrow> 0xf1 # mem_store 2 (ucast v :: u16)
     | LP_24BIT_INT \<Rightarrow> 0xf2 # ucast (drop_bit 16 v) # mem_store 2 (ucast v :: u16)
     | LP_32BIT_INT \<Rightarrow> 0xf3 # mem_store 4 (ucast v :: u32)
     | LP_64BIT_INT \<Rightarrow> 0xf4 # mem_store 8 v
     | _ \<Rightarrow> [ucast v])"

datatype lp_item = LpStr "u8 list" | LpInt u64

fun lp_head :: "lp_item \<Rightarrow> u8 list" where
  "lp_head (LpStr d) = lp_str_bytes (word_of_nat (length d)) @ d"
| "lp_head (LpInt v) = lp_int_bytes v"

definition lp_back :: "nat \<Rightarrow> u8 list" where
  "lp_back n = back_bytes (unat (lpback_size (word_of_nat n))) (word_of_nat n)"

definition lp_entry :: "lp_item \<Rightarrow> u8 list" where
  "lp_entry it = lp_head it @ lp_back (length (lp_head it))"

lemma length_back_bytes [simp]: "length (back_bytes k v) = k"
  by (induction k arbitrary: v) auto

lemma length_lp_back: "length (lp_back n) = unat (lpback_size (word_of_nat n))"
  by (simp add: lp_back_def)

lemma lp_str_code_unat:
  "lpnext_str_code (ucast (sz :: u32)) = (if unat sz < 64 then LP_6BIT_STR else if unat sz < 4096 then LP_12BIT_STR else LP_32BIT_STR)"
  using unsigned_less [of sz, where ?'a = nat]
  by (simp only: lpnext_str_code_def and_masks and_mask_id unat_ucast_64) simp

lemma length_lp_str_bytes: "length (lp_str_bytes sz) = unat (lp_size (lpnext_str_code (ucast sz)))"
  by (simp add: lp_str_bytes_def lp_str_code_unat)

lemma lp_imm_code_cases:
  "lpnext_imm_code v \<in> {LP_7BIT_UINT, LP_13BIT_INT, LP_16BIT_INT, LP_24BIT_INT, LP_32BIT_INT, LP_64BIT_INT}"
  by (simp add: lpnext_imm_code_def)

lemma length_lp_int_bytes: "length (lp_int_bytes v) = unat (lp_size (lpnext_imm_code v))"
  using lp_imm_code_cases [of v] by (auto simp: lp_int_bytes_def)

lemma pe_back_loop_wrn:
  assumes "1 \<le> i" "i \<le> sz" "sz \<le> unat off"
  shows "do { (b', v') \<leftarrow> pe_back_loop off sz i v b; wrn b' (unat (off - word_of_nat sz)) [ucast v'] }
    = wrn b (unat off - sz) (back_bytes (sz - i + 1) v)"
  using assms
proof (induction "sz - i" arbitrary: i v b)
  case 0
  then show ?case by (subst pe_back_loop.simps) (simp add: unat_off_sub)
next
  case (Suc k)
  have lt: "i < sz" using Suc.hyps(2) by simp
  have step: "do { (b', v') \<leftarrow> pe_back_loop off sz (Suc i) (drop_bit 7 v) b1; wrn b' (unat (off - word_of_nat sz)) [ucast v'] }
    = wrn b1 (unat off - sz) (back_bytes (sz - i) (drop_bit 7 v))" for b1
    using Suc.hyps(1) [of "Suc i" "drop_bit 7 v" b1] Suc.hyps(2) Suc.prems by (simp add: Suc_diff_Suc)
  have "unat off - i = unat off - sz + length (back_bytes (sz - i) (drop_bit 7 v))"
    using Suc.prems by simp
  then have "Option.bind (wrn b (unat off - i) [0x80 OR ucast (v AND 0x7f)])
      (\<lambda>b1. wrn b1 (unat off - sz) (back_bytes (sz - i) (drop_bit 7 v)))
    = wrn b (unat off - sz) (back_bytes (Suc (sz - i)) v)"
    using lt by (simp only: wrn_wrn_before) simp
  moreover have "unat (off - word_of_nat i) = unat off - i"
    using Suc.prems by (intro unat_off_sub) simp
  ultimately show ?case
    using lt step by (subst pe_back_loop.simps) (simp add: Option.bind_assoc)
qed

lemma lpback_size_32: "unat (lpback_size (ucast (v :: u32))) \<le> 5"
proof -
  have "unat (ucast v :: u64) < 128 ^ 5"
    using unsigned_less [of v, where ?'a = nat] by (simp add: unat_ucast_64)
  then have "lpback_loop 1 (ucast v) \<le> 5" using lpback_loop_le [of "ucast v" 5 1] by simp
  then show ?thesis by (simp add: lpback_size_def unat_of_nat)
qed

lemma pe_encode_back_wrn:
  assumes "pe_link_sz e = word_of_nat n" "n < 2 ^ 32" "unat (pe_off e) + length (lp_back n) < 2 ^ 32"
  shows "pe_encode_back e = map_option (\<lambda>p. e\<lparr>pe_off := pe_off e + word_of_nat (length (lp_back n)), pe_p := p,
      pe_items := pe_items e + 1\<rparr>) (wrn (pe_p e) (unat (pe_off e)) (lp_back n))"
proof -
  let ?sz = "lpback_size (word_of_nat n)"
  have u: "ucast (word_of_nat n :: u32) = (word_of_nat n :: u64)" by (rule ucast_of_nat_64 [OF assms(2)])
  have c: "(ucast ?sz :: u32) = word_of_nat (unat ?sz)" by simp
  have off: "unat (pe_off e + ucast ?sz) = unat (pe_off e) + unat ?sz"
    using assms(3) by (simp only: length_lp_back c unat_off_add)
  have "do { (b', v') \<leftarrow> pe_back_loop (pe_off e + ucast ?sz) (unat ?sz) 1 (word_of_nat n) (pe_p e);
        wrn b' (unat (pe_off e + ucast ?sz - word_of_nat (unat ?sz))) [ucast v'] }
    = wrn (pe_p e) (unat (pe_off e)) (lp_back n)"
    using pe_back_loop_wrn [of 1 "unat ?sz" "pe_off e + ucast ?sz" "word_of_nat n" "pe_p e"] lpback_size_range(1) [of "word_of_nat n"]
    by (simp add: off lp_back_def)
  then have "map_option f (wrn (pe_p e) (unat (pe_off e)) (lp_back n)) =
     do { (b', v') \<leftarrow> pe_back_loop (pe_off e + ucast ?sz) (unat ?sz) 1 (word_of_nat n) (pe_p e);
        map_option f (wrn b' (unat (pe_off e + ucast ?sz - ucast ?sz)) [ucast v']) }" for f
    by (simp only: map_conv_bind_option Option.bind_assoc [symmetric] case_prod_unfold c [symmetric])
  from this [of "\<lambda>b'. e\<lparr>pe_off := pe_off e + ucast ?sz, pe_p := b', pe_items := pe_items e + 1\<rparr>"] show ?thesis
    by (simp add: pe_encode_back_def Let_def assms(1) u length_lp_back map_conv_bind_option comp_def case_prod_unfold)
qed

lemma pe_encode_next_wrn:
  assumes "pe_next e = lpnext_str_code (ucast v)" "unat (pe_off e) + length (lp_str_bytes v) < 2 ^ 32"
  shows "pe_encode_next v e = map_option (\<lambda>p. e\<lparr>pe_p := p, pe_off := pe_off e + word_of_nat (length (lp_str_bytes v)),
      pe_link_sz := word_of_nat (length (lp_str_bytes v)) + v\<rparr>)
    (wrn (pe_p e) (unat (pe_off e)) (lp_str_bytes v))"
  using assms
  by (simp add: pe_encode_next_def lp_str_bytes_def lp_str_code_unat pe_put_def endian_write_bytes ucast_and_low
      unat_off_Suc map_conv_bind_option comp_def rdb_mem add.commute [of "2 :: u32"] add.commute [of "5 :: u32"] split: if_splits)

lemma pe_encode_int_wrn:
  assumes "pe_next e = lpnext_imm_code v" "unat (pe_off e) + length (lp_int_bytes v) < 2 ^ 32"
  shows "pe_encode_immediate_int v e = map_option (\<lambda>p. e\<lparr>pe_p := p, pe_off := pe_off e + word_of_nat (length (lp_int_bytes v)),
      pe_link_sz := word_of_nat (length (lp_int_bytes v))\<rparr>)
    (wrn (pe_p e) (unat (pe_off e)) (lp_int_bytes v))"
proof -
  have "unat (2 + pe_off e) = Suc (Suc (unat (pe_off e)))" if "unat (pe_off e) + 2 < 2 ^ 32"
    using unat_off_add [of "pe_off e" 2] that by (simp add: add.commute)
  then show ?thesis
    using assms lp_imm_code_cases [of v]
    by (auto simp: pe_encode_immediate_int_def lp_int_bytes_def pe_put_def endian_write_bytes ucast_and_low
      unat_off_Suc map_conv_bind_option comp_def rdb_mem add.commute [of _ "pe_off e"])
qed

lemma pe_encode_next_data_wrn:
  fixes d :: "u8 list"
  defines "sz \<equiv> word_of_nat (length d) :: u32"
  assumes "pe_next e = lpnext_str_code (ucast sz)" "unat (pe_off e) + (length (lp_str_bytes sz) + length d) < 2 ^ 32"
  shows "pe_encode_next_data d sz e = map_option (\<lambda>p. e\<lparr>pe_link_sz := word_of_nat (length (lp_str_bytes sz) + length d),
      pe_p := p, pe_off := pe_off e + word_of_nat (length (lp_str_bytes sz) + length d)\<rparr>)
    (wrn (pe_p e) (unat (pe_off e)) (lp_str_bytes sz @ d))"
proof -
  have o: "unat (pe_off e + word_of_nat (length (lp_str_bytes sz))) = unat (pe_off e) + length (lp_str_bytes sz)"
    using assms(3) by (intro unat_off_add) simp
  have len: "unat sz = length d"
    using assms(3) unfolding sz_def by (intro unat_of_nat_32) simp
  have "pe_encode_next sz e = map_option (\<lambda>p. e\<lparr>pe_p := p, pe_off := pe_off e + word_of_nat (length (lp_str_bytes sz)),
      pe_link_sz := word_of_nat (length (lp_str_bytes sz)) + sz\<rparr>) (wrn (pe_p e) (unat (pe_off e)) (lp_str_bytes sz))"
    using assms(3) by (intro pe_encode_next_wrn assms(2)) simp
  then show ?thesis
    using o len
    by (simp add: pe_encode_next_data_def rdn_def bind_map_option map_conv_bind_option comp_def
        wrn_wrn_ge [symmetric]) (simp add: sz_def add.assoc)
qed

text \<open>One operation per kind of item.\<close>

fun pe_append :: "lp_item \<Rightarrow> RdbListPackEncode \<Rightarrow> RdbListPackEncode option" where
  "pe_append (LpStr d) e = pe_append_link d (word_of_nat (length d)) e"
| "pe_append (LpInt v) e = pe_append_immediate_int v e"

fun pe_calc :: "lp_item \<Rightarrow> RdbListPackEncode \<Rightarrow> RdbListPackEncode" where
  "pe_calc (LpStr d) e = pe_calc_link (word_of_nat (length d)) e"
| "pe_calc (LpInt v) e = pe_calc_immediate_int v e"

lemma pe_append_wrn:
  assumes "unat (pe_off e) + length (lp_entry it) < 2 ^ 32" "unat (pe_off e) + length (lp_entry it) \<le> length (pe_p e)"
  shows "\<exists>e'. pe_append it e = Some e' \<and> wrn (pe_p e) (unat (pe_off e)) (lp_entry it) = Some (pe_p e')
    \<and> pe_off e' = pe_off e + word_of_nat (length (lp_entry it)) \<and> pe_items e' = pe_items e + 1"
proof -
  let ?h = "lp_head it" let ?b = "lp_back (length ?h)"
  obtain p1 where p1: "wrn (pe_p e) (unat (pe_off e)) ?h = Some p1" "length p1 = length (pe_p e)"
    using assms(2) wrn_ok [of "unat (pe_off e)" ?h "pe_p e"] by (auto simp: lp_entry_def)
  have off: "unat (pe_off e + word_of_nat (length ?h)) = unat (pe_off e) + length ?h"
    using assms(1) by (intro unat_off_add) (simp add: lp_entry_def)
  obtain p2 where p2: "wrn p1 (unat (pe_off e) + length ?h) ?b = Some p2"
    using assms(2) p1(2) wrn_ok [of "unat (pe_off e) + length ?h" ?b p1] by (auto simp: lp_entry_def)
  have w: "wrn (pe_p e) (unat (pe_off e)) (lp_entry it) = Some p2"
    using wrn_wrn [of "pe_p e" "unat (pe_off e)" ?h ?b] p1(1) p2 by (simp add: lp_entry_def)
  have n: "length ?h < 2 ^ 32" using assms(1) by (simp add: lp_entry_def)
  have bk: "\<exists>e'. pe_encode_back e1 = Some e' \<and> pe_p e' = p2
      \<and> pe_off e' = pe_off e + word_of_nat (length (lp_entry it)) \<and> pe_items e' = pe_items e + 1"
    if "pe_link_sz e1 = word_of_nat (length ?h)" "pe_p e1 = p1" "pe_off e1 = pe_off e + word_of_nat (length ?h)"
      "pe_items e1 = pe_items e" for e1
    using pe_encode_back_wrn [OF that(1) n] that assms(1) p2 off
    by (simp add: lp_entry_def add.assoc)
  show ?thesis
  proof (cases it)
    case (LpStr d)
    let ?e = "e\<lparr>pe_next := lpnext_str_code (ucast (word_of_nat (length d) :: u32))\<rparr>"
    obtain e1 where "pe_encode_next_data d (word_of_nat (length d)) ?e = Some e1"
      "pe_link_sz e1 = word_of_nat (length ?h)" "pe_p e1 = p1" "pe_off e1 = pe_off e + word_of_nat (length ?h)"
      "pe_items e1 = pe_items e"
      using pe_encode_next_data_wrn [of ?e d] assms(1) p1(1) by (auto simp: lp_entry_def LpStr ac_simps)
    with bk show ?thesis using w by (auto simp: LpStr pe_append_link_def)
  next
    case (LpInt v)
    let ?e = "e\<lparr>pe_next := lpnext_imm_code v\<rparr>"
    obtain e1 where "pe_encode_immediate_int v ?e = Some e1"
      "pe_link_sz e1 = word_of_nat (length ?h)" "pe_p e1 = p1" "pe_off e1 = pe_off e + word_of_nat (length ?h)"
      "pe_items e1 = pe_items e"
      using pe_encode_int_wrn [of ?e v] assms(1) p1(1) by (auto simp: lp_entry_def LpInt)
    with bk show ?thesis using w by (auto simp: LpInt pe_append_immediate_int_def)
  qed
qed

section \<open>Reading the bytes of a list\<close>

lemma lp_str_code_first:
  "lp_code (hd (lp_str_bytes sz)) = lpnext_str_code (ucast sz)"
proof -
  have a: "unat sz < 64 \<Longrightarrow> unat (0x80 OR ucast sz :: u8) = 128 + unat sz"
    using unat_push_or [of "ucast sz :: u8" 6 2] by (simp add: unat_ucast_u8)
  have b: "unat sz < 4096 \<Longrightarrow> unat (0xe0 OR ucast (drop_bit 8 sz) :: u8) = 224 + unat sz div 256"
    using unat_push_or [of "ucast (drop_bit 8 sz) :: u8" 4 14]
    by (simp add: unat_ucast_u8 unat_drop_bit_eq drop_bit_eq_div [of 8 "unat sz"] less_mult_imp_div_less)
  have "unat sz < 4096 \<Longrightarrow> unat sz div 256 < 16" by (simp add: less_mult_imp_div_less)
  with a b show ?thesis
    by (auto simp: lp_code_unat lp_str_bytes_def lp_str_code_unat Let_def)
qed

lemma unat_13_first: "unat (0xc0 OR ucast (drop_bit 8 (v :: u64) AND 0xf) :: u8) = 192 + unat v div 256 mod 16"
proof -
  have n: "unat (drop_bit 8 v AND 0xf) = unat v div 256 mod 16"
    by (simp only: and_masks unat_and_mask) (simp add: unat_drop_bit_eq drop_bit_eq_div [of 8 "unat v"])
  then have "unat (ucast (drop_bit 8 v AND 0xf) :: u8) = unat v div 256 mod 16"
    by (simp only: unat_ucast_u8 n) simp
  then show ?thesis
    using unat_push_or [of "ucast (drop_bit 8 v AND 0xf) :: u8" 4 12] by simp
qed

lemma lp_imm_7bit: "lpnext_imm_code v = LP_7BIT_UINT \<Longrightarrow> unat v < 128"
proof -
  assume "lpnext_imm_code v = LP_7BIT_UINT"
  then have "0 \<le> sint v" "sint v < 128" by (auto simp: lpnext_imm_code_def split: if_splits)
  moreover from this have "uint v = sint v" by (intro uint_sint_nonneg)
  moreover have "int (unat v) = uint v" by simp
  ultimately show ?thesis by linarith
qed

lemma lp_int_code_first:
  "lp_code (hd (lp_int_bytes v)) = lpnext_imm_code v"
proof -
  have k: "\<exists>k<16. unat (0xc0 OR ucast (drop_bit 8 v AND 0xf) :: u8) = 192 + k"
    by (rule exI [of _ "unat v div 256 mod 16"], rule conjI, rule mod_less_divisor, simp, rule unat_13_first)
  consider "lpnext_imm_code v = LP_7BIT_UINT" | "lpnext_imm_code v = LP_13BIT_INT"
    | "lpnext_imm_code v \<in> {LP_16BIT_INT, LP_24BIT_INT, LP_32BIT_INT, LP_64BIT_INT}"
    using lp_imm_code_cases [of v] by blast
  then show ?thesis
  proof cases
    case 1
    then have "unat (ucast v :: u8) < 128" using lp_imm_7bit [of v] by (simp add: unat_ucast_u8)
    with 1 show ?thesis by (simp add: lp_code_unat lp_int_bytes_def)
  next
    case 2
    have "lp_code (0xc0 OR ucast (drop_bit 8 v AND 0xf)) = LP_13BIT_INT"
      using k unfolding lp_code_unat by fastforce
    with 2 show ?thesis by (simp add: lp_int_bytes_def)
  next
    case 3
    then show ?thesis by (auto simp: lp_code_unat lp_int_bytes_def)
  qed
qed

lemma lp_str_val:
  assumes "bytes_at m p (lp_str_bytes sz)" "unat sz < 4096"
  shows "lp_val (lpnext_str_code (ucast sz)) m p = Some (ucast sz)"
proof (cases "unat sz < 64")
  case True
  have "unat sz < 64 \<Longrightarrow> (128 + unat sz) mod 64 = unat sz"
    using mod_block [of 2 64 "128 + unat sz"] by simp
  then have "unat ((0x80 OR ucast sz :: u8) AND 0x3f) = unat sz"
    using unat_push_or [of "ucast sz :: u8" 6 2] True by (simp only: and_masks unat_and_mask) (simp add: unat_ucast_u8)
  then show ?thesis
    using True assms(1) by (auto simp: lp_str_bytes_def lp_str_code_unat rdb_mem word_unat_eq_iff unat_u8_up unat_ucast_64)
next
  case False
  let ?b = "0xe0 OR ucast (drop_bit 8 sz) :: u8"
  have b: "unat ?b = 224 + unat sz div 256"
    using unat_push_or [of "ucast (drop_bit 8 sz) :: u8" 4 14] assms(2)
    by (simp add: unat_ucast_u8 unat_drop_bit_eq drop_bit_eq_div [of 8 "unat sz"] less_mult_imp_div_less)
  have "(224 + unat sz div 256) mod 16 = unat sz div 256"
    using assms(2) mod_block [of 14 16 "224 + unat sz div 256"] by (simp add: less_mult_imp_div_less)
  then have "unat (ucast ?b AND 0xf :: u64) = unat sz div 256"
    by (simp only: and_masks unat_and_mask) (simp add: unat_u8_up b)
  then have "unat (push_bit 8 (ucast ?b AND 0xf) OR ucast (ucast sz :: u8) :: u64) = unat sz"
    using assms(2) by (subst unat_push_or) (simp_all add: unat_u8_up unat_ucast_u8 less_mult_imp_div_less)
  then show ?thesis
    using False assms by (simp add: lp_str_bytes_def lp_str_code_unat rdb_mem word_unat_eq_iff unat_ucast_64)
qed

text \<open>The integers the encoder and the decoder agree on.\<close>

definition lp_int_ok :: "u64 \<Rightarrow> bool" where
  "lp_int_ok v \<longleftrightarrow> lpnext_imm_code v \<in> {LP_7BIT_UINT, LP_16BIT_INT, LP_32BIT_INT, LP_64BIT_INT}
     \<or> lpnext_imm_code v = LP_13BIT_INT \<and> 0 \<le> sint v"

lemma lp_int_val_13:
  assumes "bytes_at m p (lp_int_bytes v)" "lpnext_imm_code v = LP_13BIT_INT"
  shows "\<exists>w. lp_val LP_13BIT_INT m p = Some w \<and> sint w = sint v mod 4096"
proof -
  let ?b = "0xc0 OR ucast (drop_bit 8 v AND 0xf) :: u8"
  have b: "unat ?b = 192 + unat v div 256 mod 16" by (rule unat_13_first)
  have b4: "\<not> bit ?b 4"
  proof -
    have "bit ?b 4 \<longleftrightarrow> odd (uint ?b div 16)" using bit_uint_iff [of ?b 4] by (simp add: bit_iff_odd [of "uint ?b"])
    also have "uint ?b div 16 = int ((192 + unat v div 256 mod 16) div 16)"
      by (simp only: uint_nat b zdiv_int) simp
    also have "(192 + unat v div 256 mod 16) div 16 = 12"
      by (rule div_block) simp_all
    finally show ?thesis by simp
  qed
  have at: "rd8 m p = Some ?b" "rd8 m (p + 1) = Some (ucast v)"
    using assms by (simp_all add: lp_int_bytes_def rdb_mem)
  obtain w where w: "s13 m p = Some w" "sint w = 256 * (uint ?b mod 16) + uint (ucast v :: u8)"
    using s13_value [OF at] b4 by auto
  have "(192 + unat v div 256 mod 16) mod 16 = unat v div 256 mod 16"
    using mod_block [of 12 16 "192 + unat v div 256 mod 16"] by simp
  then have "uint ?b mod 16 = int (unat v div 256 mod 16)"
    using zmod_int [of "192 + unat v div 256 mod 16" 16] by (simp only: uint_nat b of_nat_numeral)
  moreover have "uint (ucast v :: u8) = int (unat v mod 256)"
    by (simp only: uint_nat unat_ucast_u8)
  moreover have "256 * (unat v div 256 mod 16) + unat v mod 256 = unat v mod 4096"
    using mod_mult2_eq [of "unat v" 256 16] by simp
  ultimately have "sint w = sint v mod 4096"
    unfolding w(2) sint_mod_4096 by (metis of_nat_add of_nat_mult of_nat_numeral)
  then show ?thesis using w(1) by simp
qed

lemma lp_int_val:
  assumes "bytes_at m p (lp_int_bytes v)" "lp_int_ok v"
  shows "lp_val (lpnext_imm_code v) m p = Some v"
proof -
  consider "lpnext_imm_code v = LP_7BIT_UINT" | "lpnext_imm_code v = LP_16BIT_INT" | "lpnext_imm_code v = LP_32BIT_INT"
    | "lpnext_imm_code v = LP_64BIT_INT" | "lpnext_imm_code v = LP_13BIT_INT" "0 \<le> sint v"
    using assms(2) by (auto simp: lp_int_ok_def)
  then show ?thesis
  proof cases
    case 1
    then have "unat v < 128" by (rule lp_imm_7bit)
    then have "unat ((ucast v :: u8) AND 0x7f) = unat v"
      by (simp only: and_masks unat_and_mask) (simp add: unat_ucast_u8)
    with 1 assms(1) show ?thesis
      by (auto simp: lp_int_bytes_def rdb_mem word_unat_eq_iff unat_u8_up)
  next
    case 2
    then have "scast (ucast v :: u16) = (ucast v :: u64)"
      by (intro scast_ucast_small) (auto simp: lpnext_imm_code_def split: if_splits)
    with 2 assms(1) bytes_at_rdn [of m "Suc p" "mem_store 2 (ucast v :: u16)" 2] show ?thesis
      by (auto simp: lp_int_bytes_def rdb_mem s16_def endian_read_bytes mem_load_store)
  next
    case 3
    then have "scast (ucast v :: u32) = (ucast v :: u64)"
      by (intro scast_ucast_small) (auto simp: lpnext_imm_code_def split: if_splits)
    with 3 assms(1) bytes_at_rdn [of m "Suc p" "mem_store 4 (ucast v :: u32)" 4] show ?thesis
      by (auto simp: lp_int_bytes_def rdb_mem s32_def endian_read_bytes mem_load_store)
  next
    case 4
    with assms(1) bytes_at_rdn [of m "Suc p" "mem_store 8 v" 8] show ?thesis
      by (auto simp: lp_int_bytes_def rdb_mem s64_def endian_read_bytes mem_load_store)
  next
    case 5
    then have "sint v mod 4096 = sint v" by (auto simp: lpnext_imm_code_def split: if_splits)
    with lp_int_val_13 [OF assms(1) 5(1)] 5 show ?thesis by (auto simp: sint_eq)
  qed
qed

text \<open>The item an element of a traversal stands for: its string, or its integer when it has no data.\<close>

definition lp_item_of :: "u8 list \<Rightarrow> RdbListValue \<Rightarrow> lp_item option" where
  "lp_item_of m lv = (case lv_data lv of None \<Rightarrow> Some (LpInt (lv_ival lv))
     | Some q \<Rightarrow> map_option LpStr (rdn m q (lv_data_len lv)))"

fun lp_item_ok :: "lp_item \<Rightarrow> bool" where
  "lp_item_ok (LpStr d) \<longleftrightarrow> length d < 4096"
| "lp_item_ok (LpInt v) \<longleftrightarrow> lp_int_ok v"

lemma lp_next_step:
  assumes "rd8 m (lv_next_pos lv) = Some b" "lp_code b = c" "c \<noteq> LP_END" "lp_val c m (lv_next_pos lv) = Some v"
    and len: "length h = unat (lp_size c) + (if lp_is_immed c then 0 else unat v)"
    and fits: "lv_next_pos lv + length h + length (lp_back (length h)) \<le> lp_end z"
  shows "\<exists>lv'. lp_next m z lv = Some (True, lv') \<and> lv_next_pos lv' = lv_next_pos lv + length h + length (lp_back (length h))
    \<and> lv_data lv' = (if lp_is_immed c then None else Some (lv_next_pos lv + unat (lp_size c)))
    \<and> lv_data_len lv' = (if lp_is_immed c then 0 else unat v) \<and> lv_ival lv' = v"
proof -
  have "0 < length (lp_back (length h))"
    using lpback_size_range(1) [of "word_of_nat (length h)"] by (simp add: length_lp_back)
  then have lt: "lv_next_pos lv < lp_end z" "lv_next_pos lv + unat (lp_size c) \<le> lp_end z"
    using fits len by linarith+
  show ?thesis
  proof (cases "lp_is_immed c")
    case True
    with assms lt show ?thesis
      by (simp add: lp_next_def lv_next_pos_def Let_def lp_in_bounds_def length_lp_back)
  next
    case False
    with assms lt show ?thesis
      by (simp add: lp_next_def lv_next_pos_def Let_def lp_in_bounds_def length_lp_back)
  qed
qed

lemma lp_str_int_immed:
  "\<not> lp_is_immed (lpnext_str_code (ucast (sz :: u32)))" "lpnext_str_code (ucast sz) \<noteq> LP_END"
  "lp_is_immed (lpnext_imm_code v)" "lpnext_imm_code v \<noteq> LP_END"
  by (simp_all add: lp_str_code_unat lpnext_imm_code_def lp_is_immed_def)

lemma lp_bytes_not_Nil [simp]: "lp_str_bytes sz \<noteq> []" "lp_int_bytes v \<noteq> []"
  using lp_imm_code_cases [of v] by (auto simp: lp_str_bytes_def lp_int_bytes_def)

lemma lp_next_entry:
  assumes at: "bytes_at m (lv_next_pos lv) (lp_entry it)" and ok: "lp_item_ok it"
    and fits: "lv_next_pos lv + length (lp_entry it) \<le> lp_end z"
  shows "\<exists>lv'. lp_next m z lv = Some (True, lv') \<and> lv_next_pos lv' = lv_next_pos lv + length (lp_entry it)
    \<and> lp_item_of m lv' = Some it"
proof (cases it)
  case (LpStr d)
  let ?sz = "word_of_nat (length d) :: u32" let ?c = "lpnext_str_code (ucast ?sz)"
  have d: "length d < 4096" using ok LpStr by simp
  have sz: "unat ?sz = length d" using d by (intro unat_of_nat_32) simp
  have b: "bytes_at m (lv_next_pos lv) (lp_str_bytes ?sz)" "bytes_at m (lv_next_pos lv + length (lp_str_bytes ?sz)) d"
    using at by (simp_all add: lp_entry_def LpStr bytes_at_append)
  have v: "lp_val ?c m (lv_next_pos lv) = Some (ucast ?sz)"
    using lp_str_val [OF b(1)] d by (simp only: sz)
  obtain lv' where lv': "lp_next m z lv = Some (True, lv')"
    "lv_next_pos lv' = lv_next_pos lv + length (lp_head it) + length (lp_back (length (lp_head it)))"
    "lv_data lv' = Some (lv_next_pos lv + unat (lp_size ?c))" "lv_data_len lv' = length d"
    using lp_next_step [OF bytes_at_hd [OF b(1)] lp_str_code_first lp_str_int_immed(2) v, of "lp_head it" z] fits
    by (auto simp: lp_str_int_immed LpStr length_lp_str_bytes lp_entry_def unat_ucast_64 sz add.assoc)
  then show ?thesis
    using bytes_at_rdn [OF b(2) refl] by (simp add: lp_entry_def lp_item_of_def length_lp_str_bytes LpStr)
next
  case (LpInt v)
  have b: "bytes_at m (lv_next_pos lv) (lp_int_bytes v)"
    using at by (simp add: lp_entry_def LpInt bytes_at_append)
  have v: "lp_val (lpnext_imm_code v) m (lv_next_pos lv) = Some v"
    using lp_int_val [OF b] ok LpInt by simp
  show ?thesis
    using lp_next_step [OF bytes_at_hd [OF b] lp_int_code_first lp_str_int_immed(4) v, of "lp_head it" z] fits
    by (auto simp: lp_str_int_immed LpInt length_lp_int_bytes lp_entry_def lp_item_of_def add.assoc)
qed

lemma lp_next_end:
  "bytes_at m (lv_next_pos lv) [0xff] \<Longrightarrow> lv_next_pos lv < lp_end z \<Longrightarrow> \<exists>lv'. lp_next m z lv = Some (False, lv')"
  by (simp add: lp_next_def Let_def lv_next_pos_def bytes_at_Cons lp_code_unat)

abbreviation lp_entries :: "lp_item list \<Rightarrow> u8 list" where
  "lp_entries its \<equiv> concat (map lp_entry its)"

lemma iterates_lp_entries:
  assumes "bytes_at m (lv_next_pos lv) (lp_entries its @ [0xff])" "\<forall>it\<in>set its. lp_item_ok it"
    "lv_next_pos lv + length (lp_entries its) < lp_end z"
  shows "\<exists>lvs. iterates (lp_next m z) lv lvs \<and> map (lp_item_of m) lvs = map Some its"
  using assms
proof (induction its arbitrary: lv)
  case Nil
  then show ?case using lp_next_end [of m lv z] by (auto intro: iterates.stop)
next
  case (Cons it its)
  have at: "bytes_at m (lv_next_pos lv) (lp_entry it)"
    using Cons.prems(1) by (simp add: bytes_at_append)
  obtain lv1 where 1: "lp_next m z lv = Some (True, lv1)" "lv_next_pos lv1 = lv_next_pos lv + length (lp_entry it)"
    "lp_item_of m lv1 = Some it"
    using lp_next_entry [OF at, of z] Cons.prems(2,3) by auto
  then obtain lvs where "iterates (lp_next m z) lv1 lvs" "map (lp_item_of m) lvs = map Some its"
    using Cons.IH [of lv1] Cons.prems by (auto simp: bytes_at_append add.assoc)
  then show ?case
    using 1 by (auto intro!: exI [of _ "lv1 # lvs"] iterates.step)
qed

fun pe_append_items :: "lp_item list \<Rightarrow> RdbListPackEncode \<Rightarrow> RdbListPackEncode option" where
  "pe_append_items [] e = Some e"
| "pe_append_items (it # its) e = do { e1 \<leftarrow> pe_append it e; pe_append_items its e1 }"

fun pe_calc_items :: "lp_item list \<Rightarrow> RdbListPackEncode \<Rightarrow> RdbListPackEncode" where
  "pe_calc_items [] e = e"
| "pe_calc_items (it # its) e = pe_calc_items its (pe_calc it e)"

lemma pe_append_items_wrn:
  assumes "unat (pe_off e) + length (lp_entries its) < 2 ^ 32" "unat (pe_off e) + length (lp_entries its) \<le> length (pe_p e)"
  shows "\<exists>e'. pe_append_items its e = Some e' \<and> wrn (pe_p e) (unat (pe_off e)) (lp_entries its) = Some (pe_p e')
    \<and> pe_off e' = pe_off e + word_of_nat (length (lp_entries its)) \<and> pe_items e' = pe_items e + word_of_nat (length its)"
  using assms
proof (induction its arbitrary: e)
  case Nil
  then show ?case by simp
next
  case (Cons it its)
  let ?ent = "lp_entry it"
  obtain e1 where e1: "pe_append it e = Some e1" "wrn (pe_p e) (unat (pe_off e)) ?ent = Some (pe_p e1)"
    "pe_off e1 = pe_off e + word_of_nat (length ?ent)" "pe_items e1 = pe_items e + 1"
    using pe_append_wrn [of e it] Cons.prems by auto
  have off: "unat (pe_off e1) = unat (pe_off e) + length ?ent"
    using Cons.prems(1) by (simp only: e1) (rule unat_off_add, simp)
  have "length (pe_p e1) = length (pe_p e)" using wrn_length [OF e1(2)] .
  then obtain e' where e': "pe_append_items its e1 = Some e'"
    "wrn (pe_p e1) (unat (pe_off e1)) (lp_entries its) = Some (pe_p e')"
    "pe_off e' = pe_off e1 + word_of_nat (length (lp_entries its))" "pe_items e' = pe_items e1 + word_of_nat (length its)"
    using Cons.IH [of e1] Cons.prems off by auto
  have "wrn (pe_p e) (unat (pe_off e)) (lp_entries (it # its)) = Some (pe_p e')"
    using e'(2) wrn_wrn [of "pe_p e" "unat (pe_off e)" ?ent] e1(2) by (simp add: off)
  then show ?case using e' e1 by (simp add: ac_simps)
qed

lemma pe_calc_off:
  "length (lp_head it) < 2 ^ 32 \<Longrightarrow> pe_off (pe_calc it e) = pe_off e + word_of_nat (length (lp_entry it))"
proof (induction it)
  case (LpStr d)
  let ?sz = "word_of_nat (length d) :: u32"
  have "ucast (lp_size (lpnext_str_code (ucast ?sz))) + ?sz = word_of_nat (length (lp_head (LpStr d)))"
    by (simp add: length_lp_str_bytes)
  then show ?case
    using ucast_of_nat_64 [OF LpStr]
    by (simp add: pe_calc_link_def Let_def lp_entry_def length_lp_back del: lp_head.simps of_nat_add)
      (simp add: ac_simps)
next
  case (LpInt v)
  have "ucast (lp_size (lpnext_imm_code v)) = (word_of_nat (length (lp_head (LpInt v))) :: u32)"
    by (simp add: length_lp_int_bytes)
  then show ?case
    using ucast_of_nat_64 [OF LpInt]
    by (simp add: pe_calc_immediate_int_def Let_def lp_entry_def length_lp_back del: lp_head.simps)
qed

fun lp_item_size :: "lp_item \<Rightarrow> nat" where
  "lp_item_size (LpStr d) = length d + 14"
| "lp_item_size (LpInt v) = 14"

lemma length_lp_str_int: "length (lp_str_bytes sz) \<le> 5" "length (lp_int_bytes v) \<le> 9"
  using lp_imm_code_cases [of v] by (simp add: lp_str_bytes_def, auto simp: length_lp_int_bytes)

lemma length_lp_back_32: "n < 2 ^ 32 \<Longrightarrow> length (lp_back n) \<le> 5"
  using lpback_size_32 [of "word_of_nat n"] by (simp only: length_lp_back ucast_of_nat_64)

lemma length_lp_head_le: "length (lp_head it) + 5 \<le> lp_item_size it"
proof (cases it)
  case (LpStr d)
  then show ?thesis using length_lp_str_int(1) [of "word_of_nat (length d)"] by simp
next
  case (LpInt v)
  then show ?thesis using length_lp_str_int(2) [of v] by simp
qed

lemma length_lp_entry_le: "lp_item_size it < 2 ^ 32 \<Longrightarrow> length (lp_entry it) \<le> lp_item_size it"
  using length_lp_head_le [of it] length_lp_back_32 [of "length (lp_head it)"] by (simp add: lp_entry_def)

lemma length_lp_entries_le:
  "(\<Sum>it\<leftarrow>its. lp_item_size it) < 2 ^ 32 \<Longrightarrow> length (lp_entries its) \<le> (\<Sum>it\<leftarrow>its. lp_item_size it)"
proof (induction its)
  case (Cons it its)
  then show ?case using length_lp_entry_le [of it] by simp
qed simp

lemma pe_calc_items_off:
  "(\<Sum>it\<leftarrow>its. lp_item_size it) < 2 ^ 32 \<Longrightarrow>
     pe_off (pe_calc_items its e) = pe_off e + word_of_nat (length (lp_entries its))"
proof (induction its arbitrary: e)
  case (Cons it its)
  then have "length (lp_head it) < 2 ^ 32" using length_lp_head_le [of it] by simp
  then show ?case using Cons by (simp add: pe_calc_off ac_simps)
qed simp

lemma pe_calc_end_off: "pe_off (pe_calc_end e) = pe_off e + 1"
  by (simp add: pe_calc_end_def)

lemma pe_append_end_bytes:
  assumes "bytes_at (pe_p e) 6 xs" "unat (pe_off e) = 6 + length xs" "7 + length xs < 2 ^ 32"
    "7 + length xs \<le> length (pe_p e)"
  shows "\<exists>p. pe_append_end e = Some (e\<lparr>pe_off := pe_off e + 1, pe_p := p\<rparr>)
    \<and> bytes_at p 0 (mem_store 4 (pe_off e + 1))
    \<and> bytes_at p 4 (mem_store 2 (if pe_items e \<le> 0xffff then ucast (pe_items e) else 0xffff :: u16))
    \<and> bytes_at p 6 (xs @ [0xff])"
proof -
  obtain p0 where 0: "wrn (pe_p e) (6 + length xs) [0xff] = Some p0" "length p0 = length (pe_p e)"
    "bytes_at p0 (6 + length xs) [0xff]"
    using assms(4) wrn_ok [of "6 + length xs" "[0xff]" "pe_p e"] by auto
  have l0: "bytes_at p0 6 (xs @ [0xff])"
    using 0 assms(1) by (simp add: bytes_at_append wrn_keeps_bytes [OF 0(1)])
  obtain p1 where 1: "wrn p0 0 (mem_store 4 (pe_off e + 1)) = Some p1" "length p1 = length (pe_p e)"
    "bytes_at p1 0 (mem_store 4 (pe_off e + 1))"
    using assms(4) 0 wrn_ok [of 0 "mem_store 4 (pe_off e + 1)" p0] by auto
  let ?c = "mem_store 2 (if pe_items e \<le> 0xffff then ucast (pe_items e) else 0xffff :: u16)"
  obtain p2 where 2: "wrn p1 4 ?c = Some p2" "length p2 = length (pe_p e)" "bytes_at p2 4 ?c"
    using assms(4) 1 wrn_ok [of 4 ?c p1] by auto
  have "bytes_at p2 6 (xs @ [0xff])" "bytes_at p2 0 (mem_store 4 (pe_off e + 1))"
    using l0 1 2 by (simp_all add: wrn_keeps_bytes [OF 2(1)] wrn_keeps_bytes [OF 1(1)])
  then show ?thesis
    using 0 1 2 assms(2) by (auto simp: pe_append_end_def pe_put_def endian_write_bytes)
qed

lemma lp_init_bytes:
  assumes "bytes_at m p (mem_store 4 zb)" "bytes_at m (p + 4) (mem_store 2 zn)" "7 \<le> unat zb"
  shows "lp_init m p (ucast zb) z = Some (True, z\<lparr>lpbytes := zb, lplen := zn, lp_data := p + 6, lp_end := p + unat zb\<rparr>)"
  using assms
  by (simp add: lp_init_def endian_read_bytes bytes_at_rdn mem_load_store word_less_nat_alt unat_ucast_64)

section \<open>What the two sides disagree on\<close>

lemma mem_load_inj:
  "length xs = length ys \<Longrightarrow> LENGTH('a::len) = 8 * length xs \<Longrightarrow> mem_load xs = (mem_load ys :: 'a word) \<Longrightarrow> xs = ys"
  using mem_store_load [of xs, where 'a = 'a] mem_store_load [of ys, where 'a = 'a] by metis

lemma scast_24_inj: "scast (x :: 24 word) = (scast y :: u64) \<Longrightarrow> x = y"
proof (rule bit_word_eqI)
  fix n assume e: "scast x = (scast y :: u64)" and n: "n < LENGTH(24)"
  have "bit (scast x :: u64) n = bit (scast y :: u64) n" by (simp only: e)
  with n show "bit x n = bit y n" by (auto simp: bit_simps split: if_splits)
qed

lemma lp_int_val_24:
  assumes "bytes_at m p (lp_int_bytes v)" "lpnext_imm_code v = LP_24BIT_INT"
  shows "\<exists>w. lp_val LP_24BIT_INT m p = Some w
    \<and> (w = v \<longleftrightarrow> (ucast (drop_bit 8 v) :: u8) = ucast v \<and> (ucast (drop_bit 16 v) :: u8) = ucast v)"
proof -
  let ?b = "[ucast (drop_bit 16 v), ucast v, ucast (drop_bit 8 v)] :: u8 list"
  let ?l = "[ucast v, ucast (drop_bit 8 v), ucast (drop_bit 16 v)] :: u8 list"
  have s: "(ucast (ucast v :: u16) :: u8) = ucast v" "(ucast (drop_bit 8 (ucast v :: u16)) :: u8) = ucast (drop_bit 8 v)"
    by (rule bit_word_eqI; simp add: bit_simps)+
  have "bytes_at m (Suc p) ?b"
    using assms by (simp add: lp_int_bytes_def bytes_at_Cons mem_store_2 s)
  from bytes_at_rdn [OF this, of 3] have w: "s24 m (Suc p) = Some (scast (mem_load ?b :: 24 word))"
    by (simp add: s24_value)
  have "mem_load ?l = (ucast v :: 24 word)"
  proof (rule bit_word_eqI)
    fix n assume "n < LENGTH(24)"
    then show "bit (mem_load ?l :: 24 word) n = bit (ucast v :: 24 word) n"
      by (cases "n < 8"; cases "n < 16") (auto simp: mem_load_Cons mem_load_Nil bit_simps)
  qed
  moreover have "scast (ucast v :: 24 word) = (ucast v :: u64)"
    using assms(2) by (intro scast_ucast_small) (auto simp: lpnext_imm_code_def split: if_splits)
  ultimately have v: "scast (mem_load ?l :: 24 word) = v" by simp
  have "scast (mem_load ?b :: 24 word) = v \<longleftrightarrow> ?b = ?l"
  proof
    assume "scast (mem_load ?b :: 24 word) = v"
    then have "scast (mem_load ?b :: 24 word) = (scast (mem_load ?l :: 24 word) :: u64)" by (simp only: v)
    then have "mem_load ?b = (mem_load ?l :: 24 word)" by (rule scast_24_inj)
    then show "?b = ?l" by (rule mem_load_inj [rotated 2]) simp_all
  qed (simp only: v)
  moreover have "?b = ?l \<longleftrightarrow> (ucast (drop_bit 8 v) :: u8) = ucast v \<and> (ucast (drop_bit 16 v) :: u8) = ucast v"
    by (simp only: list.inject) metis
  ultimately show ?thesis
    by (intro exI [of _ "scast (mem_load ?b :: 24 word)"]) (simp only: lp_val.simps w Suc_eq_plus1 [symmetric])
qed

lemma pe_append_int_next:
  assumes "unat (pe_off e) + length (lp_entry (LpInt v)) < 2 ^ 32"
    "unat (pe_off e) + length (lp_entry (LpInt v)) \<le> length (pe_p e)"
    "lv_next_pos lv = unat (pe_off e)" "unat (pe_off e) + length (lp_entry (LpInt v)) \<le> lp_end z"
    and val: "\<And>m p. bytes_at m p (lp_int_bytes v) \<Longrightarrow> \<exists>w. lp_val (lpnext_imm_code v) m p = Some w \<and> P w"
  shows "\<exists>e' lv'. pe_append_immediate_int v e = Some e' \<and> lp_next (pe_p e') z lv = Some (True, lv')
    \<and> lv_data lv' = None \<and> P (lv_ival lv')"
proof -
  obtain e' where e': "pe_append_immediate_int v e = Some e'"
    "wrn (pe_p e) (unat (pe_off e)) (lp_entry (LpInt v)) = Some (pe_p e')"
    using pe_append_wrn [of e "LpInt v"] assms(1,2) by auto
  have b: "bytes_at (pe_p e') (lv_next_pos lv) (lp_int_bytes v)"
    using wrn_bytes_at [OF e'(2)] by (simp add: lp_entry_def bytes_at_append assms(3))
  obtain w where w: "lp_val (lpnext_imm_code v) (pe_p e') (lv_next_pos lv) = Some w" "P w"
    using val [OF b] by blast
  show ?thesis
    using lp_next_step [OF bytes_at_hd [OF b] lp_int_code_first lp_str_int_immed(4) w(1), of "lp_head (LpInt v)" z]
      assms(3,4) e'(1) w(2)
    by (auto simp: lp_str_int_immed length_lp_int_bytes lp_entry_def add.assoc)
qed

lemma length_lp_int_entry: "length (lp_entry (LpInt v)) = length (lp_int_bytes v) + 1"
proof -
  have "unat (word_of_nat (length (lp_int_bytes v)) :: u64) < 128 ^ 1"
    using length_lp_str_int(2) [of v] by (simp add: unat_of_nat)
  then have "lpback_loop 1 (word_of_nat (length (lp_int_bytes v))) = 1"
    using lpback_loop_le [of "word_of_nat (length (lp_int_bytes v))" 1 1]
      lpback_loop_ge [of 1 "word_of_nat (length (lp_int_bytes v))"] by simp
  then show ?thesis by (simp add: lp_entry_def length_lp_back lpback_size_def)
qed

section \<open>Properties\<close>

text \<open>C11: Building a listpack and reading it back. For any list of strings of less than 4096 bytes and of
  integers that both sides code alike, a block of the size the calculating pass announces is enough
  for the writing pass, which ends at exactly that offset; the list then opens and the traversal
  yields exactly the items, strings as strings and integers as integers, in order.\<close>

theorem lp_roundtrip:
  assumes "\<forall>it\<in>set its. lp_item_ok it" "(\<Sum>it\<leftarrow>its. lp_item_size it) + 7 < 2 ^ 32"
    "unat (pe_off (pe_calc_end (pe_calc_items its (pe_init b e)))) \<le> length b"
  shows "\<exists>e1 e2 z lvs. pe_append_items its (pe_init b e) = Some e1 \<and> pe_append_end e1 = Some e2
    \<and> pe_off e2 = pe_off (pe_calc_end (pe_calc_items its (pe_init b e)))
    \<and> lp_init (pe_p e2) 0 (ucast (pe_off e2)) z0 = Some (True, z) \<and> lpbytes z = pe_off e2
    \<and> iterates (lp_next (pe_p e2) z) (lv\<lparr>lv_entry := lp_data z, lv_entry_len := 0\<rparr>) lvs
    \<and> map (lp_item_of (pe_p e2)) lvs = map Some its"
proof -
  let ?n = "7 + length (lp_entries its)"
  have lt: "?n < 2 ^ 32" "(\<Sum>it\<leftarrow>its. lp_item_size it) < 2 ^ 32"
    using assms(2) length_lp_entries_le [of its] by simp_all
  have calc: "pe_off (pe_calc_end (pe_calc_items its (pe_init b e))) = word_of_nat ?n"
    by (simp add: pe_calc_end_def pe_calc_items_off [OF lt(2)]) (simp add: pe_init_def)
  have un: "unat (word_of_nat ?n :: u32) = ?n" using lt(1) by (rule unat_of_nat_32)
  have fits: "?n \<le> length b" using assms(3) by (simp only: calc un)
  have init: "pe_off (pe_init b e) = 6" "pe_p (pe_init b e) = b" by (simp_all add: pe_init_def)
  obtain e1 where e1: "pe_append_items its (pe_init b e) = Some e1" "wrn b 6 (lp_entries its) = Some (pe_p e1)"
    "pe_off e1 = 6 + word_of_nat (length (lp_entries its))"
    using pe_append_items_wrn [of "pe_init b e" its] lt(1) fits by (auto simp: init)
  have off1: "unat (pe_off e1) = 6 + length (lp_entries its)"
    using lt(1) unat_off_add [of 6 "length (lp_entries its)"] by (simp add: e1(3))
  have "7 + length (lp_entries its) \<le> length (pe_p e1)" using fits wrn_length [OF e1(2)] by simp
  from pe_append_end_bytes [OF wrn_bytes_at [OF e1(2)] off1 lt(1) this] obtain p zn where
    p: "pe_append_end e1 = Some (e1\<lparr>pe_off := pe_off e1 + 1, pe_p := p\<rparr>)"
    "bytes_at p 0 (mem_store 4 (pe_off e1 + 1))" "bytes_at p 4 (mem_store 2 (zn :: u16))"
    "bytes_at p 6 (lp_entries its @ [0xff])" by blast
  have off: "pe_off e1 + 1 = word_of_nat ?n" by (simp add: e1(3))
  have "7 \<le> unat (pe_off e1 + 1)" unfolding off un by simp
  from lp_init_bytes [of p 0, unfolded add_0, OF p(2,3) this, of z0]
  have z: "lp_init p 0 (ucast (pe_off e1 + 1)) z0
      = Some (True, z0\<lparr>lpbytes := pe_off e1 + 1, lplen := zn, lp_data := 6, lp_end := ?n\<rparr>)" (is "_ = Some (True, ?z)")
    by (simp only: off un)
  obtain lvs where "iterates (lp_next p ?z) (lv\<lparr>lv_entry := 6, lv_entry_len := 0\<rparr>) lvs"
    "map (lp_item_of p) lvs = map Some its"
    using iterates_lp_entries [of p "lv\<lparr>lv_entry := 6, lv_entry_len := 0\<rparr>" its ?z] p(4) assms(1)
    by (auto simp: lv_next_pos_def)
  then show ?thesis
    using e1(1) p(1) z calc off
    by (intro exI [of _ e1] exI [of _ "e1\<lparr>pe_off := pe_off e1 + 1, pe_p := p\<rparr>"] exI [of _ ?z] exI [of _ lvs]) simp
qed

theorem lp_roundtrip_witness:
  "lp_item_ok (LpStr [1, 2]) \<and> lp_item_ok (LpInt (-5000))
   \<and> (\<exists>E e1 e2. pe_append_items [LpStr [1, 2], LpInt (-5000)] (pe_init (replicate 15 0) E) = Some e1 \<and> pe_append_end e1 = Some e2)"
proof -
  have ok: "\<forall>it\<in>set [LpStr [1, 2], LpInt (-5000)]. lp_item_ok it"
    by (simp add: lp_int_ok_def lpnext_imm_code_def)
  have l: "length (lp_entries [LpStr [1, 2], LpInt (-5000)]) = 8"
    by (simp add: length_lp_int_entry length_lp_int_bytes lpnext_imm_code_def)
      (simp add: lp_entry_def lp_str_bytes_def length_lp_back lpback_size_def lpback_loop.simps)
  have "unat (pe_off (pe_calc_end (pe_calc_items [LpStr [1, 2], LpInt (-5000)] (pe_init (replicate 15 0) E)))) = 15" for E
    by (simp only: pe_calc_end_off, subst pe_calc_items_off) (simp, simp only: l, simp add: pe_init_def)
  then show ?thesis
    using ok lp_roundtrip [OF ok, of "replicate 15 0"] by fastforce
qed

text \<open>C30: Traversing any listpack whose bytes are there. When the list opened and the block holds the
  \<open>lpbytes\<close> bytes its header announces, the loop over \<open>next\<close> ends for every content of
  the list, after at most \<open>lpbytes - 6\<close> elements, without reading outside the block, and every string it
  yields lies inside the list.\<close>

theorem lp_traversal_safe:
  assumes "lp_init m b sz z0 = Some (True, z)" "b + unat (lpbytes z) \<le> length m"
  shows "\<exists>lvs. iterates (lp_next m z) (lv\<lparr>lv_entry := lp_data z, lv_entry_len := 0\<rparr>) lvs
    \<and> length lvs \<le> unat (lpbytes z) - 6
    \<and> (\<forall>v\<in>set lvs. \<forall>d. lv_data v = Some d \<longrightarrow> d + lv_data_len v \<le> b + unat (lpbytes z))"
proof -
  have z: "lpbytes z \<noteq> 0" "lp_data z = b + 6" "lp_end z = b + unat (lpbytes z)"
    using assms(1) by (auto simp: lp_init_def Let_def bind_Some_iff word_less_nat_alt split: if_splits)
  then have safe: "lp_end z \<le> length m" using assms(2) by simp
  let ?lv = "lv\<lparr>lv_entry := lp_data z, lv_entry_len := 0\<rparr>"
  obtain lvs where lvs: "iterates (lp_next m z) ?lv lvs"
    using lp_cursor.iterates_total [OF z(1) safe] by blast
  then show ?thesis
    using lp_cursor.iterates_bounded [OF lvs z(1)] lp_cursor.iterates_inside [OF lvs z(1)] z
    by (auto simp: lv_next_pos_def)
qed

theorem lp_traversal_safe_witness:
  "\<exists>z lvs. lp_init [9, 0, 0, 0, 1, 0, 7, 1, 0xff] 0 9 \<lparr>lpbytes = 0, lplen = 0, lp_data = 0, lp_end = 0\<rparr> = Some (True, z)
     \<and> iterates (lp_next [9, 0, 0, 0, 1, 0, 7, 1, 0xff] z) \<lparr>lv_data = None, lv_entry = 6, lv_data_len = 0,
        lv_entry_len = 0, lv_ival = 0\<rparr> lvs"
proof -
  let ?m = "[9, 0, 0, 0, 1, 0, 7, 1, 0xff] :: u8 list"
  let ?z = "\<lparr>lpbytes = 9, lplen = 1, lp_data = 6, lp_end = 9\<rparr>"
  have "lp_init ?m 0 9 \<lparr>lpbytes = 0, lplen = 0, lp_data = 0, lp_end = 0\<rparr> = Some (True, ?z)"
    by code_simp
  then show ?thesis
    using lp_traversal_safe [of ?m 0 9 "\<lparr>lpbytes = 0, lplen = 0, lp_data = 0, lp_end = 0\<rparr>" ?z
      "\<lparr>lv_data = None, lv_entry = 6, lv_data_len = 0, lv_entry_len = 0, lv_ival = 0\<rparr>"] by auto
qed

text \<open>C33: A negative integer of the 13 bit class does not survive. \<open>encode_immediate_int\<close> keeps only
  the four high bits below the sign bit, so every integer from -4096 to -1 that is appended is read back as
  itself plus 4096.\<close>

theorem lp_negative_13bit:
  assumes "- 4096 \<le> sint v" "sint v < 0" "unat (pe_off e) + 3 < 2 ^ 32" "unat (pe_off e) + 3 \<le> length (pe_p e)"
    "lv_next_pos lv = unat (pe_off e)" "unat (pe_off e) + 3 \<le> lp_end z"
  shows "\<exists>e' lv'. pe_append_immediate_int v e = Some e' \<and> lp_next (pe_p e') z lv = Some (True, lv')
    \<and> lv_data lv' = None \<and> sint (lv_ival lv') = sint v + 4096"
proof -
  have c: "lpnext_imm_code v = LP_13BIT_INT" using assms(1,2) by (simp add: lpnext_imm_code_def)
  have "sint v mod 4096 = sint v + 4096"
    using mod_pos_pos_trivial [of "sint v + 4096" 4096] assms(1,2) by simp
  then have "bytes_at m p (lp_int_bytes v) \<Longrightarrow> \<exists>w. lp_val (lpnext_imm_code v) m p = Some w \<and> sint w = sint v + 4096" for m p
    using lp_int_val_13 [OF _ c] by (simp add: c)
  then show ?thesis
    using assms(3-6) by (intro pe_append_int_next) (simp_all add: length_lp_int_entry length_lp_int_bytes c)
qed

theorem lp_negative_13bit_witness:
  "\<exists>e e' lv'. pe_append_immediate_int (-1) e = Some e'
     \<and> lp_next (pe_p e') \<lparr>lpbytes = 9, lplen = 1, lp_data = 6, lp_end = 9\<rparr>
         \<lparr>lv_data = None, lv_entry = 6, lv_data_len = 0, lv_entry_len = 0, lv_ival = 0\<rparr> = Some (True, lv')
     \<and> sint (lv_ival lv') = 4095"
  using lp_negative_13bit [of "-1" "\<lparr>pe_next = LP_END, pe_link_sz = 0, pe_off = 6, pe_items = 0, pe_p = replicate 10 0\<rparr>"
    "\<lparr>lv_data = None, lv_entry = 6, lv_data_len = 0, lv_entry_len = 0, lv_ival = 0\<rparr>"
    "\<lparr>lpbytes = 9, lplen = 1, lp_data = 6, lp_end = 9\<rparr>"]
  by (auto simp: lv_next_pos_def)

text \<open>C34: An integer of the 24 bit class (from 32768, or below -32768, up to 23 bits) survives only when its three
  low bytes are equal: the encoder writes the high byte first and the other two little endian, the decoder
  reads all three little endian.\<close>

theorem lp_24bit_order:
  assumes "lpnext_imm_code v = LP_24BIT_INT" "unat (pe_off e) + 5 < 2 ^ 32" "unat (pe_off e) + 5 \<le> length (pe_p e)"
    "lv_next_pos lv = unat (pe_off e)" "unat (pe_off e) + 5 \<le> lp_end z"
  shows "\<exists>e' lv'. pe_append_immediate_int v e = Some e' \<and> lp_next (pe_p e') z lv = Some (True, lv')
    \<and> lv_data lv' = None
    \<and> (lv_ival lv' = v \<longleftrightarrow> (ucast (drop_bit 8 v) :: u8) = ucast v \<and> (ucast (drop_bit 16 v) :: u8) = ucast v)"
  using assms lp_int_val_24 [OF _ assms(1)]
  by (intro pe_append_int_next) (simp_all add: length_lp_int_entry length_lp_int_bytes)

theorem lp_24bit_order_witness:
  "\<exists>e e' lv'. pe_append_immediate_int 100000 e = Some e'
     \<and> lp_next (pe_p e') \<lparr>lpbytes = 11, lplen = 1, lp_data = 6, lp_end = 11\<rparr>
         \<lparr>lv_data = None, lv_entry = 6, lv_data_len = 0, lv_entry_len = 0, lv_ival = 0\<rparr> = Some (True, lv')
     \<and> lv_ival lv' \<noteq> 100000"
  using lp_24bit_order [of 100000 "\<lparr>pe_next = LP_END, pe_link_sz = 0, pe_off = 6, pe_items = 0, pe_p = replicate 12 0\<rparr>"
    "\<lparr>lv_data = None, lv_entry = 6, lv_data_len = 0, lv_entry_len = 0, lv_ival = 0\<rparr>"
    "\<lparr>lpbytes = 11, lplen = 1, lp_data = 6, lp_end = 11\<rparr>"]
  by (auto simp: lv_next_pos_def lpnext_imm_code_def)

text \<open>C35: The length of a string of 4096 bytes or more is written big endian and read little endian:
  the decoder sees the byte-swapped length.\<close>

theorem lp_long_string_swapped:
  assumes "4096 \<le> length d" "unat (pe_off e) + length d + 10 < 2 ^ 32" "unat (pe_off e) + length d + 10 \<le> length (pe_p e)"
  shows "\<exists>e'. pe_append_link d (word_of_nat (length d)) e = Some e'
    \<and> map_option lp_code (rd8 (pe_p e') (unat (pe_off e))) = Some LP_32BIT_STR
    \<and> lp_val LP_32BIT_STR (pe_p e') (unat (pe_off e)) = Some (ucast (rdb_int_bswap32 (word_of_nat (length d))))"
proof -
  let ?sz = "word_of_nat (length d) :: u32"
  have sz: "unat ?sz = length d" using assms(2) by (intro unat_of_nat_32) simp
  have h: "lp_str_bytes ?sz = 0xf0 # rev (mem_store 4 ?sz)" using assms(1) by (simp add: lp_str_bytes_def sz)
  have "length (lp_back (length (lp_head (LpStr d)))) \<le> 5"
    using assms(2) by (intro length_lp_back_32) (simp add: h)
  then have le: "length (lp_entry (LpStr d)) \<le> length d + 10" by (simp add: lp_entry_def h)
  then obtain e' where e': "pe_append_link d ?sz e = Some e'"
    "wrn (pe_p e) (unat (pe_off e)) (lp_entry (LpStr d)) = Some (pe_p e')"
    using pe_append_wrn [of e "LpStr d"] assms(2,3) by auto
  have b: "bytes_at (pe_p e') (unat (pe_off e)) (0xf0 # rev (mem_store 4 ?sz))"
    using wrn_bytes_at [OF e'(2)] by (simp add: lp_entry_def bytes_at_Cons bytes_at_append h)
  have "mem_load (rev (mem_store 4 ?sz)) = rdb_int_bswap32 ?sz" by (simp add: rdb_int_bswap32_def)
  then show ?thesis
    using e'(1) b bytes_at_rdn [of "pe_p e'" "Suc (unat (pe_off e))" "rev (mem_store 4 ?sz)" 4]
    by (auto simp: bytes_at_Cons lp_code_unat l32_def endian_read_bytes)
qed

theorem lp_long_string_swapped_witness:
  "\<exists>e e'. pe_append_link (replicate 4096 0) (word_of_nat (length (replicate 4096 (0 :: u8)))) e = Some e'
    \<and> lp_val LP_32BIT_STR (pe_p e') 6 = Some (ucast (rdb_int_bswap32 (word_of_nat (length (replicate 4096 (0 :: u8))))))"
  using lp_long_string_swapped [of "replicate 4096 0"
    "\<lparr>pe_next = LP_END, pe_link_sz = 0, pe_off = 6, pe_items = 0, pe_p = replicate 5000 0\<rparr>"]
  by auto

end
