(* ===== verification/Rdb_Lists.thy ===== *)
theory Rdb_Lists
  imports Rdb_Elements Rdb_Zip Rdb_Pack
begin

text \<open>
  The bodies packed in ziplists and listpacks (\<open>src/rdb_decode.cpp\<close>): \<open>decode_ziplist\<close>,
  \<open>decode_quicklist\<close>, \<open>decode_quicklist_2\<close> and \<open>decode_listpack\<close>.
\<close>

section \<open>Elements\<close>

text \<open>\<open>decode_lval\<close>: the data of an element lies in the block that holds the list.\<close>

definition decode_lval :: "ptr \<Rightarrow> RdbListValue \<Rightarrow> RdbString \<Rightarrow> RdbString" where
  "decode_lval b lv r = (case lv_data lv of
       Some d \<Rightarrow> set_str (Ptr (heap b) (pmem b) d) (word_of_nat (lv_data_len lv)) r
     | None \<Rightarrow> set_i64 (lv_ival lv) r)"

text \<open>
  The two loops over a list, on its function \<open>next\<close>: over single elements, and over pairs of
  them. The loops start from a \<open>lval\<close> that \<open>first\<close> has filled. The first argument bounds the
  number of rounds, see \<open>elem_loop_runs\<close> and \<open>pair_loop_runs\<close>.
\<close>

fun elem_loop :: "nat \<Rightarrow> (RdbListValue \<Rightarrow> (bool \<times> RdbListValue) option) \<Rightarrow> ptr
    \<Rightarrow> (nat \<Rightarrow> RdbString \<Rightarrow> RdbString RdbEvent) \<Rightarrow> nat \<Rightarrow> RdbListValue \<Rightarrow> (RdbDecode, nat) prog" where
  "elem_loop 0 nxt b ev num lv = checked None"
| "elem_loop (Suc k) nxt b ev num lv =
     andThen (emit (ev num (decode_lval b lv RdbString_new))) (\<lambda>_.
     andThen (checked (nxt lv)) (\<lambda>(more, lv').
     if \<not> more then ret num else elem_loop k nxt b ev (Suc num) lv'))"

fun pair_loop :: "nat \<Rightarrow> (RdbListValue \<Rightarrow> (bool \<times> RdbListValue) option) \<Rightarrow> ptr
    \<Rightarrow> (nat \<Rightarrow> RdbString \<Rightarrow> RdbString \<Rightarrow> RdbString RdbEvent) \<Rightarrow> nat \<Rightarrow> RdbListValue \<Rightarrow> (RdbDecode, unit) prog" where
  "pair_loop 0 nxt b ev num lv = checked None"
| "pair_loop (Suc k) nxt b ev num lv =
     andThen (checked (nxt lv)) (\<lambda>(more, lv1).
     if \<not> more then ret ()
     else andThen (emit (ev num (decode_lval b lv RdbString_new) (decode_lval b lv1 RdbString_new))) (\<lambda>_.
     andThen (checked (nxt lv1)) (\<lambda>(more, lv2).
     if \<not> more then ret () else pair_loop k nxt b ev (Suc num) lv2)))"

text \<open>\<open>if ( first( lval ) )\<close> and the loop; the fuel is one more than the end of the list.\<close>

definition each_pair where
  "each_pair first nxt fuel b ev = andThen (checked first) (\<lambda>(more, lv).
     if more then pair_loop fuel nxt b ev 0 lv else ret ())"

definition each_elem where
  "each_elem first nxt fuel b ev num = andThen (checked first) (\<lambda>(more, lv).
     if more then elem_loop fuel nxt b ev num lv else ret num)"

text \<open>A local \<open>RdbListValue\<close>, not initialised: \<open>first\<close> sets every field.\<close>

definition RdbListValue_new :: RdbListValue where
  "RdbListValue_new = \<lparr>lv_data = None, lv_entry = 0, lv_data_len = 0, lv_entry_len = 0, lv_ival = 0\<rparr>"

definition RdbListPack_new :: RdbListPack where
  "RdbListPack_new = \<lparr>lpbytes = 0, lplen = 0, lp_data = 0, lp_end = 0\<rparr>"

section \<open>Ziplists\<close>

definition zip_pairs :: "RdbZipList \<Rightarrow> ptr \<Rightarrow> (nat \<Rightarrow> RdbString \<Rightarrow> RdbString \<Rightarrow> RdbString RdbEvent) \<Rightarrow> (RdbDecode, unit) prog" where
  "zip_pairs z b ev = each_pair (zip_first (pmem b) z RdbListValue_new) (zip_next (pmem b) z) (Suc (zl_end z)) b ev"

definition zip_elems :: "RdbZipList \<Rightarrow> ptr \<Rightarrow> (nat \<Rightarrow> RdbString \<Rightarrow> RdbString RdbEvent) \<Rightarrow> nat \<Rightarrow> (RdbDecode, nat) prog" where
  "zip_elems z b ev num = each_elem (zip_first (pmem b) z RdbListValue_new) (zip_next (pmem b) z) (Suc (zl_end z)) b ev num"

definition decode_ziplist :: "(RdbDecode, unit) prog" where
  "decode_ziplist = andThen start_key (\<lambda>_. andThen (gets (\<lambda>s. l_len (dec_rlen s))) (\<lambda>n.
     andThen (incr_or_trunc (unat n)) (\<lambda>b.
     andThen (checked (zip_init (pmem b) (ppos b) n RdbZipList_new)) (\<lambda>(ok, z).
     if \<not> ok then throw RDB_ERR_TRUNC
     else andThen (gets dec_type) (\<lambda>t.
     andThen (case t of
         RDB_ZSET_ZIPLIST \<Rightarrow> zip_pairs z b (\<lambda>num. D_zset num (unat (zllen z) div 2))
       | RDB_LIST_ZIPLIST \<Rightarrow> andThen (zip_elems z b (\<lambda>num. D_list num (unat (zllen z))) 0) (\<lambda>_. ret ())
       | _ \<Rightarrow> zip_pairs z b (\<lambda>num. D_hash num (unat (zllen z) div 2))) (\<lambda>_.
     end_key))))))"

section \<open>Quicklists of ziplists\<close>

text \<open>
  \<open>num\<close> counts across the ziplists. The inner loop breaks before its increment, so the first
  element of a ziplist has the number of the last one of the ziplist before.
\<close>

fun quicklist_loop :: "nat \<Rightarrow> nat \<Rightarrow> rdb_env \<Rightarrow> (RdbDecode, unit) prog" where
  "quicklist_loop 0 num E = ret ()"
| "quicklist_loop (Suc k) num E = andThen (onb (decode RdbLength_zero)) (\<lambda>L.
     andThen (onb (consume E L)) (\<lambda>b.
     andThen (checked (zip_init (pmem b) (ppos b) (l_len L) RdbZipList_new)) (\<lambda>(ok, z).
     if \<not> ok then throw RDB_ERR_TRUNC
     else andThen (zip_elems z b (\<lambda>num. D_list num 0) num) (\<lambda>num. quicklist_loop k num E))))"

definition decode_quicklist :: "rdb_env \<Rightarrow> (RdbDecode, unit) prog" where
  "decode_quicklist E = andThen start_key (\<lambda>_. andThen (gets (\<lambda>s. unat (l_len (dec_rlen s)))) (\<lambda>cnt.
     andThen (quicklist_loop cnt 0 E) (\<lambda>_. end_key)))"

section \<open>Listpacks\<close>

definition lp_pairs :: "RdbListPack \<Rightarrow> ptr \<Rightarrow> (nat \<Rightarrow> RdbString \<Rightarrow> RdbString \<Rightarrow> RdbString RdbEvent) \<Rightarrow> (RdbDecode, unit) prog" where
  "lp_pairs z b ev = each_pair (lp_first (pmem b) z RdbListValue_new) (lp_next (pmem b) z) (Suc (lp_end z)) b ev"

definition lp_elems :: "RdbListPack \<Rightarrow> ptr \<Rightarrow> (nat \<Rightarrow> RdbString \<Rightarrow> RdbString RdbEvent) \<Rightarrow> nat \<Rightarrow> (RdbDecode, nat) prog" where
  "lp_elems z b ev num = each_elem (lp_first (pmem b) z RdbListValue_new) (lp_next (pmem b) z) (Suc (lp_end z)) b ev num"

fun quicklist_2_loop :: "nat \<Rightarrow> nat \<Rightarrow> rdb_env \<Rightarrow> (RdbDecode, unit) prog" where
  "quicklist_2_loop 0 num E = ret ()"
| "quicklist_2_loop (Suc k) num E = andThen (onb (decode RdbLength_zero)) (\<lambda>container.
     andThen (onb (decode RdbLength_zero)) (\<lambda>L.
     andThen (onb (consume E L)) (\<lambda>b.
     if l_len container = 2 then
       andThen (checked (lp_init (pmem b) (ppos b) (l_len L) RdbListPack_new)) (\<lambda>(ok, z).
       if \<not> ok then throw RDB_ERR_TRUNC
       else andThen (lp_elems z b (\<lambda>num. D_list num 0) num) (\<lambda>num. quicklist_2_loop k num E))
     else throw RDB_ERR_NOTSUP)))"

definition decode_quicklist_2 :: "rdb_env \<Rightarrow> (RdbDecode, unit) prog" where
  "decode_quicklist_2 E = andThen start_key (\<lambda>_. andThen (gets (\<lambda>s. unat (l_len (dec_rlen s)))) (\<lambda>cnt.
     andThen (quicklist_2_loop cnt 0 E) (\<lambda>_. end_key)))"

definition decode_listpack :: "(RdbDecode, unit) prog" where
  "decode_listpack = andThen start_key (\<lambda>_. andThen (gets (\<lambda>s. l_len (dec_rlen s))) (\<lambda>n.
     andThen (incr_or_trunc (unat n)) (\<lambda>b.
     andThen (checked (lp_init (pmem b) (ppos b) n RdbListPack_new)) (\<lambda>(ok, z).
     if \<not> ok then throw RDB_ERR_TRUNC
     else andThen (gets dec_type) (\<lambda>t.
     andThen (case t of
         RDB_HASH_LISTPACK \<Rightarrow> lp_pairs z b (\<lambda>num. D_hash num 0)
       | RDB_ZSET_LISTPACK \<Rightarrow> lp_pairs z b (\<lambda>num. D_zset num 0)
       | _ \<Rightarrow> throw RDB_ERR_NOTSUP) (\<lambda>_.
     end_key))))))"

end
