(* ===== verification/Rdb_Stream.thy ===== *)
theory Rdb_Stream
  imports Rdb_Lists
begin

text \<open>
  The body of a stream: \<open>RdbStreamEntry\<close> and \<open>decode_stream\<close>
  (\<open>include/rdbparser/rdb_decode.h\<close>, \<open>src/rdb_decode.cpp\<close>).
\<close>

section \<open>Stream entries\<close>

text \<open>
  The three arrays of an entry lie in \<open>tmp\<close>, from an index on, or in a block of their own, which
  has a number.
  \<open>fields\<close> may be the same array as \<open>master\<close>. \<open>se_freed\<close> has the blocks given back so far.
\<close>

datatype arr_place = ANull | ATmp nat | AHeap nat

record RdbStreamEntry =
  se_num :: nat
  se_id :: RdbStreamRecId
  se_diff :: RdbStreamRecId
  items_count :: u64
  deleted_count :: u64
  master_field_count :: u64
  entry_field_count :: u64
  se_flags :: u32
  se_master :: "arr_place \<times> RdbListValue list"
  se_fields :: "arr_place \<times> RdbListValue list"
  se_values :: "arr_place \<times> RdbListValue list"
  se_freed :: "nat list"
  se_blocks :: nat

definition RdbStreamEntry_new :: RdbStreamEntry where
  "RdbStreamEntry_new = \<lparr>se_num = 0, se_id = \<lparr>rec_ms = 0, rec_ser = 0\<rparr>, se_diff = \<lparr>rec_ms = 0, rec_ser = 0\<rparr>,
     items_count = 0, deleted_count = 0, master_field_count = 0, entry_field_count = 0, se_flags = 0,
     se_master = (ANull, []), se_fields = (ANull, []), se_values = (ANull, []), se_freed = [], se_blocks = 0\<rparr>"

definition TMP_SIZE :: nat where
  "TMP_SIZE = 64"

definition RDB_STREAM_ENTRY_DELETED :: u32 where
  "RDB_STREAM_ENTRY_DELETED = 1"

definition RDB_STREAM_ENTRY_SAMEFIELDS :: u32 where
  "RDB_STREAM_ENTRY_SAMEFIELDS = 2"

text \<open>
  \<open>release\<close> frees what is not in \<open>tmp\<close>, and takes the end of \<open>tmp\<close> for a block. Freeing a block
  twice, or what is no block, is a fault.
\<close>

definition release :: "arr_place \<Rightarrow> (RdbStreamEntry, unit) prog" where
  "release p = (case p of
       AHeap i \<Rightarrow> andThen (gets se_freed) (\<lambda>fr.
         if i \<in> set fr then checked None else modify (\<lambda>e. e\<lparr>se_freed := i # fr\<rparr>))
     | ATmp i \<Rightarrow> if i < TMP_SIZE then ret () else checked None
     | ANull \<Rightarrow> ret ())"

text \<open>The destructor.\<close>

definition stream_entry_drop :: "(RdbStreamEntry, unit) prog" where
  "stream_entry_drop = andThen (gets (\<lambda>e. fst (se_master e))) (\<lambda>p. andThen (release p) (\<lambda>_.
     andThen (gets (\<lambda>e. fst (se_fields e))) (\<lambda>p. andThen (release p) (\<lambda>_.
     andThen (gets (\<lambda>e. fst (se_values e))) (\<lambda>p. release p)))))"

text \<open>
  \<open>malloc( sizeof( RdbListValue ) * n )\<close>, 40 bytes an element, with the product cut to 64 bits:
  the place of the block and the number of elements it holds.
\<close>

definition alloc_fields :: "rdb_env \<Rightarrow> u64 \<Rightarrow> (RdbStreamEntry, arr_place \<times> nat) prog" where
  "alloc_fields E n =
     (if malloc_ok E (40 * n) then andThen (gets se_blocks) (\<lambda>i.
        andThen (modify (\<lambda>e. e\<lparr>se_blocks := Suc i\<rparr>)) (\<lambda>_. ret (AHeap i, unat (40 * n) div 40)))
      else ret (ANull, 0))"

text \<open>\<open>next_ival\<close> and what it leaves in \<open>lval\<close>.\<close>

definition get_ival :: "u8 list \<Rightarrow> RdbListPack \<Rightarrow> RdbListValue \<Rightarrow> (RdbStreamEntry, bool \<times> RdbListValue) prog" where
  "get_ival m z lv = checked (lp_next_ival m z lv)"

text \<open>The loop over the master fields: rounds left, index, room in the array.\<close>

fun fill_master :: "nat \<Rightarrow> nat \<Rightarrow> nat \<Rightarrow> u8 list \<Rightarrow> RdbListPack \<Rightarrow> RdbListValue \<Rightarrow> (RdbStreamEntry, bool \<times> RdbListValue) prog" where
  "fill_master 0 i room m z lv = ret (True, lv)"
| "fill_master (Suc k) i room m z lv = andThen (checked (lp_next m z lv)) (\<lambda>(ok, lv).
     if \<not> ok then ret (False, lv)
     else if room \<le> i then checked None
     else andThen (modify (\<lambda>e. e\<lparr>se_master := (fst (se_master e), snd (se_master e) @ [lv])\<rparr>)) (\<lambda>_.
       fill_master k (Suc i) room m z lv))"

definition read_header :: "rdb_env \<Rightarrow> u8 list \<Rightarrow> RdbListPack \<Rightarrow> RdbListValue \<Rightarrow> (RdbStreamEntry, bool \<times> RdbListValue) prog" where
  "read_header E m z lv =
     andThen (checked (lp_first_ival m z lv)) (\<lambda>(b0, lv).
     andThen (modify (\<lambda>e. e\<lparr>items_count := lv_ival lv\<rparr>)) (\<lambda>_.
     andThen (get_ival m z lv) (\<lambda>(b1, lv).
     andThen (modify (\<lambda>e. e\<lparr>deleted_count := lv_ival lv\<rparr>)) (\<lambda>_.
     andThen (get_ival m z lv) (\<lambda>(b2, lv).
     andThen (modify (\<lambda>e. e\<lparr>master_field_count := lv_ival lv\<rparr>)) (\<lambda>_.
     if \<not> (b0 \<and> b1 \<and> b2) then ret (False, lv)
     else andThen (gets master_field_count) (\<lambda>n.
     andThen (if unat n > TMP_SIZE then alloc_fields E n else ret (ATmp 0, TMP_SIZE)) (\<lambda>(p, room).
     andThen (modify (\<lambda>e. e\<lparr>se_master := (p, [])\<rparr>)) (\<lambda>_.
     andThen (fill_master (unat n) 0 room m z lv) (\<lambda>(ok, lv).
     if \<not> ok then ret (False, lv) else checked (lp_next m z lv)))))))))))"

text \<open>The loop over the fields and values of an entry; \<open>b\<close> remembers a failed step.\<close>

fun fill_entry :: "nat \<Rightarrow> nat \<Rightarrow> bool \<Rightarrow> bool \<Rightarrow> nat \<Rightarrow> nat \<Rightarrow> u8 list \<Rightarrow> RdbListPack \<Rightarrow> RdbListValue \<Rightarrow> (RdbStreamEntry, bool \<times> RdbListValue) prog" where
  "fill_entry 0 i b same froom vroom m z lv = ret (b, lv)"
| "fill_entry (Suc k) i b same froom vroom m z lv =
     andThen (if same then ret (True, lv)
       else andThen (checked (lp_next m z lv)) (\<lambda>(ok, lv).
         if froom \<le> i then checked None
         else andThen (modify (\<lambda>e. e\<lparr>se_fields := (fst (se_fields e), snd (se_fields e) @ [lv])\<rparr>)) (\<lambda>_. ret (ok, lv)))) (\<lambda>(b1, lv).
     andThen (checked (lp_next m z lv)) (\<lambda>(b2, lv).
     if vroom \<le> i then checked None
     else andThen (modify (\<lambda>e. e\<lparr>se_values := (fst (se_values e), snd (se_values e) @ [lv])\<rparr>)) (\<lambda>_.
       fill_entry k (Suc i) (b \<and> b1 \<and> b2) same froom vroom m z lv)))"

text \<open>
  Where the fields go: with fields of their own, \<open>tmp\<close> behind the master fields if there is room
  or a new block; otherwise the master array. The result is the room for the fields and what is
  left of \<open>tmp\<close>.
\<close>

definition entry_fields :: "rdb_env \<Rightarrow> bool \<Rightarrow> nat \<Rightarrow> u8 list \<Rightarrow> RdbListPack \<Rightarrow> RdbListValue
    \<Rightarrow> (RdbStreamEntry, bool \<times> RdbListValue \<times> bool \<times> nat) prog" where
  "entry_fields E same sz m z lv =
     (if \<not> same then andThen (get_ival m z lv) (\<lambda>(ok, lv).
        andThen (modify (\<lambda>e. e\<lparr>entry_field_count := lv_ival lv\<rparr>)) (\<lambda>_.
        if \<not> ok then ret (False, lv, False, sz)
        else if unat (lv_ival lv) \<le> sz then andThen (modify (\<lambda>e. e\<lparr>se_fields := (ATmp (TMP_SIZE - sz), [])\<rparr>)) (\<lambda>_.
          ret (True, lv, True, sz - unat (lv_ival lv)))
        else ret (True, lv, False, sz)))
      else andThen (modify (\<lambda>e. e\<lparr>entry_field_count := master_field_count e, se_fields := se_master e\<rparr>)) (\<lambda>_.
        ret (True, lv, True, sz)))"

definition read_entry :: "rdb_env \<Rightarrow> u8 list \<Rightarrow> RdbListPack \<Rightarrow> RdbListValue \<Rightarrow> (RdbStreamEntry, bool \<times> RdbListValue) prog" where
  "read_entry E m z lv =
     andThen (get_ival m z lv) (\<lambda>(b0, lv).
     andThen (modify (\<lambda>e. e\<lparr>se_flags := ucast (lv_ival lv)\<rparr>)) (\<lambda>_.
     andThen (get_ival m z lv) (\<lambda>(b1, lv).
     andThen (modify (\<lambda>e. e\<lparr>se_diff := (se_diff e)\<lparr>rec_ms := lv_ival lv\<rparr>\<rparr>)) (\<lambda>_.
     andThen (get_ival m z lv) (\<lambda>(b2, lv).
     andThen (modify (\<lambda>e. e\<lparr>se_diff := (se_diff e)\<lparr>rec_ser := lv_ival lv\<rparr>\<rparr>)) (\<lambda>_.
     if \<not> (b0 \<and> b1 \<and> b2) then ret (False, lv)
     else andThen (gets (\<lambda>e. if fst (se_master e) = ATmp 0 then TMP_SIZE - unat (master_field_count e) else TMP_SIZE)) (\<lambda>sz.
     andThen (gets (\<lambda>e. fst (se_fields e))) (\<lambda>p. andThen (release p) (\<lambda>_.
     andThen (gets (\<lambda>e. fst (se_values e))) (\<lambda>p. andThen (release p) (\<lambda>_.
     andThen (modify (\<lambda>e. e\<lparr>se_fields := (ANull, []), se_values := (ANull, [])\<rparr>)) (\<lambda>_.
     andThen (gets (\<lambda>e. se_flags e AND RDB_STREAM_ENTRY_SAMEFIELDS \<noteq> 0)) (\<lambda>same.
     andThen (entry_fields E same sz m z lv) (\<lambda>(ok, lv, placed, sz).
     if \<not> ok then ret (False, lv)
     else andThen (gets entry_field_count) (\<lambda>n.
     andThen (if placed then ret (unat n) else andThen (alloc_fields E n) (\<lambda>(p, room).
         andThen (modify (\<lambda>e. e\<lparr>se_fields := (p, [])\<rparr>)) (\<lambda>_. ret room))) (\<lambda>froom.
     andThen (if unat n \<le> sz then ret (ATmp (TMP_SIZE - sz), sz) else alloc_fields E n) (\<lambda>(p, vroom).
     andThen (modify (\<lambda>e. e\<lparr>se_values := (p, [])\<rparr>)) (\<lambda>_.
     andThen (fill_entry (unat n) 0 True same froom vroom m z lv) (\<lambda>(b, lv).
     andThen (checked (lp_next m z lv)) (\<lambda>(b', lv).
       ret (b \<and> b' \<and> lv_ival lv = (if same then 3 + n else 4 + n + n), lv)))))))))))))))))))))"

text \<open>The pairs an output reads, unless one of the arrays was freed.\<close>

definition entry_pairs :: "ptr \<Rightarrow> RdbStreamEntry \<Rightarrow> (RdbString \<times> RdbString) list option" where
  "entry_pairs b e =
     (if (\<exists>i \<in> set (se_freed e). fst (se_fields e) = AHeap i \<or> fst (se_values e) = AHeap i) then None
      else Some (map (\<lambda>(f, v). (decode_lval b f RdbString_new, decode_lval b v RdbString_new))
        (zip (snd (se_fields e)) (snd (se_values e)))))"

section \<open>The list packs\<close>

text \<open>The entry is a local of \<open>decode_stream\<close>, here the first component of the state.\<close>

definition on_entry :: "(RdbStreamEntry, 'a) prog \<Rightarrow> (RdbStreamEntry \<times> RdbDecode, 'a) prog" where
  "on_entry = zoom fst (\<lambda>e s. (e, snd s))"

definition on_dec :: "(RdbDecode, 'a) prog \<Rightarrow> (RdbStreamEntry \<times> RdbDecode, 'a) prog" where
  "on_dec = zoom snd (\<lambda>d s. (fst s, d))"

text \<open>The entries of one list pack: rounds left, the pointer to the pack.\<close>

fun entries_loop :: "nat \<Rightarrow> rdb_env \<Rightarrow> ptr \<Rightarrow> RdbListPack \<Rightarrow> RdbListValue \<Rightarrow> (RdbStreamEntry \<times> RdbDecode, unit) prog" where
  "entries_loop 0 E b z lv = ret ()"
| "entries_loop (Suc k) E b z lv = andThen (on_entry (read_entry E (pmem b) z lv)) (\<lambda>(ok, lv).
     if \<not> ok then throw RDB_ERR_TRUNC
     else andThen (gets fst) (\<lambda>e.
     andThen (if se_flags e AND RDB_STREAM_ENTRY_DELETED = 0 then
         andThen (if se_num e = 0 then on_dec (emit (D_stream_start STREAM_ENTRY_LIST)) else ret ()) (\<lambda>_.
         andThen (on_dec (emit (D_stream_entry (se_num e) (se_id e) (se_diff e) (entry_pairs b e)))) (\<lambda>_.
         on_entry (modify (\<lambda>e. e\<lparr>se_num := Suc (se_num e)\<rparr>))))
       else ret ()) (\<lambda>_. entries_loop k E b z lv)))"

definition stream_pack :: "rdb_env \<Rightarrow> (RdbStreamEntry \<times> RdbDecode, unit) prog" where
  "stream_pack E = andThen (on_dec (onb (decode RdbLength_zero))) (\<lambda>L.
     andThen (on_dec (onb (consume E L))) (\<lambda>b.
     andThen (checked (be64 (pmem b) (ppos b))) (\<lambda>ms. andThen (checked (be64 (pmem b) (ppos b + 8))) (\<lambda>ser.
     andThen (on_entry (modify (\<lambda>e. e\<lparr>se_id := \<lparr>rec_ms = ms, rec_ser = ser\<rparr>\<rparr>))) (\<lambda>_.
     andThen (on_dec (onb (decode RdbLength_zero))) (\<lambda>L.
     andThen (on_dec (onb (consume E L))) (\<lambda>b.
     andThen (checked (lp_init (pmem b) (ppos b) (l_len L) RdbListPack_new)) (\<lambda>(ok, z).
     if \<not> ok then ret ()
     else andThen (on_entry (read_header E (pmem b) z RdbListValue_new)) (\<lambda>(ok, lv).
       if \<not> ok then throw RDB_ERR_HDR
       else andThen (gets (\<lambda>s. unat (items_count (fst s)))) (\<lambda>n. entries_loop n E b z lv))))))))))"

fun stream_packs :: "nat \<Rightarrow> rdb_env \<Rightarrow> (RdbStreamEntry \<times> RdbDecode, unit) prog" where
  "stream_packs 0 E = ret ()"
| "stream_packs (Suc k) E = andThen (stream_pack E) (\<lambda>_. stream_packs k E)"

section \<open>Groups, pending entries and consumers\<close>

text \<open>An error becomes a value: the source looks at the code and goes on in its own way.\<close>

definition attempt :: "('s, 'a) prog \<Rightarrow> ('s, 'a option) prog" where
  "attempt m s = (case m s of (Ok x, s') \<Rightarrow> (Ok (Some x), s') | (Err e, s') \<Rightarrow> (Ok None, s') | (Fault, s') \<Rightarrow> (Fault, s'))"

definition raw_len :: "(RdbDecode, u64) prog" where
  "raw_len = andThen (onb (decode RdbLength_zero)) (\<lambda>L. ret (l_len L))"

text \<open>16 bytes of a stream id.\<close>

definition read_rec_id :: "(RdbDecode, RdbStreamRecId) prog" where
  "read_rec_id = andThen (incr_or_trunc (128 div 8)) (\<lambda>b.
     andThen (checked (be64 (pmem b) (ppos b))) (\<lambda>ms. andThen (checked (be64 (pmem b) (ppos b + 8))) (\<lambda>ser.
       ret \<lparr>rec_ms = ms, rec_ser = ser\<rparr>)))"

definition read_u64 :: "(RdbDecode, u64) prog" where
  "read_u64 = andThen (incr_or_trunc 8) (\<lambda>b. checked (le64 (pmem b) (ppos b)))"

text \<open>A name, or nothing when it cannot be read.\<close>

definition read_name :: "rdb_env \<Rightarrow> (RdbDecode, RdbString option) prog" where
  "read_name E = attempt (andThen (onb (decode RdbLength_zero)) (\<lambda>L.
     andThen (onb (consume E L)) (\<lambda>b. ret (set_str b (l_len L) RdbString_new))))"

text \<open>\<open>if ( cnt != 0 ) d_stream_start/end( \<dots> )\<close>\<close>

definition emit_if :: "bool \<Rightarrow> RdbString RdbEvent \<Rightarrow> (RdbDecode, unit) prog" where
  "emit_if c e = (if c then emit e else ret ())"

fun pend_loop :: "nat \<Rightarrow> nat \<Rightarrow> nat \<Rightarrow> (RdbDecode, unit) prog" where
  "pend_loop 0 num cnt = ret ()"
| "pend_loop (Suc k) num cnt = andThen read_rec_id (\<lambda>i. andThen read_u64 (\<lambda>last. andThen raw_len (\<lambda>deliv.
     andThen (emit (D_stream_pend num cnt i last deliv)) (\<lambda>_. pend_loop k (Suc num) cnt))))"

fun cons_pend_loop :: "nat \<Rightarrow> nat \<Rightarrow> nat \<Rightarrow> (RdbDecode, unit) prog" where
  "cons_pend_loop 0 num cnt = ret ()"
| "cons_pend_loop (Suc k) num cnt = andThen read_rec_id (\<lambda>i.
     andThen (emit (D_stream_cons_pend num cnt i)) (\<lambda>_. cons_pend_loop k (Suc num) cnt))"

text \<open>The result of the loops over consumers and groups is false when the function returns \<open>RDB_OK\<close> early.\<close>

fun cons_loop :: "nat \<Rightarrow> nat \<Rightarrow> nat \<Rightarrow> rdb_env \<Rightarrow> (RdbDecode, bool) prog" where
  "cons_loop 0 num cnt E = ret True"
| "cons_loop (Suc k) num cnt E = andThen (read_name E) (\<lambda>r. case r of None \<Rightarrow> ret False
     | Some cname \<Rightarrow> andThen read_u64 (\<lambda>seen. andThen raw_len (\<lambda>cpend.
       andThen (emit (D_stream_cons num cnt cname cpend seen)) (\<lambda>_.
       andThen (emit_if (cpend \<noteq> 0) (D_stream_start STREAM_CONSUMER_PENDING_LIST)) (\<lambda>_.
       andThen (cons_pend_loop (unat cpend) 0 (unat cpend)) (\<lambda>_.
       andThen (emit_if (cpend \<noteq> 0) (D_stream_end STREAM_CONSUMER_PENDING_LIST)) (\<lambda>_.
       andThen (emit (D_stream_end STREAM_CONSUMER)) (\<lambda>_. cons_loop k (Suc num) cnt E))))))))"

definition group_consumers :: "rdb_env \<Rightarrow> (RdbDecode, bool) prog" where
  "group_consumers E = andThen raw_len (\<lambda>n.
     andThen (emit_if (n \<noteq> 0) (D_stream_start STREAM_CONSUMER_LIST)) (\<lambda>_.
     andThen (cons_loop (unat n) 0 (unat n) E) (\<lambda>ok.
     if \<not> ok then ret False
     else andThen (emit_if (n \<noteq> 0) (D_stream_end STREAM_CONSUMER_LIST)) (\<lambda>_. ret True))))"

text \<open>\<open>group_off\<close> is declared before the loop and decoded into again and again.\<close>

fun group_loop :: "nat \<Rightarrow> nat \<Rightarrow> nat \<Rightarrow> RdbLength \<Rightarrow> rdb_env \<Rightarrow> (RdbDecode, bool) prog" where
  "group_loop 0 num cnt off E = ret True"
| "group_loop (Suc k) num cnt off E = andThen (read_name E) (\<lambda>r. case r of None \<Rightarrow> ret False
     | Some gname \<Rightarrow> andThen raw_len (\<lambda>ms. andThen raw_len (\<lambda>ser.
       andThen (gets dec_type) (\<lambda>t.
       andThen (if t = RDB_STREAM_LISTPACKS_2 then onb (decode off) else ret off) (\<lambda>off.
       andThen raw_len (\<lambda>pend.
       andThen (emit (D_stream_group num cnt gname pend \<lparr>rec_ms = ms, rec_ser = ser\<rparr>)) (\<lambda>_.
       andThen (emit_if (pend \<noteq> 0) (D_stream_start STREAM_PENDING_LIST)) (\<lambda>_.
       andThen (pend_loop (unat pend) 0 (unat pend)) (\<lambda>_.
       andThen (emit_if (pend \<noteq> 0) (D_stream_end STREAM_PENDING_LIST)) (\<lambda>_.
       andThen (group_consumers E) (\<lambda>ok.
       if \<not> ok then ret False
       else andThen (emit (D_stream_end STREAM_GROUP)) (\<lambda>_. group_loop k (Suc num) cnt off E))))))))))))"

section \<open>decode_stream\<close>

text \<open>
  The ids of the stream: number of elements, last id; then, in the second format, the first id,
  the highest deleted id, and the number of elements once more, decoded into the same structure.
\<close>

definition stream_ids :: "(RdbDecode, u64 \<times> RdbStreamRecId \<times> u64) prog" where
  "stream_ids = andThen (onb (decode RdbLength_zero)) (\<lambda>num_elems.
     andThen raw_len (\<lambda>last_ms. andThen raw_len (\<lambda>last_ser.
     andThen (gets dec_type) (\<lambda>t.
     andThen (if t = RDB_STREAM_LISTPACKS_2 then
         andThen raw_len (\<lambda>first_ms. andThen raw_len (\<lambda>first_ser.
         andThen raw_len (\<lambda>max_del_ms. andThen raw_len (\<lambda>max_del_ser.
           onb (decode num_elems)))))
       else ret num_elems) (\<lambda>num_elems.
     andThen raw_len (\<lambda>cgroups.
       ret (l_len num_elems, \<lparr>rec_ms = last_ms, rec_ser = last_ser\<rparr>, cgroups)))))))"

definition stream_rest :: "rdb_env \<Rightarrow> (RdbDecode, unit) prog" where
  "stream_rest E = andThen stream_ids (\<lambda>(num_elems, last, cgroups).
     andThen (emit (D_stream_info last num_elems cgroups)) (\<lambda>_.
     andThen (emit_if (cgroups \<noteq> 0) (D_stream_start STREAM_GROUP_LIST)) (\<lambda>_.
     andThen (group_loop (unat cgroups) 0 (unat cgroups) RdbLength_zero E) (\<lambda>ok.
     if \<not> ok then ret ()
     else andThen (emit_if (cgroups \<noteq> 0) (D_stream_end STREAM_GROUP_LIST)) (\<lambda>_. end_key)))))"

definition stream_body :: "rdb_env \<Rightarrow> (RdbStreamEntry \<times> RdbDecode, unit) prog" where
  "stream_body E = andThen (on_dec start_key) (\<lambda>_. andThen (gets (\<lambda>s. unat (l_len (dec_rlen (snd s))))) (\<lambda>cnt.
     andThen (stream_packs cnt E) (\<lambda>_.
     andThen (gets (\<lambda>s. se_num (fst s))) (\<lambda>n.
     andThen (on_dec (emit_if (n \<noteq> 0) (D_stream_end STREAM_ENTRY_LIST))) (\<lambda>_.
     on_dec (stream_rest E))))))"

text \<open>The body, and the destructor of the entry however it ends.\<close>

definition decode_stream :: "rdb_env \<Rightarrow> (RdbDecode, unit) prog" where
  "decode_stream E s = (case stream_body E (RdbStreamEntry_new, s) of (r, e, s') \<Rightarrow>
     (case stream_entry_drop e of (Fault, _) \<Rightarrow> (Fault, s') | _ \<Rightarrow> (r, s')))"

section \<open>The calls of streams\<close>

fun stream_event :: "'s RdbEvent \<Rightarrow> bool" where
  "stream_event (D_stream_start c) = True"
| "stream_event (D_stream_end c) = True"
| "stream_event (D_stream_entry n i d ps) = True"
| "stream_event (D_stream_info i n c) = True"
| "stream_event (D_stream_group n c g p i) = True"
| "stream_event (D_stream_pend n c i l d) = True"
| "stream_event (D_stream_cons n c g p s) = True"
| "stream_event (D_stream_cons_pend n c i) = True"
| "stream_event _ = False"

end
