(* ===== verification/Rdb_Body.thy ===== *)
theory Rdb_Body
  imports Rdb_Stream
begin

text \<open>
  \<open>decode_body\<close> (\<open>src/rdb_decode.cpp\<close>): the body of a record by its type, and the decoding of a
  whole record, header and body.
\<close>

definition decode_body :: "rdb_env \<Rightarrow> (RdbDecode, unit) prog" where
  "decode_body E = andThen (gets dec_type) (\<lambda>t. case t of
       RDB_STRING \<Rightarrow> decode_string
     | RDB_HASH \<Rightarrow> decode_hash E
     | RDB_HASH_ZIPMAP \<Rightarrow> decode_hash_zipmap
     | RDB_SET \<Rightarrow> decode_set E
     | RDB_LIST \<Rightarrow> decode_list E
     | RDB_SET_INTSET \<Rightarrow> decode_set_intset
     | RDB_HASH_ZIPLIST \<Rightarrow> decode_ziplist
     | RDB_ZSET_ZIPLIST \<Rightarrow> decode_ziplist
     | RDB_LIST_ZIPLIST \<Rightarrow> decode_ziplist
     | RDB_LIST_QUICKLIST \<Rightarrow> decode_quicklist E
     | RDB_ZSET \<Rightarrow> decode_zset E
     | RDB_ZSET_2 \<Rightarrow> decode_zset E
     | RDB_STREAM_LISTPACK \<Rightarrow> decode_stream E
     | RDB_HASH_LISTPACK \<Rightarrow> decode_listpack
     | RDB_ZSET_LISTPACK \<Rightarrow> decode_listpack
     | RDB_LIST_QUICKLIST_2 \<Rightarrow> decode_quicklist_2 E
     | RDB_STREAM_LISTPACKS_2 \<Rightarrow> decode_stream E
     | RDB_MODULE_2 \<Rightarrow> decode_module
     | RDB_MODULE \<Rightarrow> decode_module
     | RDB_BAD_TYPE \<Rightarrow> throw RDB_ERR_NOTSUP)"

end
