(* ===== verification/Rdb_Reads.thy ===== *)
theory Rdb_Reads
  imports Rdb_Body
begin

text \<open>
  Programs that read a given sequence of bytes and make a given sequence of calls, composed along
  \<open>andThen\<close>: the strings, integers and scores of a body, the loops over them, and the loops over
  the elements of a ziplist or listpack.
\<close>

section \<open>Reading a sequence of bytes\<close>

text \<open>The state while a record that is not filtered out is decoded: type, header and key.\<close>

definition in_ctx :: "RdbType \<Rightarrow> RdbLength \<Rightarrow> rdb_val option \<Rightarrow> RdbDecode \<Rightarrow> bool" where
  "in_ctx t L kv s \<longleftrightarrow> dec_type s = t \<and> dec_rlen s = L \<and> str_val (dec_key s) = kv \<and> dec_out s = DataOut
     \<and> dec_data_out s = DataOut \<and> (\<forall>f. dec_filter s = Some f \<longrightarrow> f (dec_key s) = Some True)"

text \<open>
  \<open>m\<close> consumes the bytes \<open>xs\<close>, returns a value with \<open>A\<close> and makes the calls \<open>evs\<close>, and changes
  nothing else.
\<close>

definition reads :: "(RdbDecode \<Rightarrow> bool) \<Rightarrow> (RdbDecode, 'a) prog \<Rightarrow> u8 list \<Rightarrow> ('a \<Rightarrow> bool) \<Rightarrow> rdb_val option RdbEvent list \<Rightarrow> bool" where
  "reads C m xs A evs \<longleftrightarrow> (\<forall>s. C s \<and> wf_bufptr (dec_bptr s) \<and> has_bytes (dec_bptr s) xs \<longrightarrow>
     (\<exists>x bp es. m s = (Ok x, s\<lparr>dec_bptr := bp, dec_log := dec_log s @ es\<rparr>) \<and> A x
        \<and> advanced (length xs) (dec_bptr s) bp \<and> map ev_val es = evs))"

named_theorems reads_intros

lemma readsI:
  assumes "\<And>s. C s \<Longrightarrow> wf_bufptr (dec_bptr s) \<Longrightarrow> has_bytes (dec_bptr s) xs \<Longrightarrow>
    \<exists>x bp es. m s = (Ok x, s\<lparr>dec_bptr := bp, dec_log := dec_log s @ es\<rparr>) \<and> A x
      \<and> advanced (length xs) (dec_bptr s) bp \<and> map ev_val es = evs"
  shows "reads C m xs A evs"
  using assms by (simp add: reads_def)

lemma readsD:
  assumes "reads C m xs A evs" "C s" "wf_bufptr (dec_bptr s)" "has_bytes (dec_bptr s) xs"
  obtains x bp es where "m s = (Ok x, s\<lparr>dec_bptr := bp, dec_log := dec_log s @ es\<rparr>)" "A x"
    "advanced (length xs) (dec_bptr s) bp" "map ev_val es = evs"
  using assms by (auto simp: reads_def)

lemma advanced_0: "wf_bufptr bp \<Longrightarrow> advanced 0 bp bp"
  by (cases "buf bp") (auto simp: advanced_def wf_bufptr_def)

lemma reads_pure:
  assumes "\<And>s. C s \<Longrightarrow> \<exists>x. m s = (Ok x, s) \<and> A x"
  shows "reads C m [] A []"
proof (rule readsI)
  fix s assume "C s" "wf_bufptr (dec_bptr s)"
  moreover from assms [OF this(1)] obtain x where "m s = (Ok x, s)" "A x" by blast
  ultimately show "\<exists>x bp es. m s = (Ok x, s\<lparr>dec_bptr := bp, dec_log := dec_log s @ es\<rparr>) \<and> A x
      \<and> advanced (length []) (dec_bptr s) bp \<and> map ev_val es = []"
    using advanced_0 [of "dec_bptr s"] by (intro exI [of _ x] exI [of _ "dec_bptr s"] exI [of _ "[]"]) simp
qed

lemma reads_ret: "A x \<Longrightarrow> reads C (ret x) [] A []"
  by (rule reads_pure) (simp add: run_ret)

lemma reads_gets: "(\<And>s. C s \<Longrightarrow> A (g s)) \<Longrightarrow> reads C (gets g) [] A []"
  by (rule reads_pure) (simp add: run_gets)

lemma reads_checked: "v = Some x \<Longrightarrow> A x \<Longrightarrow> reads C (checked v) [] A []"
  by (rule reads_pure) (simp add: run_checked)

text \<open>The context must not look at what reading changes.\<close>

definition steady :: "(RdbDecode \<Rightarrow> bool) \<Rightarrow> bool" where
  "steady C \<longleftrightarrow> (\<forall>s bp l. C s \<longrightarrow> C (s\<lparr>dec_bptr := bp, dec_log := l\<rparr>))"

lemma steady_in_ctx [simp]: "steady (in_ctx t L kv)"
  by (simp add: steady_def in_ctx_def)

lemma reads_andThen:
  assumes C: "steady C" and m: "reads C m xs A es" and f: "\<And>x. A x \<Longrightarrow> reads C (f x) ys B fs"
    and zs: "zs = xs @ ys" and gs: "gs = es @ fs"
  shows "reads C (andThen m f) zs B gs"
proof (rule readsI)
  fix s assume s: "C s" "wf_bufptr (dec_bptr s)" "has_bytes (dec_bptr s) zs"
  obtain x bp l where 1: "m s = (Ok x, s\<lparr>dec_bptr := bp, dec_log := dec_log s @ l\<rparr>)" "A x"
    "advanced (length xs) (dec_bptr s) bp" "map ev_val l = es"
    using readsD [OF m s(1,2)] has_bytes_prefix s(3) zs by metis
  let ?s = "s\<lparr>dec_bptr := bp, dec_log := dec_log s @ l\<rparr>"
  have le: "length xs \<le> avail (dec_bptr s)"
    using s(3) zs by (simp add: has_bytes_def)
  have c: "C ?s" "wf_bufptr (dec_bptr ?s)" "has_bytes (dec_bptr ?s) ys"
    using C s advanced_wf [OF s(2) 1(3) le] has_bytes_advanced [OF _ 1(3)] zs by (auto simp: steady_def)
  obtain y bp2 l2 where 2: "f x ?s = (Ok y, ?s\<lparr>dec_bptr := bp2, dec_log := dec_log ?s @ l2\<rparr>)" "B y"
    "advanced (length ys) (dec_bptr ?s) bp2" "map ev_val l2 = fs"
    using readsD [OF f [OF 1(2)] c] by metis
  have "advanced (length zs) (dec_bptr s) bp2"
    using advanced_advanced [OF 1(3)] 2(3) zs by simp
  then show "\<exists>x bp es. andThen m f s = (Ok x, s\<lparr>dec_bptr := bp, dec_log := dec_log s @ es\<rparr>) \<and> B x
      \<and> advanced (length zs) (dec_bptr s) bp \<and> map ev_val es = gs"
    using 1 2 gs by (intro exI [of _ y] exI [of _ bp2] exI [of _ "l @ l2"]) (simp add: andThen_Ok)
qed

lemma reads_emit:
  assumes "\<And>s. C s \<Longrightarrow> dec_out s = DataOut"
  shows "reads C (emit e) [] (\<lambda>_. True) [ev_val e]"
proof (rule readsI)
  fix s assume "C s" "wf_bufptr (dec_bptr s)"
  then show "\<exists>x bp es. emit e s = (Ok x, s\<lparr>dec_bptr := bp, dec_log := dec_log s @ es\<rparr>) \<and> True
      \<and> advanced (length []) (dec_bptr s) bp \<and> map ev_val es = [ev_val e]"
    using assms advanced_0 [of "dec_bptr s"]
    by (intro exI [of _ "()"] exI [of _ "dec_bptr s"] exI [of _ "[e]"]) (simp add: emit_def call_out_def run_simps)
qed

text \<open>The frequent shapes of \<open>andThen\<close>.\<close>

lemma andThen_checked: "andThen (checked (Some x)) f = f x"
  by (rule ext) (simp add: run_andThen)

lemma reads_then_emit:
  assumes "steady C" "\<And>s. C s \<Longrightarrow> dec_out s = DataOut" "ev_val e = g" "reads C (f ()) ys B fs"
  shows "reads C (andThen (emit e) f) ys B (g # fs)"
  by (rule reads_andThen [OF assms(1) reads_emit [OF assms(2)]]) (auto simp: assms(3,4))

lemma reads_then_gets:
  assumes "steady C" "\<And>s. C s \<Longrightarrow> g s = x" "reads C (f x) ys B fs"
  shows "reads C (andThen (gets g) f) ys B fs"
  by (rule reads_andThen [OF assms(1) reads_gets [where A = "\<lambda>y. y = x"]]) (auto simp: assms(2,3))

lemma reads_then_quiet:
  assumes "steady C" "reads C m xs A []" "\<And>x. A x \<Longrightarrow> reads C (f x) ys B fs" "zs = xs @ ys"
  shows "reads C (andThen m f) zs B fs"
  by (rule reads_andThen [OF assms(1,2,3)]) (auto simp: assms(4))

lemma reads_start_key: "reads (in_ctx t L kv) start_key [] (\<lambda>_. True) [D_start_key t kv]"
proof (rule readsI)
  fix s assume s: "in_ctx t L kv s" "wf_bufptr (dec_bptr s)"
  moreover have "s\<lparr>dec_out := DataOut\<rparr> = s" using s by (simp add: in_ctx_def)
  ultimately show "\<exists>x bp es. start_key s = (Ok x, s\<lparr>dec_bptr := bp, dec_log := dec_log s @ es\<rparr>) \<and> True
      \<and> advanced (length []) (dec_bptr s) bp \<and> map ev_val es = [D_start_key t kv]"
    using advanced_0 [OF s(2)]
    by (intro exI [of _ "()"] exI [of _ "dec_bptr s"] exI [of _ "[D_start_key t (dec_key s)]"])
      (cases "dec_filter s", auto simp: start_key_def in_ctx_def emit_def call_out_def run_simps)
qed

lemma reads_end_key: "reads (in_ctx t L kv) end_key [] (\<lambda>_. True) [D_end_key t]"
  unfolding end_key_def
  by (rule reads_andThen [where xs = "[]" and ys = "[]" and es = "[]" and A = "\<lambda>x. x = t"])
    (auto intro!: reads_gets reads_emit [where e = "D_end_key t", simplified] simp: in_ctx_def)

lemma reads_onb:
  assumes "\<And>bp. wf_bufptr bp \<Longrightarrow> has_bytes bp xs \<Longrightarrow> \<exists>x bp'. m bp = (Ok x, bp') \<and> A x \<and> advanced (length xs) bp bp'"
  shows "reads C (onb m) xs A []"
proof (rule readsI)
  fix s :: RdbDecode assume "wf_bufptr (dec_bptr s)" "has_bytes (dec_bptr s) xs"
  from assms [OF this] obtain x bp' where "m (dec_bptr s) = (Ok x, bp')" "A x" "advanced (length xs) (dec_bptr s) bp'"
    by blast
  then show "\<exists>x bp es. onb m s = (Ok x, s\<lparr>dec_bptr := bp, dec_log := dec_log s @ es\<rparr>) \<and> A x
      \<and> advanced (length xs) (dec_bptr s) bp \<and> map ev_val es = []"
    by (intro exI [of _ x] exI [of _ bp'] exI [of _ "[]"]) (simp add: onb_def zoom_def)
qed

lemma reads_decode:
  assumes "xs \<noteq> []" "length xs \<le> MAX_RDB_HDRLEN"
    "\<And>m p. bytes_at m p xs \<Longrightarrow> decode_buf m p L = Some (int (length xs), L')"
  shows "reads C (onb (decode L)) xs (\<lambda>x. x = L') []"
  by (rule reads_onb) (use decode_runs [OF _ _ assms] in blast)

lemma reads_incr_or_trunc:
  assumes "n = length xs"
  shows "reads C (incr_or_trunc n) xs (\<lambda>b. rdn (pmem b) (ppos b) n = Some xs) []"
proof (rule readsI)
  fix s :: RdbDecode assume "wf_bufptr (dec_bptr s)" "has_bytes (dec_bptr s) xs"
  from incr_runs [OF this assms] obtain bp where
    "incr n (dec_bptr s) = (Ok (Some (buf (dec_bptr s))), bp)" "advanced n (dec_bptr s) bp"
    "rdn (pmem (buf (dec_bptr s))) (ppos (buf (dec_bptr s))) n = Some xs" by blast
  then show "\<exists>x bp es. incr_or_trunc n s = (Ok x, s\<lparr>dec_bptr := bp, dec_log := dec_log s @ es\<rparr>)
      \<and> rdn (pmem x) (ppos x) n = Some xs \<and> advanced (length xs) (dec_bptr s) bp \<and> map ev_val es = []"
    using assms by (intro exI [of _ "buf (dec_bptr s)"] exI [of _ bp] exI [of _ "[]"])
      (simp add: incr_or_trunc_def onb_def zoom_def run_ret andThen_Ok)
qed

section \<open>Items: strings and integers\<close>

datatype rdb_item = ItStr "u8 list" | ItInt u64

fun item_ok :: "rdb_item \<Rightarrow> bool" where
  "item_ok (ItStr xs) \<longleftrightarrow> length xs < 2 ^ 64"
| "item_ok (ItInt x) \<longleftrightarrow> int_code x \<noteq> RDB_LEN_ERR"

fun item_val :: "rdb_item \<Rightarrow> rdb_val" where
  "item_val (ItStr xs) = StrVal xs"
| "item_val (ItInt x) = IntVal x"

fun item_hdr :: "rdb_item \<Rightarrow> u8 list" where
  "item_hdr (ItStr xs) = hdr_bytes (word_of_nat (length xs))"
| "item_hdr (ItInt x) = int_bytes x"

fun item_data :: "rdb_item \<Rightarrow> u8 list" where
  "item_data (ItStr xs) = xs"
| "item_data (ItInt x) = []"

definition item_bytes :: "rdb_item \<Rightarrow> u8 list" where
  "item_bytes i = item_hdr i @ item_data i"

text \<open>The length that is decoded from the header of an item.\<close>

fun item_len :: "rdb_item \<Rightarrow> RdbLength" where
  "item_len (ItStr xs) = RdbLength_zero\<lparr>l_len := word_of_nat (length xs)\<rparr>"
| "item_len (ItInt x) = RdbLength_zero\<lparr>l_is_enc := int_width x, l_ival := ucast x\<rparr>"

lemma RdbLength_zero_sel [simp]: "l_is_enc RdbLength_zero = 0" "\<not> l_is_lzf RdbLength_zero"
  by (simp_all add: RdbLength_zero_def)

lemma item_hdr_decode:
  assumes "item_ok i"
  shows "bytes_at m p (item_hdr i) \<Longrightarrow> decode_buf m p RdbLength_zero = Some (int (length (item_hdr i)), item_len i)"
    and "item_hdr i \<noteq> []" and "length (item_hdr i) \<le> MAX_RDB_HDRLEN"
proof -
  show "bytes_at m p (item_hdr i) \<Longrightarrow> decode_buf m p RdbLength_zero = Some (int (length (item_hdr i)), item_len i)"
    using assms by (cases i) (auto intro: decode_hdr_bytes simp: decode_int_bytes)
  show "item_hdr i \<noteq> []"
    by (cases i) (auto simp: int_bytes_def split: LengthEnc.splits)
  show "length (item_hdr i) \<le> MAX_RDB_HDRLEN"
    using length_hdr_bytes_le int_bytes_size(2) by (cases i) (auto simp: MAX_RDB_HDRLEN_def intro: le_trans [where j = 9] le_trans [where j = 5])
qed

lemma reads_item_hdr: "item_ok i \<Longrightarrow> reads C (onb (decode RdbLength_zero)) (item_hdr i) (\<lambda>L. L = item_len i) []"
  by (rule reads_decode) (auto simp: item_hdr_decode)

lemma item_int: "item_ok (ItInt x) \<Longrightarrow> (scast (ucast x :: u32) :: u64) = x"
  using decode_int_bytes [of "int_bytes x" 0 x] bytes_at_start [of "int_bytes x" "[]"] by (simp add: scast_eq)

lemma reads_decode_str:
  assumes "steady C" "item_ok i"
  shows "reads C (decode_str (item_len i)) (item_data i) (\<lambda>r. str_val r = Some (item_val i)) []"
proof (cases i)
  case (ItStr xs)
  with assms(2) have n: "unat (word_of_nat (length xs) :: u64) = length xs"
    by (simp add: unat_of_nat)
  have "reads C (andThen (incr_or_trunc (length xs)) (\<lambda>b. ret (set_str b (word_of_nat (length xs)) RdbString_new)))
      xs (\<lambda>r. str_val r = Some (StrVal xs)) []"
    using n by (intro reads_andThen [OF assms(1) reads_incr_or_trunc reads_ret]) auto
  with ItStr n show ?thesis by (simp add: decode_str_def)
next
  case (ItInt x)
  with assms(2) int_width_not_0 item_int show ?thesis
    by (auto simp: decode_str_def intro!: reads_ret)
qed

lemma reads_decode_rlen:
  assumes "steady C" "item_ok i"
  shows "reads C (decode_rlen E) (item_bytes i) (\<lambda>r. str_val r = Some (item_val i)) []"
proof -
  have l: "\<not> l_is_lzf (item_len i)" by (cases i) auto
  show ?thesis
    unfolding decode_rlen_def item_bytes_def
    by (rule reads_andThen [OF assms(1) reads_item_hdr [OF assms(2)]])
      (auto simp: l andThen_ret intro: reads_decode_str [OF assms])
qed

section \<open>Loops\<close>

text \<open>The calls for a list of elements, numbered from \<open>num\<close>.\<close>

fun numbered :: "(nat \<Rightarrow> 'a \<Rightarrow> 'e) \<Rightarrow> nat \<Rightarrow> 'a list \<Rightarrow> 'e list" where
  "numbered ev num [] = []"
| "numbered ev num (x # xs) = ev num x # numbered ev (Suc num) xs"

lemma length_numbered: "length (numbered ev num xs) = length xs"
  by (induction xs arbitrary: num) auto

lemma reads_loop:
  assumes C: "steady C" "\<And>s. C s \<Longrightarrow> dec_out s = DataOut"
    and nil: "\<And>num. loop 0 num = ret ()"
    and suc: "\<And>k num. loop (Suc k) num = andThen m (\<lambda>r. andThen (emit (e num r)) (\<lambda>_. loop k (Suc num)))"
    and step: "\<And>x. x \<in> set xs \<Longrightarrow> reads C m (enc x) (A x) []"
    and ev: "\<And>x r num. A x r \<Longrightarrow> ev_val (e num r) = ev num x"
  shows "reads C (loop (length xs) num) (concat (map enc xs)) (\<lambda>_. True) (numbered ev num xs)"
  using step
proof (induction xs arbitrary: num)
  case Nil
  then show ?case by (simp add: nil reads_ret)
next
  case (Cons x xs)
  have "reads C (andThen m (\<lambda>r. andThen (emit (e num r)) (\<lambda>_. loop (length xs) (Suc num))))
      (enc x @ concat (map enc xs)) (\<lambda>_. True) (ev num x # numbered ev (Suc num) xs)"
  proof (rule reads_andThen [OF C(1) Cons.prems])
    fix r assume "A x r"
    then show "reads C (andThen (emit (e num r)) (\<lambda>_. loop (length xs) (Suc num)))
        (concat (map enc xs)) (\<lambda>_. True) (ev num x # numbered ev (Suc num) xs)"
      using ev [of x r num] by (intro reads_andThen [OF C(1) reads_emit [OF C(2)] Cons.IH [OF Cons.prems]]) auto
  qed auto
  then show ?case by (simp add: suc)
qed

lemma reads_pair:
  assumes "steady C" "reads C m xs A []" "reads C k ys B []" "zs = xs @ ys"
  shows "reads C (andThen m (\<lambda>x. andThen k (\<lambda>y. ret (x, y)))) zs (\<lambda>(x, y). A x \<and> B y) []"
  by (rule reads_andThen [OF assms(1,2) reads_andThen [OF assms(1,3) reads_ret]]) (auto simp: assms(4))

lemma reads_hash_loop:
  assumes "steady C" "\<And>s. C s \<Longrightarrow> dec_out s = DataOut" and ok: "\<forall>(a, b) \<in> set xs. item_ok a \<and> item_ok b"
  shows "reads C (hash_loop (length xs) num cnt E) (concat (map (\<lambda>(a, b). item_bytes a @ item_bytes b) xs)) (\<lambda>_. True)
    (numbered (\<lambda>num (a, b). D_hash num cnt (Some (item_val a)) (Some (item_val b))) num xs)"
proof (rule reads_loop [OF assms(1,2), where loop = "\<lambda>k num. hash_loop k num cnt E"
      and m = "andThen (decode_rlen E) (\<lambda>f. andThen (decode_rlen E) (\<lambda>v. ret (f, v)))"
      and e = "\<lambda>num (f, v). D_hash num cnt f v"])
  show "reads C (andThen (decode_rlen E) (\<lambda>f. andThen (decode_rlen E) (\<lambda>v. ret (f, v))))
      (case x of (a, b) \<Rightarrow> item_bytes a @ item_bytes b)
      ((\<lambda>(a, b) (f, v). str_val f = Some (item_val a) \<and> str_val v = Some (item_val b)) x) []" if "x \<in> set xs" for x
    using ok that by (cases x) (auto intro!: reads_pair reads_decode_rlen assms(1))
qed (auto simp: andThen_assoc andThen_ret)

lemma reads_set_loop:
  assumes "steady C" "\<And>s. C s \<Longrightarrow> dec_out s = DataOut" "\<forall>a \<in> set xs. item_ok a"
  shows "reads C (set_loop (length xs) num cnt E) (concat (map item_bytes xs)) (\<lambda>_. True)
    (numbered (\<lambda>num a. D_set num cnt (Some (item_val a))) num xs)"
  by (rule reads_loop [OF assms(1,2), where loop = "\<lambda>k num. set_loop k num cnt E" and m = "decode_rlen E"
      and e = "\<lambda>num r. D_set num cnt r"]) (use assms in \<open>auto intro: reads_decode_rlen\<close>)

lemma reads_list_loop:
  assumes "steady C" "\<And>s. C s \<Longrightarrow> dec_out s = DataOut" "\<forall>a \<in> set xs. item_ok a"
  shows "reads C (list_loop (length xs) num cnt E) (concat (map item_bytes xs)) (\<lambda>_. True)
    (numbered (\<lambda>num a. D_list num cnt (Some (item_val a))) num xs)"
  by (rule reads_loop [OF assms(1,2), where loop = "\<lambda>k num. list_loop k num cnt E" and m = "decode_rlen E"
      and e = "\<lambda>num r. D_list num cnt r"]) (use assms in \<open>auto intro: reads_decode_rlen\<close>)

text \<open>The score of a member: three special values or a text of at most 252 bytes, or a binary double.\<close>

datatype zscore = ScNan | ScInf | ScNegInf | ScText "u8 list" | ScDouble u64

fun score_ok :: "RdbType \<Rightarrow> zscore \<Rightarrow> bool" where
  "score_ok t (ScDouble x) \<longleftrightarrow> t = RDB_ZSET_2"
| "score_ok t (ScText xs) \<longleftrightarrow> t \<noteq> RDB_ZSET_2 \<and> length xs < 253"
| "score_ok t x \<longleftrightarrow> t \<noteq> RDB_ZSET_2"

fun score_bytes :: "zscore \<Rightarrow> u8 list" where
  "score_bytes ScNan = [253]"
| "score_bytes ScInf = [254]"
| "score_bytes ScNegInf = [255]"
| "score_bytes (ScText xs) = word_of_nat (length xs) # xs"
| "score_bytes (ScDouble x) = mem_store 8 x"

text \<open>The values are the texts nan, inf and -inf.\<close>

fun score_val :: "zscore \<Rightarrow> rdb_val" where
  "score_val ScNan = StrVal [0x6e, 0x61, 0x6e]"
| "score_val ScInf = StrVal [0x69, 0x6e, 0x66]"
| "score_val ScNegInf = StrVal [0x2d, 0x69, 0x6e, 0x66]"
| "score_val (ScText xs) = StrVal xs"
| "score_val (ScDouble x) = DblVal x"

lemma reads_byte:
  assumes "steady C" "reads C (f c) ys B es"
  shows "reads C (andThen (incr_or_trunc 1) (\<lambda>b. andThen (checked (rd8 (pmem b) (ppos b))) f)) (c # ys) B es"
proof (rule reads_andThen [OF assms(1) reads_incr_or_trunc [where xs = "[c]"]])
  fix b assume "rdn (pmem b) (ppos b) 1 = Some [c]"
  then have "rd8 (pmem b) (ppos b) = Some c"
    by (simp add: rdn_Suc bind_Some_iff One_nat_def)
  then show "reads C (andThen (checked (rd8 (pmem b) (ppos b))) f) ys B es"
    by (intro reads_andThen [OF assms(1) reads_checked [where A = "\<lambda>x. x = c"]]) (auto intro: assms(2))
qed auto

lemma reads_zset_score:
  assumes ok: "score_ok t x"
  shows "reads (in_ctx t L kv) zset_score (score_bytes x) (\<lambda>r. str_val r = Some (score_val x)) []"
  unfolding zset_score_def
proof (rule reads_andThen [OF steady_in_ctx reads_gets [where A = "\<lambda>u. u = t"]])
  let ?C = "in_ctx t L kv" and ?A = "\<lambda>r. str_val r = Some (score_val x)"
  define dbl where "dbl = andThen (incr_or_trunc 8) (\<lambda>b.
       andThen (checked (le64 (pmem b) (ppos b))) (\<lambda>dbl. ret (set_dbl dbl RdbString_new)))"
  define lit where "lit c = (if c = 253 then ret (set_str (Ptr False [0x6e, 0x61, 0x6e] 0) 3 RdbString_new)
       else if c = 254 then ret (set_str (Ptr False [0x69, 0x6e, 0x66] 0) 3 RdbString_new)
       else if c = 255 then ret (set_str (Ptr False [0x2d, 0x69, 0x6e, 0x66] 0) 4 RdbString_new)
       else andThen (incr_or_trunc (unat c)) (\<lambda>b. ret (set_str b (ucast c) RdbString_new)))" for c :: u8
  have inj: "mem_store 8 a = mem_store 8 b \<Longrightarrow> a = b" for a b :: u64
    by (drule arg_cong [where f = "mem_load :: u8 list \<Rightarrow> u64"]) (simp add: mem_load_store)
  have d: "reads ?C dbl (mem_store 8 y) (\<lambda>r. str_val r = Some (DblVal y)) []" for y
    unfolding dbl_def
    by (rule reads_andThen [OF steady_in_ctx reads_incr_or_trunc [where xs = "mem_store 8 y"]])
      (auto simp: endian_read_bytes mem_load_store dest!: inj intro!: reads_andThen [OF steady_in_ctx reads_checked reads_ret])
  have s: "reads ?C (lit (word_of_nat (length xs))) xs (\<lambda>r. str_val r = Some (StrVal xs)) []" if "length xs < 253" for xs
  proof -
    have c: "unat (word_of_nat (length xs) :: u8) = length xs"
      using that by (simp add: unat_of_nat)
    then have n: "word_of_nat (length xs) \<noteq> (253 :: u8)" "word_of_nat (length xs) \<noteq> (254 :: u8)"
      "word_of_nat (length xs) \<noteq> (255 :: u8)"
      using that by (auto simp: word_unat_eq_iff simp del: unat_of_nat)
    show ?thesis
      unfolding lit_def
      by (simp only: n if_False c) (rule reads_andThen [OF steady_in_ctx reads_incr_or_trunc reads_ret];
        auto simp: c unat_u8_up)
  qed
  have k: "reads ?C (lit 253) [] (\<lambda>r. str_val r = Some (score_val ScNan)) []"
    "reads ?C (lit 254) [] (\<lambda>r. str_val r = Some (score_val ScInf)) []"
    "reads ?C (lit 255) [] (\<lambda>r. str_val r = Some (score_val ScNegInf)) []"
    by (auto simp: lit_def intro!: reads_ret; code_simp)+
  fix u assume "u = t"
  then show "reads ?C (if u = RDB_ZSET_2 then dbl else andThen (incr_or_trunc 1) (\<lambda>b. andThen (checked (rd8 (pmem b) (ppos b))) lit))
      (score_bytes x) ?A []"
    using ok d k s by (cases x) (auto intro!: reads_byte simp del: One_nat_def)
qed (auto simp: in_ctx_def)

lemma reads_zset_loop:
  assumes ok: "\<forall>(a, x) \<in> set xs. item_ok a \<and> score_ok t x"
  shows "reads (in_ctx t L kv) (zset_loop (length xs) num cnt E) (concat (map (\<lambda>(a, x). item_bytes a @ score_bytes x) xs)) (\<lambda>_. True)
    (numbered (\<lambda>num (a, x). D_zset num cnt (Some (item_val a)) (Some (score_val x))) num xs)"
proof (rule reads_loop [OF steady_in_ctx, where loop = "\<lambda>k num. zset_loop k num cnt E"
      and m = "andThen (decode_rlen E) (\<lambda>f. andThen zset_score (\<lambda>v. ret (f, v)))"
      and e = "\<lambda>num (f, v). D_zset num cnt f v"])
  show "reads (in_ctx t L kv) (andThen (decode_rlen E) (\<lambda>f. andThen zset_score (\<lambda>v. ret (f, v))))
      (case x of (a, x) \<Rightarrow> item_bytes a @ score_bytes x)
      ((\<lambda>(a, x) (f, v). str_val f = Some (item_val a) \<and> str_val v = Some (score_val x)) x) []" if "x \<in> set xs" for x
    using ok that by (cases x) (auto intro!: reads_pair reads_decode_rlen reads_zset_score)
qed (auto simp: andThen_assoc andThen_ret in_ctx_def)

section \<open>Elements of packed lists\<close>

text \<open>The loops over a list end with the fuel that \<open>iterates\<close> needs, and make a call for each element.\<close>

lemma elem_loop_runs:
  assumes C: "steady C" "\<And>s. C s \<Longrightarrow> dec_out s = DataOut"
    and "iterates nxt lv lvs" "length lvs < k"
  shows "reads C (elem_loop k nxt b ev num lv) [] (\<lambda>r. r = num + length lvs)
    (numbered (\<lambda>n v. ev_val (ev n (decode_lval b v RdbString_new))) num (lv # lvs))"
  using assms(3,4)
proof (induction arbitrary: k num rule: iterates.induct)
  case (stop lv lv')
  then obtain j where k: "k = Suc j" by (cases k) auto
  show ?case
    by (auto simp: k stop.hyps andThen_checked intro!: reads_then_emit [OF C] reads_ret)
next
  case (step lv lv' lvs)
  then obtain j where k: "k = Suc j" and j: "length lvs < j" by (cases k) auto
  show ?case
    using step.IH [OF j, of "Suc num"] by (auto simp: k step.hyps andThen_checked intro!: reads_then_emit [OF C])
qed

fun pairs :: "'a list \<Rightarrow> ('a \<times> 'a) list" where
  "pairs (a # b # xs) = (a, b) # pairs xs"
| "pairs xs = []"

text \<open>An element without a partner is dropped.\<close>

lemma pair_loop_runs:
  assumes C: "steady C" "\<And>s. C s \<Longrightarrow> dec_out s = DataOut"
    and "iterates nxt lv lvs" "length lvs < k"
  shows "reads C (pair_loop k nxt b ev num lv) [] (\<lambda>_. True)
    (numbered (\<lambda>n (u, v). ev_val (ev n (decode_lval b u RdbString_new) (decode_lval b v RdbString_new))) num (pairs (lv # lvs)))"
  using assms(3,4)
proof (induction lvs arbitrary: lv k num rule: induct_list012)
  case 1
  then obtain j lv' where k: "k = Suc j" and n: "nxt lv = Some (False, lv')"
    by (cases k) (auto elim: iterates_NilE)
  show ?case by (auto simp: k n andThen_checked intro: reads_ret)
next
  case (2 v)
  then obtain j lv' where k: "k = Suc j" and n: "nxt lv = Some (True, v)" "nxt v = Some (False, lv')"
    by (cases k) (auto elim!: iterates_ConsE iterates_NilE)
  show ?case by (auto simp: k n andThen_checked intro!: reads_then_emit [OF C] reads_ret)
next
  case (3 v w vs)
  from 3(3) have n: "nxt lv = Some (True, v)" "nxt v = Some (True, w)" "iterates nxt w vs"
    by (auto elim!: iterates_ConsE)
  from 3(4) obtain j where k: "k = Suc j" "length vs < j" by (cases k) auto
  show ?case
    using 3(1) [OF n(3) k(2), of "Suc num"]
    by (auto simp: k(1) n andThen_checked intro!: reads_then_emit [OF C])
qed

lemma each_elem_runs:
  assumes C: "steady C" "\<And>s. C s \<Longrightarrow> dec_out s = DataOut" and first: "first = nxt lv" "iterates nxt lv lvs" "length lvs \<le> k"
  shows "reads C (each_elem first nxt k b ev num) [] (\<lambda>r. r = num + (length lvs - 1))
    (numbered (\<lambda>n v. ev_val (ev n (decode_lval b v RdbString_new))) num lvs)"
proof (cases lvs)
  case Nil
  with first obtain lv' where "first = Some (False, lv')" by (auto elim: iterates_NilE)
  then show ?thesis by (auto simp: each_elem_def Nil andThen_checked intro!: reads_ret)
next
  case (Cons v vs)
  with first have "first = Some (True, v)" "iterates nxt v vs" "length vs < k" by (auto elim: iterates_ConsE)
  then show ?thesis
    using elem_loop_runs [OF C, of nxt v vs k] by (simp add: each_elem_def Cons andThen_checked)
qed

lemma each_pair_runs:
  assumes C: "steady C" "\<And>s. C s \<Longrightarrow> dec_out s = DataOut" and first: "first = nxt lv" "iterates nxt lv lvs" "length lvs \<le> k"
  shows "reads C (each_pair first nxt k b ev) [] (\<lambda>_. True)
    (numbered (\<lambda>n (u, v). ev_val (ev n (decode_lval b u RdbString_new) (decode_lval b v RdbString_new))) 0 (pairs lvs))"
proof (cases lvs)
  case Nil
  with first obtain lv' where "first = Some (False, lv')" by (auto elim: iterates_NilE)
  then show ?thesis by (auto simp: each_pair_def Nil andThen_checked intro!: reads_ret)
next
  case (Cons v vs)
  with first have "first = Some (True, v)" "iterates nxt v vs" "length vs < k" by (auto elim: iterates_ConsE)
  then show ?thesis
    using pair_loop_runs [OF C, of nxt v vs k] by (simp add: each_pair_def Cons andThen_checked)
qed

end
