(* ===== verification/Rdb_Packed.thy ===== *)
theory Rdb_Packed
  imports Rdb_Reads
begin

text \<open>
  Ziplists, listpacks and integer sets as sequences of values: their bytes, the traversals that
  yield the values, and the blocks of bytes behind a length in which they stand.
\<close>

section \<open>Packed lists\<close>

text \<open>A ziplist of strings and a listpack, as the encoders write them.\<close>

definition zip_bytes :: "u8 list list \<Rightarrow> u8 list" where
  "zip_bytes ds = mem_store 4 (word_of_nat (zip_size ds) :: u32)
     @ mem_store 4 (word_of_nat (10 + length (zip_entries 0 (butlast ds))) :: u32)
     @ mem_store 2 (zip_count ds) @ zip_entries 0 ds @ [0xff]"

definition lp_bytes :: "lp_item list \<Rightarrow> u8 list" where
  "lp_bytes its = mem_store 4 (word_of_nat (7 + length (lp_entries its)) :: u32)
     @ mem_store 2 (if length its \<le> 0xffff then word_of_nat (length its) else 0xffff :: u16) @ lp_entries its @ [0xff]"

definition zip_ok :: "u8 list list \<Rightarrow> bool" where
  "zip_ok ds \<longleftrightarrow> zip_size ds < 2 ^ 32"

definition lp_ok :: "lp_item list \<Rightarrow> bool" where
  "lp_ok its \<longleftrightarrow> (\<forall>it \<in> set its. lp_item_ok it) \<and> 7 + length (lp_entries its) < 2 ^ 32"

fun lp_item_val :: "lp_item \<Rightarrow> rdb_val" where
  "lp_item_val (LpStr d) = StrVal d"
| "lp_item_val (LpInt v) = IntVal v"

lemma length_zip_bytes: "length (zip_bytes ds) = zip_size ds"
  by (simp add: zip_bytes_def)

lemma length_lp_bytes: "length (lp_bytes its) = 7 + length (lp_entries its)"
  by (simp add: lp_bytes_def)

text \<open>A traversal from \<open>lv\<close> that yields the given values within \<open>k\<close> steps.\<close>

definition yields :: "(RdbListValue \<Rightarrow> (bool \<times> RdbListValue) option) \<Rightarrow> ptr \<Rightarrow> RdbListValue \<Rightarrow> nat \<Rightarrow> rdb_val list \<Rightarrow> bool" where
  "yields nxt b lv k vs \<longleftrightarrow> (\<exists>lvs. iterates nxt lv lvs \<and> length lvs \<le> k
     \<and> map (\<lambda>v. str_val (decode_lval b v RdbString_new)) lvs = map Some vs)"

lemma length_zip_entries_ge: "length ds \<le> length (zip_entries pv ds)"
  by (induction ds arbitrary: pv) (auto simp: zip_entry_def prev_bytes_def intro: le_trans [OF _ le_add2])

lemma length_zip_entries_mem: "d \<in> set ds \<Longrightarrow> length d \<le> length (zip_entries pv ds)"
  by (induction ds arbitrary: pv) (auto simp: zip_entry_def intro: le_trans [OF _ le_add2])

lemma lval_string:
  "rdn (pmem b) d (lv_data_len v) = Some xs \<Longrightarrow> lv_data v = Some d \<Longrightarrow> length xs < 2 ^ 64 \<Longrightarrow>
     str_val (decode_lval b v RdbString_new) = Some (StrVal xs)"
  by (auto simp: decode_lval_def rdn_Some unat_of_nat)

lemma lval_strings:
  assumes "map (\<lambda>v. rdn (pmem b) (the (lv_data v)) (lv_data_len v)) lvs = map Some ds" "\<forall>v\<in>set lvs. lv_data v \<noteq> None"
    "\<And>d. d \<in> set ds \<Longrightarrow> length d < 2 ^ 64"
  shows "map (\<lambda>v. str_val (decode_lval b v RdbString_new)) lvs = map Some (map StrVal ds)"
  using assms
proof (induction lvs arbitrary: ds)
  case (Cons v lvs)
  then obtain d ds' where "ds = d # ds'" by (cases ds) auto
  with Cons show ?case by (auto intro!: lval_string)
qed simp

lemma zip_yields:
  assumes at: "bytes_at (pmem b) (ppos b) (zip_bytes ds)" and ok: "zip_ok ds"
  obtains z where "zip_init (pmem b) (ppos b) (word_of_nat (length (zip_bytes ds))) RdbZipList_new = Some (True, z)"
    "unat (zllen z) = min (length ds) 0xffff"
    "zip_first (pmem b) z lv = zip_next (pmem b) z (lv\<lparr>lv_entry := zl_data z, lv_entry_len := 0\<rparr>)"
    "yields (zip_next (pmem b) z) b (lv\<lparr>lv_entry := zl_data z, lv_entry_len := 0\<rparr>) (Suc (zl_end z)) (map StrVal ds)"
proof -
  let ?n = "zip_size ds" let ?p = "ppos b" and ?m = "pmem b"
  have n: "unat (word_of_nat ?n :: u32) = ?n" "(ucast (word_of_nat ?n :: u32) :: u64) = word_of_nat ?n"
    using ok unat_of_nat_32 [of ?n] ucast_of_nat_64 [of ?n] by (simp_all only: zip_ok_def)
  define zt :: u32 where "zt = word_of_nat (10 + length (zip_entries 0 (butlast ds)))"
  have at4: "bytes_at ?m ?p (mem_store 4 (word_of_nat ?n :: u32))" "bytes_at ?m (?p + 4) (mem_store 4 zt)"
    "bytes_at ?m (?p + 8) (mem_store 2 (zip_count ds))" "bytes_at ?m (?p + 10) (zip_entries 0 ds @ [0xff])"
    using at unfolding zip_bytes_def zt_def bytes_at_append by (simp_all add: ac_simps)
  define z where "z = RdbZipList_new\<lparr>zlbytes := word_of_nat ?n, zltail := zt, zllen := zip_count ds,
      zl_data := ?p + 10, zl_end := ?p + ?n\<rparr>"
  define lv0 where "lv0 = lv\<lparr>lv_entry := zl_data z, lv_entry_len := 0\<rparr>"
  have z: "zip_init ?m ?p (word_of_nat (length (zip_bytes ds))) RdbZipList_new = Some (True, z)"
    using zip_init_bytes [OF at4(1-3)] n by (simp add: z_def length_zip_bytes)
  have le: "length ds \<le> length (zip_entries 0 ds)" by (rule length_zip_entries_ge)
  obtain lvs where it: "iterates (zip_next ?m z) lv0 lvs"
    "map (\<lambda>v. rdn ?m (the (lv_data v)) (lv_data_len v)) lvs = map Some ds" "\<forall>v\<in>set lvs. lv_data v \<noteq> None"
    using iterates_zip_entries [of ?m lv0 0 ds z] at4(4) ok by (auto simp: lv_next_pos_def z_def lv0_def zip_ok_def)
  have len: "length lvs = length ds" using it(2) by (metis length_map)
  have "length d < 2 ^ 64" if "d \<in> set ds" for d
    using ok length_zip_entries_mem [OF that, of 0] by (simp add: zip_ok_def)
  then have "map (\<lambda>v. str_val (decode_lval b v RdbString_new)) lvs = map Some (map StrVal ds)"
    using lval_strings [OF it(2,3)] by blast
  then have "yields (zip_next ?m z) b lv0 (Suc (zl_end z)) (map StrVal ds)"
    using it(1) len le by (auto simp: yields_def z_def)
  with z show ?thesis
    using that ok zip_count_unat [of ds] le by (simp add: z_def zip_ok_def zip_first_def lv0_def)
qed


lemma length_lp_entries_ge: "length its \<le> length (lp_entries its)"
proof (induction its)
  case (Cons i its)
  have "lp_head i \<noteq> []" by (cases i) auto
  then have "0 < length (lp_entry i)" by (simp add: lp_entry_def)
  with Cons.IH show ?case by (simp del: length_greater_0_conv)
qed simp

lemma length_lp_entries_mem: "LpStr d \<in> set its \<Longrightarrow> length d \<le> length (lp_entries its)"
  by (induction its) (auto simp: lp_entry_def intro: le_trans [OF _ le_add2])

lemma lval_items:
  assumes "map (lp_item_of (pmem b)) lvs = map Some its" "\<And>d. LpStr d \<in> set its \<Longrightarrow> length d < 2 ^ 64"
  shows "map (\<lambda>v. str_val (decode_lval b v RdbString_new)) lvs = map Some (map lp_item_val its)"
  using assms
proof (induction lvs arbitrary: its)
  case (Cons v lvs)
  then obtain i its' where i: "its = i # its'" by (cases its) auto
  with Cons.prems(1) have v: "lp_item_of (pmem b) v = Some i" by simp
  have "str_val (decode_lval b v RdbString_new) = Some (lp_item_val i)"
  proof (cases "lv_data v")
    case None
    with v show ?thesis by (auto simp: lp_item_of_def decode_lval_def)
  next
    case (Some d)
    with v obtain xs where "i = LpStr xs" "rdn (pmem b) d (lv_data_len v) = Some xs"
      by (auto simp: lp_item_of_def)
    with Some Cons.prems(2) [of xs] i show ?thesis by (auto intro: lval_string)
  qed
  with Cons i show ?case by auto
qed simp

text \<open>A listpack opens, and its traversal yields its items.\<close>

lemma lp_opens:
  assumes at: "bytes_at (pmem b) (ppos b) (lp_bytes its)" and ok: "lp_ok its"
  obtains z lvs where "lp_init (pmem b) (ppos b) (word_of_nat (length (lp_bytes its))) RdbListPack_new = Some (True, z)"
    "iterates (lp_next (pmem b) z) (lv\<lparr>lv_entry := lp_data z, lv_entry_len := 0\<rparr>) lvs" "map (lp_item_of (pmem b)) lvs = map Some its"
    "length (lp_entries its) \<le> lp_end z"
proof -
  let ?n = "7 + length (lp_entries its)" let ?p = "ppos b" and ?m = "pmem b"
  have n: "unat (word_of_nat ?n :: u32) = ?n" "(ucast (word_of_nat ?n :: u32) :: u64) = word_of_nat ?n"
    using ok unat_of_nat_32 [of ?n] ucast_of_nat_64 [of ?n] by (simp_all only: lp_ok_def)
  define zn :: u16 where "zn = (if length its \<le> 0xffff then word_of_nat (length its) else 0xffff)"
  have at4: "bytes_at ?m ?p (mem_store 4 (word_of_nat ?n :: u32))" "bytes_at ?m (?p + 4) (mem_store 2 zn)"
    "bytes_at ?m (?p + 6) (lp_entries its @ [0xff])"
    using at unfolding lp_bytes_def zn_def bytes_at_append by (simp_all add: ac_simps)
  define z where "z = RdbListPack_new\<lparr>lpbytes := word_of_nat ?n, lplen := zn, lp_data := ?p + 6, lp_end := ?p + ?n\<rparr>"
  define lv0 where "lv0 = lv\<lparr>lv_entry := lp_data z, lv_entry_len := 0\<rparr>"
  have "lp_init ?m ?p (word_of_nat (length (lp_bytes its))) RdbListPack_new = Some (True, z)"
    using lp_init_bytes [OF at4(1,2)] n by (simp add: z_def length_lp_bytes)
  moreover have "length (lp_entries its) \<le> lp_end z" by (simp add: z_def)
  moreover have "\<exists>lvs. iterates (lp_next ?m z) lv0 lvs \<and> map (lp_item_of ?m) lvs = map Some its"
    using iterates_lp_entries [of ?m lv0 its z] at4(3) ok by (auto simp: lv_next_pos_def z_def lv0_def lp_ok_def)
  ultimately show ?thesis
    using that by (auto simp: lv0_def)
qed

lemma lp_yields:
  assumes at: "bytes_at (pmem b) (ppos b) (lp_bytes its)" and ok: "lp_ok its"
  obtains z where "lp_init (pmem b) (ppos b) (word_of_nat (length (lp_bytes its))) RdbListPack_new = Some (True, z)"
    "lp_first (pmem b) z lv = lp_next (pmem b) z (lv\<lparr>lv_entry := lp_data z, lv_entry_len := 0\<rparr>)"
    "yields (lp_next (pmem b) z) b (lv\<lparr>lv_entry := lp_data z, lv_entry_len := 0\<rparr>) (Suc (lp_end z)) (map lp_item_val its)"
proof -
  obtain z lvs where z: "lp_init (pmem b) (ppos b) (word_of_nat (length (lp_bytes its))) RdbListPack_new = Some (True, z)"
    "iterates (lp_next (pmem b) z) (lv\<lparr>lv_entry := lp_data z, lv_entry_len := 0\<rparr>) lvs" "map (lp_item_of (pmem b)) lvs = map Some its"
    "length (lp_entries its) \<le> lp_end z"
    using lp_opens [OF at ok] by blast
  have "length lvs = length its" using z(3) by (metis length_map)
  moreover have "length d < 2 ^ 64" if "LpStr d \<in> set its" for d
    using ok length_lp_entries_mem [OF that] by (simp add: lp_ok_def)
  then have "map (\<lambda>v. str_val (decode_lval b v RdbString_new)) lvs = map Some (map lp_item_val its)"
    using lval_items [OF z(3)] by blast
  ultimately have "yields (lp_next (pmem b) z) b (lv\<lparr>lv_entry := lp_data z, lv_entry_len := 0\<rparr>) (Suc (lp_end z)) (map lp_item_val its)"
    using z(2,4) length_lp_entries_ge [of its] by (auto simp: yields_def)
  with z(1) show ?thesis using that by (simp add: lp_first_def)
qed

lemma numbered_map: "numbered ev num (map f xs) = numbered (\<lambda>n x. ev n (f x)) num xs"
  by (induction xs arbitrary: num) auto

lemma numbered_cong: "(\<And>n x. x \<in> set xs \<Longrightarrow> f n x = g n x) \<Longrightarrow> numbered f num xs = numbered g num xs"
  by (induction xs arbitrary: num) auto

lemma pairs_map: "pairs (map f xs) = map (map_prod f f) (pairs xs)"
  by (induction xs rule: pairs.induct) auto

lemma pairs_concat: "pairs (concat (map (\<lambda>(a, b). [f a, f b]) ps)) = map (map_prod f f) ps"
  by (induction ps) auto

text \<open>The traversals make the calls of the values they yield.\<close>

lemma each_elem_yields:
  assumes C: "steady C" "\<And>s. C s \<Longrightarrow> dec_out s = DataOut" and first: "first = nxt lv" "yields nxt b lv k vs"
    and ev: "\<And>n r. ev_val (ev n r) = g n (str_val r)"
  shows "reads C (each_elem first nxt k b ev num) [] (\<lambda>r. r = num + (length vs - 1)) (numbered (\<lambda>n v. g n (Some v)) num vs)"
proof -
  obtain lvs where lvs: "iterates nxt lv lvs" "length lvs \<le> k"
    and vals: "map (\<lambda>v. str_val (decode_lval b v RdbString_new)) lvs = map Some vs"
    using first(2) by (auto simp: yields_def)
  have "length lvs = length vs" using vals by (metis length_map)
  moreover have "numbered (\<lambda>n v. ev_val (ev n (decode_lval b v RdbString_new))) num lvs = numbered g num (map Some vs)"
    unfolding vals [symmetric] numbered_map by (simp add: ev)
  ultimately show ?thesis
    using each_elem_runs [OF C first(1) lvs, of b ev num] by (simp add: numbered_map)
qed

lemma each_pair_yields:
  assumes C: "steady C" "\<And>s. C s \<Longrightarrow> dec_out s = DataOut" and first: "first = nxt lv" "yields nxt b lv k vs"
    and ev: "\<And>n r q. ev_val (ev n r q) = g n (str_val r) (str_val q)"
  shows "reads C (each_pair first nxt k b ev) [] (\<lambda>_. True) (numbered (\<lambda>n (u, v). g n (Some u) (Some v)) 0 (pairs vs))"
proof -
  obtain lvs where lvs: "iterates nxt lv lvs" "length lvs \<le> k"
    and vals: "map (\<lambda>v. str_val (decode_lval b v RdbString_new)) lvs = map Some vs"
    using first(2) by (auto simp: yields_def)
  have "numbered (\<lambda>n (u, v). ev_val (ev n (decode_lval b u RdbString_new) (decode_lval b v RdbString_new))) 0 (pairs lvs)
      = numbered (\<lambda>n (u, v). g n u v) 0 (pairs (map (\<lambda>v. str_val (decode_lval b v RdbString_new)) lvs))"
    by (simp add: pairs_map numbered_map ev split_def)
  also have "\<dots> = numbered (\<lambda>n (u, v). g n (Some u) (Some v)) 0 (pairs vs)"
    unfolding vals by (simp add: pairs_map numbered_map split_def)
  finally show ?thesis
    using each_pair_runs [OF C first(1) lvs, of b ev] by simp
qed

text \<open>The elements of a list of pairs, one after the other.\<close>

definition unpair :: "('a \<times> 'a) list \<Rightarrow> 'a list" where
  "unpair ps = concat (map (\<lambda>(a, b). [a, b]) ps)"
lemma pairs_unpair: "pairs (unpair ps) = ps"
  using pairs_concat [of "\<lambda>x. x" ps] by (simp add: unpair_def map_prod.id [unfolded id_def])

section \<open>Integer sets\<close>

text \<open>The elements of \<open>nb\<close> bytes, for the values they can hold.\<close>

definition intset_elem :: "nat \<Rightarrow> u64 \<Rightarrow> u8 list" where
  "intset_elem nb x = (if nb = 1 then [ucast x] else if nb = 2 then mem_store 2 (ucast x :: u16) else mem_store 4 (ucast x :: u32))"

definition intset_ok :: "nat \<Rightarrow> u64 list \<Rightarrow> bool" where
  "intset_ok nb xs \<longleftrightarrow> nb \<in> {1, 2, 4} \<and> nb * length xs < 2 ^ 32
     \<and> (\<forall>x \<in> set xs. - (2 ^ (8 * nb - 1)) \<le> sint x \<and> sint x < 2 ^ (8 * nb - 1))"

definition intset_bytes :: "nat \<Rightarrow> u64 list \<Rightarrow> u8 list" where
  "intset_bytes nb xs = mem_store 4 (word_of_nat nb :: u32) @ mem_store 4 (word_of_nat (length xs) :: u32)
     @ concat (map (intset_elem nb) xs)"

lemma length_intset_elem: "nb \<in> {1, 2, 4} \<Longrightarrow> length (intset_elem nb x) = nb"
  by (auto simp: intset_elem_def)

lemma length_intset_elems: "nb \<in> {1, 2, 4} \<Longrightarrow> length (concat (map (intset_elem nb) xs)) = nb * length xs"
  by (induction xs) (simp_all only: list.map concat.simps length_append length_intset_elem list.size, simp_all)

lemma intset_value_elem:
  assumes at: "bytes_at m p (intset_elem nb x)" and nb: "nb \<in> {1, 2, 4}"
    and x: "- (2 ^ (8 * nb - 1)) \<le> sint x" "sint x < 2 ^ (8 * nb - 1)"
  shows "intset_value (word_of_nat nb) m p = Some x"
proof -
  from nb consider "nb = 1" | "nb = 2" | "nb = 4" by blast
  then show ?thesis
  proof cases
    case 1
    then have "scast (ucast x :: u8) = x" using x by (simp add: scast_ucast_small)
    with 1 at show ?thesis by (simp add: intset_value_def intset_elem_def bytes_at_Cons)
  next
    case 2
    then have "scast (ucast x :: u16) = x" using x by (simp add: scast_ucast_small)
    with 2 at show ?thesis by (simp add: intset_value_def intset_elem_def bytes_at_rdn endian_read_bytes mem_load_store)
  next
    case 3
    then have "scast (ucast x :: u32) = x" using x by (simp add: scast_ucast_small)
    with 3 at show ?thesis by (simp add: intset_value_def intset_elem_def bytes_at_rdn endian_read_bytes mem_load_store)
  qed
qed

lemma bytes_at_padd: "bytes_at (pmem b) (ppos b) (xs @ ys) \<Longrightarrow> xs \<noteq> [] \<Longrightarrow> bytes_at (pmem b) (ppos (padd b (length xs))) ys"
  by (cases b) (auto simp: bytes_at_append dest: bytes_at_le)

lemma intset_loop_runs:
  assumes C: "steady C" "\<And>s. C s \<Longrightarrow> dec_out s = DataOut" and nb: "nb \<in> {1, 2, 4}"
    and "\<forall>x \<in> set xs. - (2 ^ (8 * nb - 1)) \<le> sint x \<and> sint x < 2 ^ (8 * nb - 1)"
    "bytes_at (pmem b) (ppos b) (concat (map (intset_elem nb) xs))"
  shows "reads C (intset_loop (length xs) num cnt (word_of_nat nb) b) [] (\<lambda>_. True)
    (numbered (\<lambda>n x. D_set n cnt (Some (IntVal x))) num xs)"
  using assms(4,5)
proof (induction xs arbitrary: num b)
  case Nil
  then show ?case by (simp add: reads_ret)
next
  case (Cons x xs)
  have e: "length (intset_elem nb x) = nb" "intset_elem nb x \<noteq> []"
    using nb length_intset_elem [of nb x] by auto
  have v: "intset_value (word_of_nat nb) (pmem b) (ppos b) = Some x"
    using Cons.prems nb by (intro intset_value_elem) (auto simp: bytes_at_append)
  have "bytes_at (pmem (padd b nb)) (ppos (padd b nb)) (concat (map (intset_elem nb) xs))"
    using bytes_at_padd [of b "intset_elem nb x"] Cons.prems(2) e by simp
  moreover have "unat (word_of_nat nb :: u32) = nb" using nb by auto
  ultimately show ?case
    using Cons.IH [of "padd b nb" "Suc num"] Cons.prems(1)
    by (auto simp: v andThen_checked intro!: reads_then_emit [OF C])
qed

section \<open>Blocks behind a length\<close>

lemma in_ctx_out [simp]: "in_ctx t L kv s \<Longrightarrow> dec_out s = DataOut"
  by (simp add: in_ctx_def)
lemma reads_consume:
  assumes "unat (l_len L) = length xs" "l_is_enc L = 0" "\<not> l_is_lzf L"
  shows "reads C (onb (consume E L)) xs (\<lambda>b. bytes_at (pmem b) (ppos b) xs) []"
  by (rule reads_onb) (use consume_runs [OF _ _ assms] in \<open>fastforce simp: bytes_at_def\<close>)

lemma reads_incr_at:
  "n = length xs \<Longrightarrow> reads C (incr_or_trunc n) xs (\<lambda>b. bytes_at (pmem b) (ppos b) xs) []"
  using reads_incr_or_trunc [of n xs C] by (simp add: bytes_at_def)

text \<open>A length, its bytes, and what is done with them.\<close>

lemma reads_block:
  assumes C: "steady C" and n: "length xs < 2 ^ 64"
    and f: "\<And>b. bytes_at (pmem b) (ppos b) xs \<Longrightarrow> reads C (f (word_of_nat (length xs)) b) ys B es"
  shows "reads C (andThen (onb (decode RdbLength_zero)) (\<lambda>L. andThen (onb (consume E L)) (f (l_len L))))
    (item_bytes (ItStr xs) @ ys) B es"
proof (rule reads_then_quiet [OF C reads_item_hdr [of "ItStr xs"]])
  fix L assume "L = item_len (ItStr xs)"
  moreover from this n have "unat (l_len L) = length xs" by (simp add: unat_of_nat)
  ultimately show "reads C (andThen (onb (consume E L)) (f (l_len L))) (xs @ ys) B es"
    by (intro reads_then_quiet [OF C reads_consume]) (auto intro!: f)
qed (use n in \<open>auto simp: item_bytes_def\<close>)
lemma reads_hdr_bytes: "reads C (onb (decode RdbLength_zero)) (hdr_bytes x) (\<lambda>L. L = RdbLength_zero\<lparr>l_len := x\<rparr>) []"
  by (rule reads_decode) (auto simp: decode_hdr_bytes MAX_RDB_HDRLEN_def intro: le_trans [OF length_hdr_bytes_le])
lemma reads_weaken:
  assumes "reads C m xs A es" "\<And>x. A x \<Longrightarrow> B x"
  shows "reads C m xs B es"
  using assms unfolding reads_def by metis

end
