(* ===== verification/Rdb_Flows.thy ===== *)
theory Rdb_Flows
  imports Rdb_Packed
begin

text \<open>
  Compressed strings. A writer may store a string compressed; the decoder then reads from a block of its
  own and goes back to the input only when it looks for the next header (\<open>look\<close>). \<open>flows\<close> says of a program that it
  consumes bytes of the input in spite of that, and makes some calls; \<open>reads\<close> is the special case within one block.
\<close>

section \<open>Strings as they are stored\<close>

text \<open>What a writer stores for a string, if it compresses it, and that the library gives the string back.\<close>

type_synonym packer = "u8 list \<Rightarrow> u8 list option"

definition compresses :: "rdb_env \<Rightarrow> packer \<Rightarrow> bool" where
  "compresses E K \<longleftrightarrow> (\<forall>xs z. K xs = Some z \<longrightarrow> xs \<noteq> [] \<and> length xs < 2 ^ 32 \<and> length z < 2 ^ 32
     \<and> lzf_decompress E z (length xs) = xs \<and> malloc_ok E (8 + word_of_nat (length xs)))"

definition lzf_hdr :: "u8 list \<Rightarrow> u8 list \<Rightarrow> u8 list" where
  "lzf_hdr z xs = 0xc3 # hdr_bytes (word_of_nat (length z)) @ hdr_bytes (word_of_nat (length xs))"

definition lzf_len :: "u8 list \<Rightarrow> u8 list \<Rightarrow> RdbLength" where
  "lzf_len z xs = RdbLength_zero\<lparr>l_is_lzf := True, l_zlen := word_of_nat (length z), l_len := word_of_nat (length xs)\<rparr>"

text \<open>The header of an item, what is decoded from it, and the bytes behind it.\<close>

fun item_head :: "packer \<Rightarrow> rdb_item \<Rightarrow> u8 list" where
  "item_head K (ItStr xs) = (case K xs of None \<Rightarrow> item_hdr (ItStr xs) | Some z \<Rightarrow> lzf_hdr z xs)"
| "item_head K (ItInt x) = item_hdr (ItInt x)"

fun item_head_len :: "packer \<Rightarrow> rdb_item \<Rightarrow> RdbLength" where
  "item_head_len K (ItStr xs) = (case K xs of None \<Rightarrow> item_len (ItStr xs) | Some z \<Rightarrow> lzf_len z xs)"
| "item_head_len K (ItInt x) = item_len (ItInt x)"

fun item_tail :: "packer \<Rightarrow> rdb_item \<Rightarrow> u8 list" where
  "item_tail K (ItStr xs) = (case K xs of None \<Rightarrow> xs | Some z \<Rightarrow> z)"
| "item_tail K (ItInt x) = []"

definition item_code :: "packer \<Rightarrow> rdb_item \<Rightarrow> u8 list" where
  "item_code K i = item_head K i @ item_tail K i"

text \<open>A writer that does not compress.\<close>

definition plain :: packer where
  "plain xs = None"

lemma plain_compresses [simp]: "compresses E plain"
  by (simp add: compresses_def plain_def)

lemma plain_item [simp]: "item_head plain i = item_hdr i" "item_tail plain i = item_data i" "item_code plain i = item_bytes i"
  by (cases i; simp add: plain_def item_code_def item_bytes_def)+

text \<open>A header whose bytes, wherever they are, decode to a length.\<close>

definition len_hdr :: "u8 list \<Rightarrow> RdbLength \<Rightarrow> bool" where
  "len_hdr xs L \<longleftrightarrow> xs \<noteq> [] \<and> length xs \<le> MAX_RDB_HDRLEN
     \<and> (\<forall>m p. bytes_at m p xs \<longrightarrow> decode_buf m p RdbLength_zero = Some (int (length xs), L))"

lemma len_hdr_item: "item_ok i \<Longrightarrow> len_hdr (item_hdr i) (item_len i)"
  using item_hdr_decode [of i] by (simp add: len_hdr_def)

lemma len_hdr_lzf: "len_hdr (lzf_hdr z xs) (lzf_len z xs)"
proof -
  have "length (lzf_hdr z xs) \<le> MAX_RDB_HDRLEN"
    using add_mono [OF length_hdr_bytes_le length_hdr_bytes_le] by (simp add: lzf_hdr_def MAX_RDB_HDRLEN_def le_Suc_eq)
  moreover have "decode_buf m p RdbLength_zero = Some (int (length (lzf_hdr z xs)), lzf_len z xs)" if "bytes_at m p (lzf_hdr z xs)" for m p
    using decode_lzf_bytes [OF that [unfolded lzf_hdr_def]] by (simp add: lzf_hdr_def lzf_len_def RdbLength_zero_def)
  ultimately show ?thesis by (simp add: len_hdr_def lzf_hdr_def)
qed

lemma len_hdr_head: "item_ok i \<Longrightarrow> len_hdr (item_head K i) (item_head_len K i)"
  using len_hdr_item [of i] len_hdr_lzf by (cases i) (auto simp del: item_hdr.simps item_len.simps split: option.split)

lemma andThen_ret_right: "andThen m ret = m"
  by (auto simp: andThen_def ret_def fun_eq_iff split: prod.split outcome.split)

section \<open>The position in the input\<close>

text \<open>
  At the end of a decompressed block the rest of the input is saved; \<open>settled\<close> is the buffer pointer after it is
  restored. \<open>in_main\<close>: nothing else is saved, and only blocks not freed yet can have saved it.
\<close>

definition direct :: "RdbBufptr \<Rightarrow> bool" where
  "direct bp \<longleftrightarrow> avail bp \<noteq> 0 \<or> sav_avail bp = 0"

definition settled :: "RdbBufptr \<Rightarrow> RdbBufptr" where
  "settled bp = (if direct bp then bp else pop_sav bp)"

definition in_main :: "RdbBufptr \<Rightarrow> bool" where
  "in_main bp \<longleftrightarrow> wf_bufptr bp \<and> (alloced_mem bp = [] \<longrightarrow> direct bp) \<and> sav (settled bp) = Null \<and> sav_avail (settled bp) = 0 \<and> sav_offset (settled bp) = 0"

text \<open>\<open>n\<close> bytes further in the input; blocks may have been allocated.\<close>

definition moved :: "nat \<Rightarrow> RdbBufptr \<Rightarrow> RdbBufptr \<Rightarrow> bool" where
  "moved n bp bp' \<longleftrightarrow> in_main bp' \<and> (let b = settled bp; b' = settled bp' in
     avail b' = avail b - n \<and> start_offset b' = start_offset b \<and> (\<exists>ms. alloced_mem b' = ms @ alloced_mem b)
     \<and> (avail b' \<noteq> 0 \<longrightarrow> buf b' = padd (buf b) n \<and> offset b' = offset b + n))"

lemma settled_direct [simp]: "direct bp \<Longrightarrow> settled bp = bp"
  by (simp add: settled_def)

lemma direct_settled [simp]: "direct (settled bp)"
  by (simp add: settled_def direct_def pop_sav_def)

lemma settled_wf: "wf_bufptr bp \<Longrightarrow> wf_bufptr (settled bp)"
  by (simp add: settled_def pop_sav_wf)

lemma settled_sel [simp]: "alloced_mem (settled bp) = alloced_mem bp" "start_offset (settled bp) = start_offset bp"
  "lookahead (settled bp) = lookahead bp"
  by (simp_all add: settled_def pop_sav_def)

lemma moved_trans: "moved m bp bp1 \<Longrightarrow> moved n bp1 bp2 \<Longrightarrow> moved (m + n) bp bp2"
  by (auto simp: moved_def Let_def)

lemma moved_bytes:
  assumes "has_bytes (settled bp) (xs @ ys)" "moved (length xs) bp bp'"
  shows "has_bytes (settled bp') ys"
proof (cases "ys = []")
  case True
  moreover have "wf_bufptr (settled bp')" using assms(2) by (simp add: moved_def in_main_def settled_wf)
  ultimately show ?thesis by simp
next
  case False
  then have "length ys \<noteq> 0" by simp
  with assms have "length ys \<noteq> 0" "avail (settled bp') = avail (settled bp) - length xs" "length xs + length ys \<le> avail (settled bp)"
    "bytes_at (pmem (buf (settled bp))) (ppos (buf (settled bp))) (xs @ ys)"
    by (simp_all add: moved_def Let_def has_bytes_def)
  note at = this
  have "avail (settled bp') \<noteq> 0" using at by linarith
  moreover have "pmem (buf (settled bp)) \<noteq> []" using bytes_at_le [OF at(4)] at(1) by auto
  ultimately show ?thesis
    using assms by (auto simp: moved_def Let_def has_bytes_def bytes_at_append ppos_padd)
qed

lemma advanced_moved:
  assumes "wf_bufptr bp" "in_main bp" "direct bp" "n \<le> avail bp" "advanced n bp bp'"
  shows "moved n bp bp'" "direct bp'"
proof -
  have s: "sav bp = Null" "sav_avail bp = 0" "sav_offset bp = 0" using assms(2,3) by (simp_all add: in_main_def)
  then show d: "direct bp'" using assms(5) by (simp add: advanced_def direct_def)
  have "wf_bufptr bp'" by (rule advanced_wf [OF assms(1,5,4)])
  with d s assms(3,5) show "moved n bp bp'"
    by (simp add: moved_def in_main_def advanced_def)
qed

lemma advanced_0_moved:
  assumes "in_main bp" "advanced 0 bp bp'"
  shows "moved 0 bp bp'" "direct bp' = direct bp"
proof -
  show d: "direct bp' = direct bp" using assms(2) by (simp add: advanced_def direct_def)
  have "wf_bufptr bp'" using assms advanced_wf [of bp 0 bp'] by (simp add: in_main_def)
  with d assms show "moved 0 bp bp'"
    by (cases "buf bp"; cases "sav bp") (auto simp: moved_def in_main_def advanced_def settled_def pop_sav_def Let_def)
qed

section \<open>Consuming bytes of the input\<close>

text \<open>
  \<open>m\<close> consumes the bytes \<open>xs\<close> of the input, returns a value with \<open>A\<close> and makes the calls \<open>evs\<close>; \<open>p\<close>: it may start
  at the end of a decompressed block, \<open>q\<close>: it may leave the buffer there.
\<close>

definition flows :: "bool \<Rightarrow> bool \<Rightarrow> (RdbDecode \<Rightarrow> bool) \<Rightarrow> (RdbDecode, 'a) prog \<Rightarrow> u8 list \<Rightarrow> ('a \<Rightarrow> bool)
    \<Rightarrow> rdb_val option RdbEvent list \<Rightarrow> bool" where
  "flows p q C m xs A evs \<longleftrightarrow> (\<forall>s. C s \<and> in_main (dec_bptr s) \<and> (p \<or> direct (dec_bptr s)) \<and> has_bytes (settled (dec_bptr s)) xs \<longrightarrow>
     (\<exists>x bp es. m s = (Ok x, s\<lparr>dec_bptr := bp, dec_log := dec_log s @ es\<rparr>) \<and> A x
        \<and> moved (length xs) (dec_bptr s) bp \<and> (q \<or> direct bp) \<and> map ev_val es = evs))"

lemma flowsI:
  assumes "\<And>s. C s \<Longrightarrow> in_main (dec_bptr s) \<Longrightarrow> p \<or> direct (dec_bptr s) \<Longrightarrow> has_bytes (settled (dec_bptr s)) xs \<Longrightarrow>
    \<exists>x bp es. m s = (Ok x, s\<lparr>dec_bptr := bp, dec_log := dec_log s @ es\<rparr>) \<and> A x
      \<and> moved (length xs) (dec_bptr s) bp \<and> (q \<or> direct bp) \<and> map ev_val es = evs"
  shows "flows p q C m xs A evs"
  using assms by (simp add: flows_def)

lemma flowsD:
  assumes "flows p q C m xs A evs" "C s" "in_main (dec_bptr s)" "p \<or> direct (dec_bptr s)" "has_bytes (settled (dec_bptr s)) xs"
  obtains x bp es where "m s = (Ok x, s\<lparr>dec_bptr := bp, dec_log := dec_log s @ es\<rparr>)" "A x"
    "moved (length xs) (dec_bptr s) bp" "q \<or> direct bp" "map ev_val es = evs"
  using assms unfolding flows_def by blast

lemma flows_weaken:
  assumes "flows p q C m xs A es" "p' \<Longrightarrow> p" "q \<Longrightarrow> q'" "\<And>x. A x \<Longrightarrow> B x"
  shows "flows p' q' C m xs B es"
  using assms unfolding flows_def by metis

lemma flows_andThen:
  assumes C: "steady C" and m: "flows p q C m xs A es" and f: "\<And>x. A x \<Longrightarrow> flows q r C (f x) ys B fs"
    and zs: "zs = xs @ ys" and gs: "gs = es @ fs"
  shows "flows p r C (andThen m f) zs B gs"
proof (rule flowsI)
  fix s assume s: "C s" "in_main (dec_bptr s)" "p \<or> direct (dec_bptr s)" "has_bytes (settled (dec_bptr s)) zs"
  obtain x bp l where 1: "m s = (Ok x, s\<lparr>dec_bptr := bp, dec_log := dec_log s @ l\<rparr>)" "A x"
    "moved (length xs) (dec_bptr s) bp" "q \<or> direct bp" "map ev_val l = es"
    using flowsD [OF m s(1-3)] has_bytes_prefix s(4) zs by metis
  let ?s = "s\<lparr>dec_bptr := bp, dec_log := dec_log s @ l\<rparr>"
  have c: "C ?s" "in_main (dec_bptr ?s)" "q \<or> direct (dec_bptr ?s)" "has_bytes (settled (dec_bptr ?s)) ys"
    using C s moved_bytes [OF _ 1(3)] zs 1(3,4) by (auto simp: steady_def moved_def)
  obtain y bp2 l2 where 2: "f x ?s = (Ok y, ?s\<lparr>dec_bptr := bp2, dec_log := dec_log ?s @ l2\<rparr>)" "B y"
    "moved (length ys) (dec_bptr ?s) bp2" "r \<or> direct bp2" "map ev_val l2 = fs"
    using flowsD [OF f [OF 1(2)] c] by metis
  have "moved (length zs) (dec_bptr s) bp2"
    using moved_trans [OF 1(3)] 2(3) zs by simp
  then show "\<exists>x bp es. andThen m f s = (Ok x, s\<lparr>dec_bptr := bp, dec_log := dec_log s @ es\<rparr>) \<and> B x
      \<and> moved (length zs) (dec_bptr s) bp \<and> (r \<or> direct bp) \<and> map ev_val es = gs"
    using 1 2 gs by (intro exI [of _ y] exI [of _ bp2] exI [of _ "l @ l2"]) (simp add: andThen_Ok)
qed

text \<open>Within one block.\<close>

lemma flows_reads:
  assumes "reads C m xs A es"
  shows "flows False q C m xs A es"
proof (rule flowsI)
  fix s assume s: "C s" "in_main (dec_bptr s)" "False \<or> direct (dec_bptr s)" "has_bytes (settled (dec_bptr s)) xs"
  then have c: "wf_bufptr (dec_bptr s)" "has_bytes (dec_bptr s) xs" "direct (dec_bptr s)" by (simp_all add: in_main_def)
  from readsD [OF assms s(1) c(1,2)] obtain x bp l where 1: "m s = (Ok x, s\<lparr>dec_bptr := bp, dec_log := dec_log s @ l\<rparr>)" "A x"
    "advanced (length xs) (dec_bptr s) bp" "map ev_val l = es" by blast
  with advanced_moved [OF c(1) s(2) c(3) _ 1(3)] c(2) show "\<exists>x bp l. m s = (Ok x, s\<lparr>dec_bptr := bp, dec_log := dec_log s @ l\<rparr>) \<and> A x
      \<and> moved (length xs) (dec_bptr s) bp \<and> (q \<or> direct bp) \<and> map ev_val l = es"
    by (intro exI [of _ x] exI [of _ bp] exI [of _ l]) (simp add: has_bytes_def)
qed

text \<open>What consumes nothing can run anywhere.\<close>

lemma flows_quiet:
  assumes "reads C m [] A es" "p \<Longrightarrow> q"
  shows "flows p q C m [] A es"
proof (rule flowsI)
  fix s assume s: "C s" "in_main (dec_bptr s)" "p \<or> direct (dec_bptr s)"
  then have c: "wf_bufptr (dec_bptr s)" "has_bytes (dec_bptr s) []" by (simp_all add: in_main_def)
  from readsD [OF assms(1) s(1) c] obtain x bp l where 1: "m s = (Ok x, s\<lparr>dec_bptr := bp, dec_log := dec_log s @ l\<rparr>)" "A x"
    "advanced 0 (dec_bptr s) bp" "map ev_val l = es" by (metis list.size(3))
  with advanced_0_moved [OF s(2) 1(3)] s(3) assms(2) show "\<exists>x bp l. m s = (Ok x, s\<lparr>dec_bptr := bp, dec_log := dec_log s @ l\<rparr>) \<and> A x
      \<and> moved (length []) (dec_bptr s) bp \<and> (q \<or> direct bp) \<and> map ev_val l = es"
    by (intro exI [of _ x] exI [of _ bp] exI [of _ l]) auto
qed

text \<open>A program that reads a header first looks, which restores the input.\<close>

lemma look_settled: "look n (settled bp) = look n bp"
  by (auto simp: look_def settled_def direct_def pop_sav_def)

lemma look_again:
  assumes "look n bp = (Ok la, bp1)" "length (lookahead bp) = 32" "avail bp \<noteq> 0"
  shows "length la = 32" "bp1 = bp\<lparr>lookahead := la\<rparr>" "look n (bp\<lparr>lookahead := la\<rparr>) = (Ok la, bp\<lparr>lookahead := la\<rparr>)"
  using assms by (auto simp: look_def Let_def wrn_def rdn_def split: if_splits option.splits)

lemma decode_pending:
  assumes bp: "wf_bufptr bp" "\<not> direct bp" "has_bytes (settled bp) h"
    and h: "h \<noteq> []" "length h \<le> MAX_RDB_HDRLEN" "\<And>m p. bytes_at m p h \<Longrightarrow> decode_buf m p L = Some (int (length h), L')"
  obtains la where "length la = 32" "decode L bp = decode L ((settled bp)\<lparr>lookahead := la\<rparr>)"
proof -
  let ?b = "settled bp"
  have a: "avail bp = 0" "avail ?b \<noteq> 0" using bp(2) by (simp_all add: direct_def settled_def pop_sav_def)
  have wf: "wf_bufptr ?b" using bp(1) by (rule settled_wf)
  obtain la where la: "look MAX_RDB_HDRLEN ?b = (Ok la, ?b\<lparr>lookahead := la\<rparr>)" "bytes_at la 0 h"
    using look_runs [OF wf bp(3) h(1,2)] by (auto simp: MAX_RDB_HDRLEN_def)
  have l: "length (lookahead ?b) = 32" using wf by (simp add: wf_bufptr_def)
  note again = look_again [OF la(1) l a(2)]
  have m: "decode_buf (pmem (buf ?b)) (ppos (buf ?b)) L = Some (int (length h), L')"
    using bp(3) by (intro h(3)) (simp add: has_bytes_def)
  let ?k = "andThen (incr (length h)) (\<lambda>r. case r of None \<Rightarrow> throw RDB_ERR_TRUNC | Some _ \<Rightarrow> ret L')"
  have "decode L bp = ?k (?b\<lparr>lookahead := la\<rparr>)"
    using a(1) la(1) h(3) [OF la(2)]
    by (simp add: decode_def run_andThen(3) MAX_RDB_HDRLEN_def look_settled andThen_Ok [where m = "look 19"] run_andThen(6) andThen_assoc andThen_checked)
  moreover have "decode L (?b\<lparr>lookahead := la\<rparr>) = ?k (?b\<lparr>lookahead := la\<rparr>)"
    using again(3) h(3) [OF la(2)] m
    by (simp add: decode_def run_andThen(3) MAX_RDB_HDRLEN_def andThen_Ok [where m = "look 19"] run_andThen(6) andThen_assoc andThen_checked)
  ultimately show ?thesis using that [OF again(1)] by simp
qed

lemma flows_hdr:
  assumes m: "reads C (andThen (onb (decode L)) f) (h @ xs) A es" and C: "steady C"
    and h: "h \<noteq> []" "length h \<le> MAX_RDB_HDRLEN" "\<And>m p. bytes_at m p h \<Longrightarrow> decode_buf m p L = Some (int (length h), L')"
  shows "flows p q C (andThen (onb (decode L)) f) (h @ xs) A es"
proof (rule flowsI)
  let ?m = "andThen (onb (decode L)) f"
  fix s assume s: "C s" "in_main (dec_bptr s)" "has_bytes (settled (dec_bptr s)) (h @ xs)"
  have wf: "wf_bufptr (dec_bptr s)" using s(2) by (simp add: in_main_def)
  obtain la where la: "length la = 32" "?m s = ?m (s\<lparr>dec_bptr := (settled (dec_bptr s))\<lparr>lookahead := la\<rparr>\<rparr>)"
  proof (cases "direct (dec_bptr s)")
    case True
    then show ?thesis using that [of "lookahead (dec_bptr s)"] wf by (simp add: wf_bufptr_def)
  next
    case False
    from decode_pending [OF wf False has_bytes_prefix [OF s(3)] h] obtain la where
      "length la = 32" "decode L (dec_bptr s) = decode L ((settled (dec_bptr s))\<lparr>lookahead := la\<rparr>)" .
    then show ?thesis by (intro that [of la]) (simp_all add: andThen_def onb_def zoom_def)
  qed
  let ?bp = "(settled (dec_bptr s))\<lparr>lookahead := la\<rparr>"
  let ?s = "s\<lparr>dec_bptr := ?bp\<rparr>"
  have bp: "direct ?bp" "in_main ?bp" "has_bytes (settled ?bp) (h @ xs)"
    using s(2,3) direct_settled [of "dec_bptr s"] settled_wf [OF wf] la(1)
    by (simp_all add: direct_def in_main_def settled_def has_bytes_def wf_bufptr_def)
  have "s\<lparr>dec_bptr := ?bp, dec_log := dec_log s\<rparr> = ?s" by simp
  then have "C ?s" using s(1) C unfolding steady_def by metis
  with bp flows_reads [OF m, of False, unfolded flows_def, rule_format, of ?s] obtain x bp' l where
    1: "?m ?s = (Ok x, ?s\<lparr>dec_bptr := bp', dec_log := dec_log ?s @ l\<rparr>)" "A x" "moved (length (h @ xs)) ?bp bp'" "direct bp'"
      "map ev_val l = es" by auto
  moreover have "moved n (dec_bptr s) bp'" if "moved n ?bp bp'" for n
    using that bp(1) by (auto simp: moved_def Let_def)
  ultimately show "\<exists>x bp l. ?m s = (Ok x, s\<lparr>dec_bptr := bp, dec_log := dec_log s @ l\<rparr>) \<and> A x
      \<and> moved (length (h @ xs)) (dec_bptr s) bp \<and> (q \<or> direct bp) \<and> map ev_val l = es"
    using la(2) by (intro exI [of _ x] exI [of _ bp'] exI [of _ l]) simp
qed

section \<open>Decompression\<close>

text \<open>The buffer pointer behind \<open>n\<close> compressed bytes that became \<open>xs\<close>.\<close>

definition unpacked :: "u8 list \<Rightarrow> nat \<Rightarrow> RdbBufptr \<Rightarrow> RdbBufptr \<Rightarrow> bool" where
  "unpacked xs n bp bp' \<longleftrightarrow> buf bp' = Ptr True xs 0 \<and> avail bp' = length xs \<and> offset bp' = 0 \<and> lookahead bp' = lookahead bp
     \<and> start_offset bp' = start_offset bp \<and> alloced_mem bp' = xs # alloced_mem bp
     \<and> (if n < avail bp then sav bp' = padd (buf bp) n \<and> sav_avail bp' = avail bp - n \<and> sav_offset bp' = offset bp + n
        else sav bp' = sav bp \<and> sav_avail bp' = sav_avail bp \<and> sav_offset bp' = sav_offset bp)"

lemma decompress_runs:
  assumes bp: "wf_bufptr bp" "has_bytes bp z" and K: "compresses E K" "K xs = Some z"
  obtains bp' where "decompress E (word_of_nat (length z)) (word_of_nat (length xs)) bp = (Ok True, bp')" "unpacked xs (length z) bp bp'"
proof -
  have k: "xs \<noteq> []" "length xs < 2 ^ 32" "length z < 2 ^ 32" "lzf_decompress E z (length xs) = xs" "malloc_ok E (8 + word_of_nat (length xs))"
    using K unfolding compresses_def by blast+
  have u: "unat (word_of_nat (length z) :: u64) = length z" "unat (ucast (word_of_nat (length z) :: u64) :: u32) = length z"
    "unat (word_of_nat (length xs) :: u64) = length xs" "unat (ucast (word_of_nat (length xs) :: u64) :: u32) = length xs"
    using k(2,3) by (simp_all add: unat_of_nat unsigned_ucast_eq take_bit_nat_eq_self)
  have "unat (8 + word_of_nat (length xs) :: u64) = 8 + length xs"
    using k(2) u(3) by (simp add: unat_word_ariths)
  obtain bp1 where 1: "incr (length z) bp = (Ok (Some (buf bp)), bp1)" "advanced (length z) bp bp1"
    "rdn (pmem (buf bp)) (ppos (buf bp)) (length z) = Some z"
    using incr_runs [OF bp refl] by blast
  let ?bp = "(if avail bp1 > 0 then bp1\<lparr>sav := buf bp1, sav_avail := avail bp1, sav_offset := offset bp1\<rparr> else bp1)
      \<lparr>buf := Ptr True xs 0, avail := length xs, offset := 0, alloced_mem := xs # alloced_mem bp1\<rparr>"
  have "lookahead bp1 = lookahead bp" using 1(1) by (auto simp: incr_def split: if_splits)
  then have "unpacked xs (length z) bp ?bp"
    using 1(2) by (auto simp: unpacked_def advanced_def)
  moreover have "decompress E (word_of_nat (length z)) (word_of_nat (length xs)) bp = (Ok True, ?bp)"
    using 1(1,3) k(1,4,5) u \<open>unat (8 + word_of_nat (length xs) :: u64) = 8 + length xs\<close>
    by (simp add: decompress_def andThen_Ok [where m = "incr (length z)"] run_simps Let_def)
  ultimately show ?thesis by (rule that [rotated])
qed

lemma unpacked_block: "wf_bufptr bp \<Longrightarrow> n \<le> avail bp \<Longrightarrow> unpacked xs n bp bp1 \<Longrightarrow> wf_bufptr bp1 \<and> has_bytes bp1 xs"
  using readable_padd [of "buf bp" n "avail bp - n"]
  by (auto simp: unpacked_def wf_bufptr_def has_bytes_def bytes_at_def rdn_def readable_def [of "Ptr True xs 0"] split: if_splits)

lemma unpacked_moved:
  assumes "wf_bufptr bp" "in_main bp" "direct bp" "n \<le> avail bp" "unpacked xs n bp bp1" "advanced (length xs) bp1 bp2"
  shows "moved n bp bp2"
proof -
  have s: "sav bp = Null" "sav_avail bp = 0" "sav_offset bp = 0" using assms(2,3) by (simp_all add: in_main_def)
  have "wf_bufptr bp2"
    using advanced_wf [OF _ assms(6)] unpacked_block [OF assms(1,4,5)] assms(5) by (simp add: unpacked_def)
  with s assms(3,5,6) show ?thesis
    by (auto simp: moved_def in_main_def advanced_def unpacked_def settled_def direct_def pop_sav_def split: if_splits)
qed

lemma flows_unpack:
  assumes "steady C" "compresses E K" "K xs = Some z" "reads C (f True) xs A es"
  shows "flows False True C (andThen (onb (decompress E (word_of_nat (length z)) (word_of_nat (length xs)))) f) z A es"
proof (rule flowsI)
  let ?m = "onb (decompress E (word_of_nat (length z)) (word_of_nat (length xs)))"
  fix s assume s: "C s" "in_main (dec_bptr s)" "False \<or> direct (dec_bptr s)" "has_bytes (settled (dec_bptr s)) z"
  then have c: "wf_bufptr (dec_bptr s)" "has_bytes (dec_bptr s) z" "direct (dec_bptr s)" "length z \<le> avail (dec_bptr s)"
    by (simp_all add: in_main_def has_bytes_def)
  obtain bp1 where 1: "decompress E (word_of_nat (length z)) (word_of_nat (length xs)) (dec_bptr s) = (Ok True, bp1)"
    "unpacked xs (length z) (dec_bptr s) bp1"
    by (rule decompress_runs [OF c(1,2) assms(2,3)])
  let ?s = "s\<lparr>dec_bptr := bp1\<rparr>"
  have "s\<lparr>dec_bptr := bp1, dec_log := dec_log s\<rparr> = ?s" by simp
  then have "C ?s" using s(1) assms(1) unfolding steady_def by metis
  moreover have "wf_bufptr (dec_bptr ?s)" "has_bytes (dec_bptr ?s) xs" using unpacked_block [OF c(1,4) 1(2)] by simp_all
  ultimately obtain x bp l where 2: "f True ?s = (Ok x, ?s\<lparr>dec_bptr := bp, dec_log := dec_log ?s @ l\<rparr>)" "A x"
    "advanced (length xs) (dec_bptr ?s) bp" "map ev_val l = es"
    using readsD [OF assms(4)] by blast
  have "?m s = (Ok True, ?s)" using 1(1) by (simp add: onb_def zoom_def)
  with 2 unpacked_moved [OF c(1) s(2) c(3,4) 1(2), of bp]
  show "\<exists>x bp l. andThen ?m f s = (Ok x, s\<lparr>dec_bptr := bp, dec_log := dec_log s @ l\<rparr>) \<and> A x
      \<and> moved (length z) (dec_bptr s) bp \<and> (True \<or> direct bp) \<and> map ev_val l = es"
    by (intro exI [of _ x] exI [of _ bp] exI [of _ l]) (simp add: andThen_Ok)
qed

section \<open>Items and blocks\<close>

lemma reads_len: "len_hdr xs L \<Longrightarrow> reads C (onb (decode RdbLength_zero)) xs (\<lambda>M. M = L) []"
  by (rule reads_decode) (auto simp: len_hdr_def)

lemma flows_len:
  assumes h: "len_hdr xs L" and C: "steady C"
  shows "flows p q C (onb (decode RdbLength_zero)) xs (\<lambda>M. M = L) []"
proof -
  have "reads C (andThen (onb (decode RdbLength_zero)) ret) (xs @ []) (\<lambda>M. M = L) []"
    by (rule reads_then_quiet [OF C reads_len [OF h]]) (auto intro: reads_ret)
  from flows_hdr [OF this C, where L' = L] h show ?thesis by (simp add: len_hdr_def andThen_ret_right)
qed

lemma reads_str:
  assumes "steady C" "l_is_enc L = 0" "unat (l_len L) = length xs"
  shows "reads C (decode_str L) xs (\<lambda>r. str_val r = Some (StrVal xs)) []"
  unfolding decode_str_def using assms
  by (auto intro!: reads_then_quiet [OF assms(1) reads_incr_or_trunc, where ys = "[]"] reads_ret)

lemma lzf_len_sel [simp]: "l_is_enc (lzf_len z xs) = 0" "l_is_lzf (lzf_len z xs)" "l_len (lzf_len z xs) = word_of_nat (length xs)"
  "l_zlen (lzf_len z xs) = word_of_nat (length z)"
  by (simp_all add: lzf_len_def)

lemma compresses_length:
  assumes "compresses E K" "K xs = Some z"
  shows "unat (word_of_nat (length xs) :: u64) = length xs"
proof -
  have "length xs < 2 ^ 32" using assms unfolding compresses_def by blast
  then show ?thesis by (simp add: unat_of_nat)
qed

lemma flows_rlen:
  assumes C: "steady C" and K: "compresses E K" and i: "item_ok i"
  shows "flows p True C (decode_rlen E) (item_code K i) (\<lambda>r. str_val r = Some (item_val i)) []"
proof (cases "\<exists>xs z. i = ItStr xs \<and> K xs = Some z")
  case True
  then obtain xs z where x: "i = ItStr xs" "K xs = Some z" by blast
  have str: "reads C (decode_str (lzf_len z xs)) xs (\<lambda>r. str_val r = Some (StrVal xs)) []"
    using compresses_length [OF K x(2)] by (intro reads_str [OF C]) simp_all
  show ?thesis
    unfolding decode_rlen_def
    by (rule flows_andThen [OF C flows_len [OF len_hdr_lzf [of z xs] C, where q = False]])
      (use str in \<open>auto simp: x item_code_def andThen_assoc andThen_ret intro!: flows_unpack [OF C K x(2)]\<close>)
next
  case False
  then have "item_code K i = item_bytes i" by (cases i) (auto simp: item_code_def item_bytes_def)
  moreover have "flows p True C (decode_rlen E) (item_hdr i @ item_data i) (\<lambda>r. str_val r = Some (item_val i)) []"
    using flows_hdr [OF reads_decode_rlen [OF C i, of E, unfolded item_bytes_def decode_rlen_def] C] item_hdr_decode [OF i]
    by (simp add: decode_rlen_def)
  ultimately show ?thesis by (simp add: item_bytes_def)
qed

lemma consume_unpacks:
  assumes K: "compresses E K" "K xs = Some z" and bp: "in_main bp" "direct bp" "has_bytes bp z"
  obtains bp' where "consume E (lzf_len z xs) bp = (Ok (Ptr True xs 0), bp')" "moved (length z) bp bp'" "alloced_mem bp' \<noteq> []"
proof -
  have wf: "wf_bufptr bp" "length z \<le> avail bp" using bp(1,3) by (simp_all add: in_main_def has_bytes_def)
  obtain bp1 where 1: "decompress E (word_of_nat (length z)) (word_of_nat (length xs)) bp = (Ok True, bp1)" "unpacked xs (length z) bp bp1"
    by (rule decompress_runs [OF wf(1) bp(3) K])
  have bp1: "wf_bufptr bp1" "has_bytes bp1 xs" "buf bp1 = Ptr True xs 0"
    using unpacked_block [OF wf 1(2)] 1(2) by (simp_all add: unpacked_def)
  obtain bp2 where 2: "incr (length xs) bp1 = (Ok (Some (buf bp1)), bp2)" "advanced (length xs) bp1 bp2"
    using incr_runs [OF bp1(1,2) refl] by blast
  have "consume E (lzf_len z xs) bp = (Ok (Ptr True xs 0), bp2)"
    using 1(1) 2(1) bp1(3) by (simp add: consume_def run_simps andThen_Ok compresses_length [OF K])
  then show ?thesis
    using that unpacked_moved [OF wf(1) bp(1,2) wf(2) 1(2) 2(2)] 1(2) 2(2) by (simp add: unpacked_def advanced_def)
qed

lemma flows_consume:
  assumes C: "steady C" and K: "compresses E K" and n: "length xs < 2 ^ 64" and L: "L = item_head_len K (ItStr xs)"
  shows "flows False True C (onb (consume E L)) (item_tail K (ItStr xs)) (\<lambda>b. bytes_at (pmem b) (ppos b) xs) []"
proof (cases "K xs")
  case None
  with L n show ?thesis
    by (auto intro!: flows_reads reads_consume simp: unat_of_nat)
next
  case (Some z)
  show ?thesis
  proof (rule flowsI)
    fix s assume s: "C s" "in_main (dec_bptr s)" "False \<or> direct (dec_bptr s)" "has_bytes (settled (dec_bptr s)) (item_tail K (ItStr xs))"
    obtain bp where "consume E (lzf_len z xs) (dec_bptr s) = (Ok (Ptr True xs 0), bp)" "moved (length z) (dec_bptr s) bp"
      by (rule consume_unpacks [OF K Some s(2)]) (use s(3,4) Some in auto)
    moreover have "bytes_at xs 0 xs" using bytes_at_start [of xs "[]"] by simp
    ultimately show "\<exists>x bp es. onb (consume E L) s = (Ok x, s\<lparr>dec_bptr := bp, dec_log := dec_log s @ es\<rparr>)
        \<and> bytes_at (pmem x) (ppos x) xs \<and> moved (length (item_tail K (ItStr xs))) (dec_bptr s) bp \<and> (True \<or> direct bp) \<and> map ev_val es = []"
      using Some by (intro exI [of _ "Ptr True xs 0"] exI [of _ bp] exI [of _ "[]"]) (simp add: L onb_def zoom_def)
  qed
qed

lemma flows_block:
  assumes C: "steady C" and K: "compresses E K" and n: "length xs < 2 ^ 64"
    and f: "\<And>b. bytes_at (pmem b) (ppos b) xs \<Longrightarrow> flows True r C (f (word_of_nat (length xs)) b) ys B es"
  shows "flows p r C (andThen (onb (decode RdbLength_zero)) (\<lambda>L. andThen (onb (consume E L)) (f (l_len L))))
    (item_code K (ItStr xs) @ ys) B es"
proof (rule flows_andThen [OF C flows_len [OF len_hdr_head [of "ItStr xs" K] C, where q = False]])
  fix L assume L: "L = item_head_len K (ItStr xs)"
  then have "l_len L = word_of_nat (length xs)" by (simp split: option.splits)
  then show "flows False r C (andThen (onb (consume E L)) (f (l_len L))) (item_tail K (ItStr xs) @ ys) B es"
    by (intro flows_andThen [OF C flows_consume [OF C K n L]]) (auto intro!: f)
qed (use n in \<open>auto simp: item_code_def\<close>)

section \<open>Loops\<close>

lemma flows_ret: "A x \<Longrightarrow> (p \<Longrightarrow> q) \<Longrightarrow> flows p q C (ret x) [] A []"
  by (rule flows_quiet [OF reads_ret])

lemma flows_then_emit:
  assumes "steady C" "\<And>s. C s \<Longrightarrow> dec_out s = DataOut" "ev_val e = g" "flows p q C (f ()) ys B fs"
  shows "flows p q C (andThen (emit e) f) ys B (g # fs)"
  by (rule flows_andThen [OF assms(1) flows_quiet [OF reads_emit [OF assms(2)], where q = p]]) (auto simp: assms(3,4))

lemma flows_loop:
  assumes C: "steady C" "\<And>s. C s \<Longrightarrow> dec_out s = DataOut"
    and nil: "\<And>num. loop 0 num = ret ()"
    and suc: "\<And>k num. loop (Suc k) num = andThen m (\<lambda>r. andThen (emit (e num r)) (\<lambda>_. loop k (Suc num)))"
    and step: "\<And>x. x \<in> set xs \<Longrightarrow> flows True True C m (enc x) (A x) []"
    and ev: "\<And>x r num. A x r \<Longrightarrow> ev_val (e num r) = ev num x"
  shows "flows True True C (loop (length xs) num) (concat (map enc xs)) (\<lambda>_. True) (numbered ev num xs)"
  using step
proof (induction xs arbitrary: num)
  case Nil
  then show ?case by (simp add: nil flows_ret)
next
  case (Cons x xs)
  have "flows True True C (andThen m (\<lambda>r. andThen (emit (e num r)) (\<lambda>_. loop (length xs) (Suc num))))
      (enc x @ concat (map enc xs)) (\<lambda>_. True) (ev num x # numbered ev (Suc num) xs)"
    using Cons.prems Cons.IH ev
    by (intro flows_andThen [OF C(1) Cons.prems]) (auto intro!: flows_then_emit [OF C])
  then show ?case by (simp add: suc)
qed

lemma flows_hash_loop:
  assumes C: "steady C" "\<And>s. C s \<Longrightarrow> dec_out s = DataOut" and K: "compresses E K" and ok: "\<forall>(a, b) \<in> set xs. item_ok a \<and> item_ok b"
  shows "flows True True C (hash_loop (length xs) num cnt E) (concat (map (\<lambda>(a, b). item_code K a @ item_code K b) xs)) (\<lambda>_. True)
    (numbered (\<lambda>num (a, b). D_hash num cnt (Some (item_val a)) (Some (item_val b))) num xs)"
proof (rule flows_loop [OF C, where loop = "\<lambda>k num. hash_loop k num cnt E"
      and m = "andThen (decode_rlen E) (\<lambda>f. andThen (decode_rlen E) (\<lambda>v. ret (f, v)))"
      and e = "\<lambda>num (f, v). D_hash num cnt f v"])
  show "flows True True C (andThen (decode_rlen E) (\<lambda>f. andThen (decode_rlen E) (\<lambda>v. ret (f, v))))
      (case x of (a, b) \<Rightarrow> item_code K a @ item_code K b)
      ((\<lambda>(a, b) (f, v). str_val f = Some (item_val a) \<and> str_val v = Some (item_val b)) x) []" if "x \<in> set xs" for x
  proof -
    obtain a b where x: "x = (a, b)" "item_ok a" "item_ok b" using ok \<open>x \<in> set xs\<close> by (cases x) auto
    show ?thesis unfolding x(1) prod.case
      by (rule flows_andThen [OF C(1) flows_rlen [OF C(1) K x(2)] flows_andThen [OF C(1) flows_rlen [OF C(1) K x(3)] flows_ret]]) auto
  qed
qed (auto simp: andThen_assoc andThen_ret)

lemma flows_set_loop:
  assumes C: "steady C" "\<And>s. C s \<Longrightarrow> dec_out s = DataOut" and K: "compresses E K" and ok: "\<forall>a \<in> set xs. item_ok a"
  shows "flows True True C (set_loop (length xs) num cnt E) (concat (map (item_code K) xs)) (\<lambda>_. True)
    (numbered (\<lambda>num a. D_set num cnt (Some (item_val a))) num xs)"
  by (rule flows_loop [OF C, where loop = "\<lambda>k num. set_loop k num cnt E" and m = "decode_rlen E"
      and e = "\<lambda>num r. D_set num cnt r"]) (use ok in \<open>auto intro: flows_rlen [OF C(1) K]\<close>)

lemma flows_list_loop:
  assumes C: "steady C" "\<And>s. C s \<Longrightarrow> dec_out s = DataOut" and K: "compresses E K" and ok: "\<forall>a \<in> set xs. item_ok a"
  shows "flows True True C (list_loop (length xs) num cnt E) (concat (map (item_code K) xs)) (\<lambda>_. True)
    (numbered (\<lambda>num a. D_list num cnt (Some (item_val a))) num xs)"
  by (rule flows_loop [OF C, where loop = "\<lambda>k num. list_loop k num cnt E" and m = "decode_rlen E"
      and e = "\<lambda>num r. D_list num cnt r"]) (use ok in \<open>auto intro: flows_rlen [OF C(1) K]\<close>)

end
