(* ===== verification/Rdb_Nodes.thy ===== *)
theory Rdb_Nodes
  imports Rdb_Flows
begin

text \<open>
  The nodes of a stream: a description of the entries, their bytes, and the calls they stand for. The
  loops over the entries of a node and over the nodes make these calls, for entries that fit into the
  local array, and leave the entry such that its destructor frees nothing.
\<close>

section \<open>Steps through a listpack\<close>

text \<open>The rest of a traversal behind the elements \<open>lvs\<close>.\<close>

lemma iterates_append: "iterates nxt lv (lvs @ rest) \<Longrightarrow> iterates nxt (last (lv # lvs)) rest"
  by (induction lvs arbitrary: lv) (auto elim!: iterates_ConsE)

lemma iterates_step: "iterates nxt lv (v # rest) \<Longrightarrow> nxt lv = Some (True, v)"
  by (auto elim: iterates_ConsE)

lemma lp_ival_step:
  assumes "iterates (lp_next m z) lv (v # rest)" "lp_item_of m v = Some (LpInt x)"
  shows "lp_next_ival m z lv = Some (True, v)" "lv_ival v = x" "lv_data v = None"
  using iterates_step [OF assms(1)] assms(2)
  by (auto simp: lp_next_ival_def lp_item_of_def split: option.splits)

text \<open>Values of elements, as far as they are strings that fit into memory.\<close>

fun lp_item_fits :: "lp_item \<Rightarrow> bool" where
  "lp_item_fits (LpStr d) \<longleftrightarrow> length d < 2 ^ 64"
| "lp_item_fits (LpInt v) \<longleftrightarrow> True"

lemma lval_item:
  assumes "lp_item_of (pmem b) v = Some i" "lp_item_fits i"
  shows "str_val (decode_lval b v RdbString_new) = Some (lp_item_val i)"
  using lval_items [of b "[v]" "[i]"] assms by (cases i) auto

section \<open>Entries in the local array\<close>

text \<open>
  The places of the three arrays while nothing had to be allocated: in \<open>tmp\<close>, not at its end.
\<close>

definition in_tmp :: "arr_place \<Rightarrow> bool" where
  "in_tmp p \<longleftrightarrow> p = ANull \<or> (\<exists>i < TMP_SIZE. p = ATmp i)"

definition tmp_entry :: "RdbStreamEntry \<Rightarrow> bool" where
  "tmp_entry e \<longleftrightarrow> in_tmp (fst (se_master e)) \<and> in_tmp (fst (se_fields e)) \<and> in_tmp (fst (se_values e)) \<and> se_freed e = []"

lemma release_tmp: "in_tmp p \<Longrightarrow> release p e = (Ok (), e)"
  by (auto simp: in_tmp_def release_def run_ret)

lemma drop_tmp: "tmp_entry e \<Longrightarrow> stream_entry_drop e = (Ok (), e)"
  by (simp add: stream_entry_drop_def tmp_entry_def run_andThen(3) andThen_def release_tmp gets_def)

lemma fill_master_runs:
  assumes "iterates (lp_next m z) lv (ms @ rest)" "i + length ms \<le> room"
  shows "fill_master (length ms) i room m z lv e
    = (Ok (True, last (lv # ms)), e\<lparr>se_master := (fst (se_master e), snd (se_master e) @ ms)\<rparr>)"
  using assms
proof (induction ms arbitrary: lv i e)
  case (Cons v ms)
  from Cons.prems(1) have n: "lp_next m z lv = Some (True, v)" "iterates (lp_next m z) v (ms @ rest)"
    by (auto elim: iterates_ConsE)
  with Cons.IH [OF n(2), of "Suc i"] Cons.prems(2) show ?case by (simp add: run_andThen)
qed (simp add: run_ret)

text \<open>The header of a node: counts, the master fields and the zero behind them.\<close>

lemma read_header_runs:
  assumes it: "iterates (lp_next m z) (lv\<lparr>lv_entry := lp_data z, lv_entry_len := 0\<rparr>) (a # b # c # ms @ t # rest)"
    and v: "lp_item_of m a = Some (LpInt x)" "lp_item_of m b = Some (LpInt y)"
      "lp_item_of m c = Some (LpInt (word_of_nat (length ms)))"
    and n: "length ms < TMP_SIZE"
  shows "read_header E m z lv e = (Ok (True, t), e\<lparr>items_count := x, deleted_count := y,
      master_field_count := word_of_nat (length ms), se_master := (ATmp 0, ms)\<rparr>)"
    "iterates (lp_next m z) t rest"
proof -
  let ?lv = "lv\<lparr>lv_entry := lp_data z, lv_entry_len := 0\<rparr>"
  have u: "unat (word_of_nat (length ms) :: u64) = length ms" using n by (simp add: unat_of_nat TMP_SIZE_def)
  have it2: "iterates (lp_next m z) a (b # c # ms @ t # rest)" "iterates (lp_next m z) b (c # ms @ t # rest)"
    "iterates (lp_next m z) c (ms @ t # rest)"
    using it by (auto elim!: iterates_ConsE)
  have f: "lp_first_ival m z lv = Some (True, a)" "lv_ival a = x"
    using lp_ival_step [OF it v(1)] by (simp_all add: lp_first_ival_def lp_first_def lp_next_ival_def)
  note b = lp_ival_step [OF it2(1) v(2)] and c = lp_ival_step [OF it2(2) v(3)]
  have t: "lp_next m z (last (c # ms)) = Some (True, t)"
    using iterates_step [OF iterates_append [OF it2(3)]] .
  have room: "0 + length ms \<le> TMP_SIZE" using n by simp
  show "read_header E m z lv e = (Ok (True, t), e\<lparr>items_count := x, deleted_count := y,
      master_field_count := word_of_nat (length ms), se_master := (ATmp 0, ms)\<rparr>)"
    using n t
    by (simp add: read_header_def get_ival_def f b c run_andThen run_checked u
        andThen_Ok [where m = "fill_master (length ms) 0 TMP_SIZE m z c", OF fill_master_runs [OF it2(3) room]] del: last.simps)
  show "iterates (lp_next m z) t rest"
    using iterates_append [of "lp_next m z" c "ms @ [t]" rest] it2(3) by simp
qed

text \<open>The fields and values of an entry.\<close>

lemma fill_same_runs:
  assumes "iterates (lp_next m z) lv (vs @ rest)" "i + length vs \<le> vroom"
  shows "fill_entry (length vs) i ok True froom vroom m z lv e
    = (Ok (ok, last (lv # vs)), e\<lparr>se_values := (fst (se_values e), snd (se_values e) @ vs)\<rparr>)"
  using assms
proof (induction vs arbitrary: lv i e)
  case (Cons v vs)
  from Cons.prems(1) have n: "lp_next m z lv = Some (True, v)" "iterates (lp_next m z) v (vs @ rest)"
    by (auto elim: iterates_ConsE)
  with Cons.IH [OF n(2), of "Suc i"] Cons.prems(2) show ?case by (simp add: run_andThen)
qed (simp add: run_ret)

lemma unpair_Cons: "unpair ((a, b) # ps) = a # b # unpair ps"
  by (simp add: unpair_def)

lemma unpair_Nil: "unpair [] = []"
  by (simp add: unpair_def)

lemma fill_own_runs:
  assumes "iterates (lp_next m z) lv (unpair ps @ rest)" "i + length ps \<le> froom" "i + length ps \<le> vroom"
  shows "fill_entry (length ps) i ok False froom vroom m z lv e
    = (Ok (ok, last (lv # unpair ps)), e\<lparr>se_fields := (fst (se_fields e), snd (se_fields e) @ map fst ps),
       se_values := (fst (se_values e), snd (se_values e) @ map snd ps)\<rparr>)"
  using assms
proof (induction ps arbitrary: lv i e)
  case (Cons p ps)
  obtain f v where p: "p = (f, v)" by (cases p)
  from Cons.prems(1) have n: "lp_next m z lv = Some (True, f)" "lp_next m z f = Some (True, v)"
    "iterates (lp_next m z) v (unpair ps @ rest)"
    by (auto simp: p unpair_Cons elim!: iterates_ConsE)
  with Cons.IH [OF n(3), of "Suc i"] Cons.prems(2,3) show ?case by (simp add: p unpair_Cons run_andThen)
qed (simp add: run_ret unpair_Nil)

section \<open>The description of a stream\<close>

text \<open>
  An entry has the fields of its node or fields of its own. Items are those of a listpack.
\<close>

datatype stream_fields = SameFields "lp_item list" | OwnFields "(lp_item \<times> lp_item) list"

record stream_item =
  it_deleted :: bool
  it_diff :: RdbStreamRecId
  it_fields :: stream_fields

record stream_node =
  nd_id :: RdbStreamRecId
  nd_deleted :: u64
  nd_master :: "lp_item list"
  nd_items :: "stream_item list"

fun fields_pairs :: "lp_item list \<Rightarrow> stream_fields \<Rightarrow> (lp_item \<times> lp_item) list" where
  "fields_pairs ms (SameFields vs) = zip ms vs"
| "fields_pairs ms (OwnFields ps) = ps"

fun fields_items :: "stream_fields \<Rightarrow> lp_item list" where
  "fields_items (SameFields vs) = vs"
| "fields_items (OwnFields ps) = LpInt (word_of_nat (length ps)) # unpair ps"

fun fields_flag :: "stream_fields \<Rightarrow> u64" where
  "fields_flag (SameFields vs) = 2"
| "fields_flag (OwnFields ps) = 0"

text \<open>The number of items of an entry before the last, which holds this number.\<close>

fun fields_count :: "stream_fields \<Rightarrow> u64" where
  "fields_count (SameFields vs) = 3 + word_of_nat (length vs)"
| "fields_count (OwnFields ps) = 4 + word_of_nat (length ps) + word_of_nat (length ps)"

definition item_flags :: "stream_item \<Rightarrow> u64" where
  "item_flags it = fields_flag (it_fields it) OR (if it_deleted it then 1 else 0)"

definition entry_items :: "stream_item \<Rightarrow> lp_item list" where
  "entry_items it = LpInt (item_flags it) # LpInt (rec_ms (it_diff it)) # LpInt (rec_ser (it_diff it))
     # fields_items (it_fields it) @ [LpInt (fields_count (it_fields it))]"

text \<open>Entries that fit the local array of 64 values together with the fields of their node.\<close>

fun fields_fit :: "lp_item list \<Rightarrow> stream_fields \<Rightarrow> bool" where
  "fields_fit ms (SameFields vs) \<longleftrightarrow> length vs = length ms \<and> 2 * length ms \<le> TMP_SIZE"
| "fields_fit ms (OwnFields ps) \<longleftrightarrow> length ms + 2 * length ps \<le> TMP_SIZE"

section \<open>One entry\<close>

lemma lp_item_int: "lp_item_of m v = Some (LpInt x) \<Longrightarrow> lv_ival v = x"
  by (auto simp: lp_item_of_def split: option.splits)

lemma get_ival_runs:
  "iterates (lp_next m z) lv (v # rest) \<Longrightarrow> lp_item_of m v = Some (LpInt x) \<Longrightarrow> get_ival m z lv e = (Ok (True, v), e)"
  by (simp add: get_ival_def lp_ival_step(1) run_checked)

lemma small_count: "n \<le> TMP_SIZE \<Longrightarrow> unat (word_of_nat n :: u64) = n"
  by (simp add: TMP_SIZE_def unat_of_nat)

lemma item_flags_low: "(ucast (item_flags it) :: u32) AND RDB_STREAM_ENTRY_DELETED = 0 \<longleftrightarrow> \<not> it_deleted it"
  "(ucast (item_flags it) :: u32) AND RDB_STREAM_ENTRY_SAMEFIELDS = 0 \<longleftrightarrow> (\<exists>ps. it_fields it = OwnFields ps)"
  by (cases "it_fields it"; simp add: item_flags_def RDB_STREAM_ENTRY_DELETED_def RDB_STREAM_ENTRY_SAMEFIELDS_def)+

text \<open>What is known of the entry behind a node's header, and keeps being so.\<close>

definition node_entry :: "u8 list \<Rightarrow> lp_item list \<Rightarrow> RdbStreamEntry \<Rightarrow> bool" where
  "node_entry m ms e \<longleftrightarrow> tmp_entry e \<and> length ms < TMP_SIZE \<and> master_field_count e = word_of_nat (length ms)
     \<and> (\<exists>lms. se_master e = (ATmp 0, lms) \<and> map (lp_item_of m) lms = map Some ms)"

definition holds_item :: "u8 list \<Rightarrow> lp_item list \<Rightarrow> stream_item \<Rightarrow> RdbStreamEntry \<Rightarrow> bool" where
  "holds_item m ms it e \<longleftrightarrow> se_flags e = ucast (item_flags it) \<and> se_diff e = it_diff it
     \<and> map (\<lambda>(f, v). (lp_item_of m f, lp_item_of m v)) (zip (snd (se_fields e)) (snd (se_values e)))
       = map (\<lambda>(f, v). (Some f, Some v)) (fields_pairs ms (it_fields it))"

text \<open>The part of \<open>read_entry\<close> behind the flags and the difference.\<close>

definition entry_rest :: "rdb_env \<Rightarrow> u8 list \<Rightarrow> RdbListPack \<Rightarrow> RdbListValue \<Rightarrow> (RdbStreamEntry, bool \<times> RdbListValue) prog" where
  "entry_rest E m z lv =
     andThen (gets (\<lambda>e. se_flags e AND RDB_STREAM_ENTRY_SAMEFIELDS \<noteq> 0)) (\<lambda>same.
     andThen (gets (\<lambda>e. if fst (se_master e) = ATmp 0 then TMP_SIZE - unat (master_field_count e) else TMP_SIZE)) (\<lambda>sz.
     andThen (entry_fields E same sz m z lv) (\<lambda>(ok, lv, placed, sz).
     if \<not> ok then ret (False, lv)
     else andThen (gets entry_field_count) (\<lambda>n.
     andThen (if placed then ret (unat n) else andThen (alloc_fields E n) (\<lambda>(p, room).
         andThen (modify (\<lambda>e. e\<lparr>se_fields := (p, [])\<rparr>)) (\<lambda>_. ret room))) (\<lambda>froom.
     andThen (if unat n \<le> sz then ret (ATmp (TMP_SIZE - sz), sz) else alloc_fields E n) (\<lambda>(p, vroom).
     andThen (modify (\<lambda>e. e\<lparr>se_values := (p, [])\<rparr>)) (\<lambda>_.
     andThen (fill_entry (unat n) 0 True same froom vroom m z lv) (\<lambda>(b, lv).
     andThen (checked (lp_next m z lv)) (\<lambda>(b', lv).
       ret (b \<and> b' \<and> lv_ival lv = (if same then 3 + n else 4 + n + n), lv))))))))))"

lemma read_entry_start:
  assumes it: "iterates (lp_next m z) lv (a # b # c # rest)"
    and v: "lp_item_of m a = Some (LpInt x)" "lp_item_of m b = Some (LpInt y)" "lp_item_of m c = Some (LpInt w)"
    and e: "tmp_entry e"
  shows "read_entry E m z lv e = entry_rest E m z c (e\<lparr>se_flags := ucast x, se_diff := \<lparr>rec_ms = y, rec_ser = w\<rparr>,
    se_fields := (ANull, []), se_values := (ANull, [])\<rparr>)"
    "iterates (lp_next m z) c rest"
proof -
  have its: "iterates (lp_next m z) a (b # c # rest)" "iterates (lp_next m z) b (c # rest)" "iterates (lp_next m z) c rest"
    using it by (auto elim!: iterates_ConsE)
  have g: "andThen (get_ival m z lv) k f = k (True, a) f" "andThen (get_ival m z a) k f = k (True, b) f"
    "andThen (get_ival m z b) k f = k (True, c) f" for k :: "_ \<Rightarrow> (RdbStreamEntry, bool \<times> RdbListValue) prog" and f
    using get_ival_runs [OF it v(1)] get_ival_runs [OF its(1) v(2)] get_ival_runs [OF its(2) v(3)] by (auto intro: andThen_Ok)
  have r: "andThen (release (fst (se_fields e))) k f = k () f" "andThen (release (fst (se_values e))) k f = k () f"
    for k :: "_ \<Rightarrow> (RdbStreamEntry, bool \<times> RdbListValue) prog" and f
    using e by (auto simp: tmp_entry_def release_tmp intro: andThen_Ok)
  have d: "se_diff e\<lparr>rec_ms := y, rec_ser := w\<rparr> = \<lparr>rec_ms = y, rec_ser = w\<rparr>"
    by (cases "se_diff e") simp
  show "read_entry E m z lv e = entry_rest E m z c (e\<lparr>se_flags := ucast x, se_diff := \<lparr>rec_ms = y, rec_ser = w\<rparr>,
    se_fields := (ANull, []), se_values := (ANull, [])\<rparr>)"
    by (simp add: read_entry_def entry_rest_def run_andThen g r d v [THEN lp_item_int])
qed (use it in \<open>auto elim!: iterates_ConsE\<close>)


lemma tmp_places: "length ms < TMP_SIZE \<Longrightarrow> in_tmp (ATmp (length ms))" "in_tmp (ATmp 0)" "in_tmp ANull"
  by (simp_all add: in_tmp_def TMP_SIZE_def)

lemma entry_rest_same:
  assumes it: "iterates (lp_next m z) lv (vs @ t # rest)" and t: "lp_item_of m t = Some (LpInt (3 + word_of_nat (length vs)))"
    and e: "se_master e = (ATmp 0, ms)" "master_field_count e = word_of_nat (length vs)" "2 * length vs \<le> TMP_SIZE"
    and same: "se_flags e AND RDB_STREAM_ENTRY_SAMEFIELDS \<noteq> 0"
  shows "entry_rest E m z lv e = (Ok (True, t), e\<lparr>entry_field_count := word_of_nat (length vs), se_fields := se_master e,
    se_values := (ATmp (length vs), vs)\<rparr>)"
    "iterates (lp_next m z) t rest"
proof -
  have n: "unat (word_of_nat (length vs) :: u64) = length vs" using e(3) by (intro small_count) simp
  have le: "length vs \<le> TMP_SIZE - length vs" "TMP_SIZE - (TMP_SIZE - length vs) = length vs" using e(3) by simp_all
  have last: "lp_next m z (last (lv # vs)) = Some (True, t)" "iterates (lp_next m z) t rest"
    using iterates_step [OF iterates_append [OF it]] iterates_append [of "lp_next m z" lv "vs @ [t]" rest] it by simp_all
  show "entry_rest E m z lv e = (Ok (True, t), e\<lparr>entry_field_count := word_of_nat (length vs), se_fields := se_master e,
    se_values := (ATmp (length vs), vs)\<rparr>)"
    using fill_same_runs [OF it, of 0 "TMP_SIZE - length vs" True "length vs"] le same
    by (simp add: entry_rest_def entry_fields_def run_andThen n e last lp_item_int [OF t] run_ret
        andThen_Ok [where m = "fill_entry a b c d f g h i j" for a b c d f g h i j] del: last.simps)
qed (use iterates_append [of "lp_next m z" lv "vs @ [t]" rest] it in simp)

lemma length_unpair: "length (unpair ps) = 2 * length ps"
  by (induction ps) (auto simp: unpair_def)

lemma entry_rest_own:
  assumes it: "iterates (lp_next m z) lv (c # unpair ps @ t # rest)" and c: "lp_item_of m c = Some (LpInt (word_of_nat (length ps)))"
    and t: "lp_item_of m t = Some (LpInt (4 + word_of_nat (length ps) + word_of_nat (length ps)))"
    and e: "se_master e = (ATmp 0, ms)" "master_field_count e = word_of_nat k" "k + 2 * length ps \<le> TMP_SIZE"
    and own: "se_flags e AND RDB_STREAM_ENTRY_SAMEFIELDS = 0"
  shows "entry_rest E m z lv e = (Ok (True, t), e\<lparr>entry_field_count := word_of_nat (length ps),
    se_fields := (ATmp k, map fst ps), se_values := (ATmp (k + length ps), map snd ps)\<rparr>)"
    "iterates (lp_next m z) t rest"
proof -
  have n: "unat (word_of_nat (length ps) :: u64) = length ps" "unat (word_of_nat k :: u64) = k"
    using e(3) by (auto intro: small_count)
  have le: "length ps \<le> TMP_SIZE - k" "TMP_SIZE - (TMP_SIZE - k) = k" "length ps \<le> TMP_SIZE - k - length ps"
    "TMP_SIZE - (TMP_SIZE - k - length ps) = k + length ps" using e(3) by simp_all
  have it2: "iterates (lp_next m z) c (unpair ps @ t # rest)" using it by (auto elim!: iterates_ConsE)
  have last: "lp_next m z (last (c # unpair ps)) = Some (True, t)"
    using iterates_step [OF iterates_append [OF it2]] .
  have g: "andThen (get_ival m z lv) f e = f (True, c) e" for f :: "_ \<Rightarrow> (RdbStreamEntry, 'a) prog"
    using get_ival_runs [OF it c] by (rule andThen_Ok)
  show "entry_rest E m z lv e = (Ok (True, t), e\<lparr>entry_field_count := word_of_nat (length ps),
    se_fields := (ATmp k, map fst ps), se_values := (ATmp (k + length ps), map snd ps)\<rparr>)"
    using fill_own_runs [OF it2, of 0 "length ps" "TMP_SIZE - k - length ps" True] le own
    by (simp add: entry_rest_def entry_fields_def run_andThen n e last g lp_item_int [OF t] lp_item_int [OF c] run_ret
        andThen_Ok [where m = "fill_entry a b c d f g h i j" for a b c d f g h i j] del: last.simps)
  show "iterates (lp_next m z) t rest"
    using iterates_append [of "lp_next m z" c "unpair ps @ [t]" rest] it2 by simp
qed

lemma map_Some_unpair:
  assumes "map f xs = map Some (unpair ps)"
  obtains qs where "xs = unpair qs" "length qs = length ps" "map (\<lambda>(a, b). (f a, f b)) qs = map (\<lambda>(a, b). (Some a, Some b)) ps"
proof -
  have "\<exists>qs. xs = unpair qs \<and> length qs = length ps \<and> map (\<lambda>(a, b). (f a, f b)) qs = map (\<lambda>(a, b). (Some a, Some b)) ps"
    using assms
  proof (induction ps arbitrary: xs)
    case (Cons p ps)
    then obtain a b xs' where x: "xs = a # b # xs'" "f a = Some (fst p)" "f b = Some (snd p)" "map f xs' = map Some (unpair ps)"
      by (cases p) (auto simp: unpair_Cons map_eq_Cons_conv)
    from Cons.IH [OF this(4)] obtain qs where "xs' = unpair qs" "length qs = length ps"
      "map (\<lambda>(a, b). (f a, f b)) qs = map (\<lambda>(a, b). (Some a, Some b)) ps" by blast
    with x show ?case by (intro exI [of _ "(a, b) # qs"]) (simp add: unpair_Cons split_def)
  qed (simp add: unpair_Nil)
  then show ?thesis using that by blast
qed

lemma zip_Somes:
  "map f xs = map Some as \<Longrightarrow> map f ys = map Some bs \<Longrightarrow>
    map (\<lambda>(a, b). (f a, f b)) (zip xs ys) = map (\<lambda>(a, b). (Some a, Some b)) (zip as bs)"
proof (induction xs arbitrary: as ys bs)
  case (Cons x xs)
  then show ?case by (cases ys; cases as; cases bs) auto
qed auto

lemma read_entry_runs:
  assumes it: "iterates (lp_next m z) lv (lvs @ rest)" and lvs: "map (lp_item_of m) lvs = map Some (entry_items it)"
    and e: "node_entry m ms e" and fit: "fields_fit ms (it_fields it)"
  shows "\<exists>e' t. read_entry E m z lv e = (Ok (True, t), e') \<and> iterates (lp_next m z) t rest \<and> node_entry m ms e'
    \<and> holds_item m ms it e' \<and> se_num e' = se_num e \<and> se_id e' = se_id e"
proof -
  obtain a b c lvt where l: "lvs = a # b # c # lvt" "lp_item_of m a = Some (LpInt (item_flags it))"
    "lp_item_of m b = Some (LpInt (rec_ms (it_diff it)))" "lp_item_of m c = Some (LpInt (rec_ser (it_diff it)))"
    "map (lp_item_of m) lvt = map Some (fields_items (it_fields it) @ [LpInt (fields_count (it_fields it))])"
    using lvs by (auto simp: entry_items_def map_eq_Cons_conv)
  let ?e = "e\<lparr>se_flags := ucast (item_flags it), se_diff := it_diff it, se_fields := (ANull, []), se_values := (ANull, [])\<rparr>"
  obtain lms where m: "se_master e = (ATmp 0, lms)" "map (lp_item_of m) lms = map Some ms" "tmp_entry e" "length ms < TMP_SIZE"
    "master_field_count e = word_of_nat (length ms)"
    using e by (auto simp: node_entry_def)
  have it1: "iterates (lp_next m z) lv (a # b # c # lvt @ rest)" using it l(1) by simp
  have st: "read_entry E m z lv e = entry_rest E m z c ?e" "iterates (lp_next m z) c (lvt @ rest)"
    using read_entry_start [OF it1 l(2-4) m(3)] by (cases "it_diff it"; simp)+
  show ?thesis
  proof (cases "it_fields it")
    case (SameFields vs)
    then obtain lvv t where v: "lvt = lvv @ [t]" "map (lp_item_of m) lvv = map Some vs" 
      "lp_item_of m t = Some (LpInt (3 + word_of_nat (length vs)))"
      using l(5) by (auto simp: map_eq_append_conv)
    have n: "length lvv = length vs" "length vs = length ms" using v(2) fit SameFields by (auto dest: map_eq_imp_length_eq)
    have "entry_rest E m z c ?e = (Ok (True, t), ?e\<lparr>entry_field_count := word_of_nat (length lvv), se_fields := se_master ?e,
        se_values := (ATmp (length lvv), lvv)\<rparr>)" "iterates (lp_next m z) t rest"
      using entry_rest_same [of m z c lvv t rest ?e lms] v st(2) m n fit SameFields item_flags_low(2) [of it] by simp_all
    then show ?thesis
      using st m n tmp_places zip_Somes [OF m(2) v(2)] SameFields
      by (auto simp: node_entry_def holds_item_def tmp_entry_def)
  next
    case (OwnFields ps)
    then obtain d lvp t where v: "lvt = d # lvp @ [t]" "lp_item_of m d = Some (LpInt (word_of_nat (length ps)))"
      "map (lp_item_of m) lvp = map Some (unpair ps)" 
      "lp_item_of m t = Some (LpInt (4 + word_of_nat (length ps) + word_of_nat (length ps)))"
      using l(5) by (auto simp: map_eq_append_conv map_eq_Cons_conv)
    obtain qs where q: "lvp = unpair qs" "length qs = length ps"
      "map (\<lambda>(a, b). (lp_item_of m a, lp_item_of m b)) qs = map (\<lambda>(a, b). (Some a, Some b)) ps"
      using map_Some_unpair [OF v(3)] by blast
    have "entry_rest E m z c ?e = (Ok (True, t), ?e\<lparr>entry_field_count := word_of_nat (length qs),
        se_fields := (ATmp (length ms), map fst qs), se_values := (ATmp (length ms + length qs), map snd qs)\<rparr>)"
      "iterates (lp_next m z) t rest"
      using entry_rest_own [of m z c d qs t rest ?e lms "length ms"] v st(2) m q fit OwnFields item_flags_low(2) [of it] by simp_all
    moreover have "in_tmp (ATmp (length ms + length qs))"
      using fit OwnFields q(2) m(4) by (cases "length qs") (simp_all add: in_tmp_def)
    ultimately show ?thesis
      using st m q tmp_places OwnFields
      by (auto simp: node_entry_def holds_item_def tmp_entry_def zip_map_fst_snd)
  qed
qed

section \<open>Nodes\<close>

definition nd_live :: "stream_node \<Rightarrow> nat" where
  "nd_live nd = length (filter (\<lambda>it. \<not> it_deleted it) (nd_items nd))"

text \<open>
  The header of a node counts the entries that are not deleted, as the server writes it. The loop
  runs as often, over deleted entries too.
\<close>

definition node_items :: "stream_node \<Rightarrow> lp_item list" where
  "node_items nd = LpInt (word_of_nat (nd_live nd)) # LpInt (nd_deleted nd) # LpInt (word_of_nat (length (nd_master nd)))
     # nd_master nd @ LpInt 0 # concat (map entry_items (nd_items nd))"

definition id_bytes :: "RdbStreamRecId \<Rightarrow> u8 list" where
  "id_bytes i = rev (mem_store 8 (rec_ms i)) @ rev (mem_store 8 (rec_ser i))"

definition node_bytes :: "packer \<Rightarrow> stream_node \<Rightarrow> u8 list" where
  "node_bytes K nd = item_code K (ItStr (id_bytes (nd_id nd))) @ item_code K (ItStr (lp_bytes (node_items nd)))"

definition node_ok :: "stream_node \<Rightarrow> bool" where
  "node_ok nd \<longleftrightarrow> lp_ok (node_items nd) \<and> length (nd_master nd) < TMP_SIZE \<and> length (nd_items nd) < 2 ^ 64
     \<and> (\<forall>it \<in> set (nd_items nd). fields_fit (nd_master nd) (it_fields it))"

text \<open>The calls of a list of entries that the loop visits, \<open>num\<close> having been made before.\<close>

definition entry_call :: "nat \<Rightarrow> stream_node \<Rightarrow> stream_item \<Rightarrow> rdb_val option RdbEvent" where
  "entry_call num nd it = D_stream_entry num (nd_id nd) (it_diff it)
     (Some (map (\<lambda>(f, v). (Some (lp_item_val f), Some (lp_item_val v))) (fields_pairs (nd_master nd) (it_fields it))))"

fun entry_calls :: "nat \<Rightarrow> stream_node \<Rightarrow> stream_item list \<Rightarrow> rdb_val option RdbEvent list" where
  "entry_calls num nd [] = []"
| "entry_calls num nd (it # its) = (if it_deleted it then entry_calls num nd its
     else (if num = 0 then [D_stream_start STREAM_ENTRY_LIST] else []) @ entry_call num nd it # entry_calls (Suc num) nd its)"

definition seen_items :: "stream_node \<Rightarrow> stream_item list" where
  "seen_items nd = take (nd_live nd) (nd_items nd)"

definition seen_live :: "stream_node \<Rightarrow> nat" where
  "seen_live nd = length (filter (\<lambda>it. \<not> it_deleted it) (seen_items nd))"

fun node_calls :: "nat \<Rightarrow> stream_node list \<Rightarrow> rdb_val option RdbEvent list" where
  "node_calls num [] = []"
| "node_calls num (nd # nds) = entry_calls num nd (seen_items nd) @ node_calls (num + seen_live nd) nds"

section \<open>Reading with the entry\<close>

text \<open>A program on the entry and the decoder, run from a given entry.\<close>

definition with_entry :: "RdbStreamEntry \<Rightarrow> (RdbStreamEntry \<times> RdbDecode, 'a) prog \<Rightarrow> (RdbDecode, 'a \<times> RdbStreamEntry) prog" where
  "with_entry e m s = (case m (e, s) of
     (Ok x, e', s') \<Rightarrow> (Ok (x, e'), s') | (Err c, _, s') \<Rightarrow> (Err c, s') | (Fault, _, s') \<Rightarrow> (Fault, s'))"

lemma with_entry_andThen: "with_entry e (andThen m f) = andThen (with_entry e m) (\<lambda>(x, e'). with_entry e' (f x))"
  by (rule ext) (auto simp: with_entry_def andThen_def split: prod.splits outcome.splits)

lemma with_entry_on_entry: "m e = (Ok x, e') \<Longrightarrow> with_entry e (on_entry m) = ret (x, e')"
  by (rule ext) (simp add: with_entry_def on_entry_def zoom_def run_ret)

lemma with_entry_on_dec: "with_entry e (on_dec m) = andThen m (\<lambda>x. ret (x, e))"
  by (rule ext) (auto simp: with_entry_def on_dec_def zoom_def andThen_def ret_def split: prod.splits outcome.splits)

lemma with_entry_ret: "with_entry e (ret x) = ret (x, e)"
  by (rule ext) (simp add: with_entry_def run_ret)

lemma with_entry_Ok: "with_entry e m s = (Ok (x, e'), s') \<longleftrightarrow> m (e, s) = (Ok x, e', s')"
  by (auto simp: with_entry_def split: prod.splits outcome.splits)

text \<open>As \<open>reads\<close> and \<open>flows\<close>, with a relation between the value and the entry afterwards.\<close>

definition preads :: "(RdbDecode \<Rightarrow> bool) \<Rightarrow> RdbStreamEntry \<Rightarrow> (RdbStreamEntry \<times> RdbDecode, 'a) prog \<Rightarrow> u8 list
    \<Rightarrow> ('a \<Rightarrow> RdbStreamEntry \<Rightarrow> bool) \<Rightarrow> rdb_val option RdbEvent list \<Rightarrow> bool" where
  "preads C e m xs A evs \<longleftrightarrow> reads C (with_entry e m) xs (\<lambda>(x, e'). A x e') evs"

definition pflows :: "bool \<Rightarrow> bool \<Rightarrow> (RdbDecode \<Rightarrow> bool) \<Rightarrow> RdbStreamEntry \<Rightarrow> (RdbStreamEntry \<times> RdbDecode, 'a) prog \<Rightarrow> u8 list
    \<Rightarrow> ('a \<Rightarrow> RdbStreamEntry \<Rightarrow> bool) \<Rightarrow> rdb_val option RdbEvent list \<Rightarrow> bool" where
  "pflows p q C e m xs A evs \<longleftrightarrow> flows p q C (with_entry e m) xs (\<lambda>(x, e'). A x e') evs"

lemma preads_andThen:
  assumes "steady C" "preads C e m xs A es" "\<And>x e'. A x e' \<Longrightarrow> preads C e' (f x) ys B fs" "zs = xs @ ys" "gs = es @ fs"
  shows "preads C e (andThen m f) zs B gs"
  unfolding preads_def with_entry_andThen
  by (rule reads_andThen [OF assms(1) assms(2) [unfolded preads_def]]) (use assms(3-5) in \<open>auto simp: preads_def\<close>)

lemma pflows_andThen:
  assumes "steady C" "pflows p q C e m xs A es" "\<And>x e'. A x e' \<Longrightarrow> pflows q r C e' (f x) ys B fs" "zs = xs @ ys" "gs = es @ fs"
  shows "pflows p r C e (andThen m f) zs B gs"
  unfolding pflows_def with_entry_andThen
  by (rule flows_andThen [OF assms(1) assms(2) [unfolded pflows_def]]) (use assms(3-5) in \<open>auto simp: pflows_def\<close>)

lemma pflows_quiet: "preads C e m [] A es \<Longrightarrow> (p \<Longrightarrow> q) \<Longrightarrow> pflows p q C e m [] A es"
  unfolding preads_def pflows_def by (rule flows_quiet)

lemma preads_entry: "m e = (Ok x, e') \<Longrightarrow> A x e' \<Longrightarrow> preads C e (on_entry m) [] A []"
  by (simp add: preads_def with_entry_on_entry reads_ret)

lemma preads_dec: "reads C m xs A evs \<Longrightarrow> steady C \<Longrightarrow> preads C e (on_dec m) xs (\<lambda>x e'. A x \<and> e' = e) evs"
  unfolding preads_def with_entry_on_dec by (rule reads_andThen [where xs = xs and ys = "[]" and es = evs and fs = "[]" and A = A]) (auto intro: reads_ret)

lemma pflows_dec: "flows p q C m xs A evs \<Longrightarrow> steady C \<Longrightarrow> pflows p q C e (on_dec m) xs (\<lambda>x e'. A x \<and> e' = e) evs"
  unfolding pflows_def with_entry_on_dec by (rule flows_andThen [where xs = xs and ys = "[]" and es = evs and fs = "[]" and A = A and q = q]) (auto intro: flows_ret)

lemma preads_ret: "A x e \<Longrightarrow> preads C e (ret x) [] A []"
  by (simp add: preads_def with_entry_ret reads_ret)

lemma preads_then_entry:
  assumes "steady C" "m e = (Ok x, e')" "preads C e' (f x) ys B fs"
  shows "preads C e (andThen (on_entry m) f) ys B fs"
proof (rule preads_andThen [OF assms(1), where xs = "[]" and ys = ys])
  show "preads C e (on_entry m) [] (\<lambda>y g. y = x \<and> g = e') []"
    using assms(2) by (rule preads_entry) simp
qed (use assms(3) in auto)

lemma pflows_then_entry:
  assumes "steady C" "m e = (Ok x, e')" "pflows p q C e' (f x) ys B fs"
  shows "pflows p q C e (andThen (on_entry m) f) ys B fs"
  unfolding pflows_def with_entry_andThen with_entry_on_entry [where m = m and e = e, OF assms(2)] andThen_ret
  using assms(3) by (simp add: pflows_def)

lemma preads_then_dec:
  assumes "steady C" "reads C m xs A es" "\<And>x. A x \<Longrightarrow> preads C e (f x) ys B fs" "zs = xs @ ys" "gs = es @ fs"
  shows "preads C e (andThen (on_dec m) f) zs B gs"
  by (rule preads_andThen [OF assms(1) preads_dec [OF assms(2,1)] _ assms(4,5)]) (use assms(3) in auto)

lemma pflows_then_dec:
  assumes "steady C" "flows p q C m xs A es" "\<And>x. A x \<Longrightarrow> pflows q r C e (f x) ys B fs" "zs = xs @ ys" "gs = es @ fs"
  shows "pflows p r C e (andThen (on_dec m) f) zs B gs"
  by (rule pflows_andThen [OF assms(1) pflows_dec [OF assms(2,1)] _ assms(4,5)]) (use assms(3) in auto)

lemma with_entry_gets: "with_entry e (andThen (gets g) f) = andThen (gets (\<lambda>s. g (e, s))) (\<lambda>x. with_entry e (f x))"
  by (rule ext) (simp add: with_entry_def run_andThen)

lemma preads_then_gets:
  assumes "\<And>s. C s \<Longrightarrow> g (e, s) = x" "preads C e (f x) ys B fs" "steady C"
  shows "preads C e (andThen (gets g) f) ys B fs"
  using assms unfolding preads_def with_entry_gets by (intro reads_then_gets [OF assms(3), where x = x])

lemma pflows_then_gets:
  assumes "\<And>s. C s \<Longrightarrow> g (e, s) = x" "pflows p q C e (f x) ys B fs" "steady C"
  shows "pflows p q C e (andThen (gets g) f) ys B fs"
  using assms unfolding pflows_def with_entry_gets
  by (intro flows_andThen [OF assms(3) flows_quiet [OF reads_gets [where A = "\<lambda>y. y = x"]], where q = p]) auto

lemma preads_emit:
  assumes "\<And>s. C s \<Longrightarrow> dec_out s = DataOut" "ev_val v = g"
  shows "reads C (emit v) [] (\<lambda>_. True) [g]"
  using reads_emit [of C v] assms by simp

text \<open>A loop step that makes the call of one entry, if it is not deleted.\<close>

lemma holds_item_pairs:
  assumes h: "holds_item (pmem b) ms it e" and e: "node_entry (pmem b) ms e"
    and fits: "\<forall>(f, v) \<in> set (fields_pairs ms (it_fields it)). lp_item_fits f \<and> lp_item_fits v"
  shows "map_option (map (\<lambda>(f, v). (str_val f, str_val v))) (entry_pairs b e)
    = Some (map (\<lambda>(f, v). (Some (lp_item_val f), Some (lp_item_val v))) (fields_pairs ms (it_fields it)))"
proof -
  let ?ps = "zip (snd (se_fields e)) (snd (se_values e))"
  have "map (\<lambda>(f, v). (str_val (decode_lval b f RdbString_new), str_val (decode_lval b v RdbString_new))) xs
      = map (\<lambda>(f, v). (Some (lp_item_val f), Some (lp_item_val v))) qs"
    if "map (\<lambda>(f, v). (lp_item_of (pmem b) f, lp_item_of (pmem b) v)) xs = map (\<lambda>(f, v). (Some f, Some v)) qs"
      "\<forall>(f, v) \<in> set qs. lp_item_fits f \<and> lp_item_fits v" for xs qs
    using that
  proof (induction xs arbitrary: qs)
    case (Cons x xs)
    then obtain q qs' where "qs = q # qs'" by (cases qs) auto
    with Cons show ?case by (cases x; cases q) (auto intro!: lval_item)
  qed simp
  from this [of ?ps, OF _ fits] h e show ?thesis
    by (simp add: holds_item_def node_entry_def tmp_entry_def entry_pairs_def split_def comp_def)
qed

definition entry_state :: "u8 list \<Rightarrow> lp_item list \<Rightarrow> RdbStreamRecId \<Rightarrow> nat \<Rightarrow> RdbStreamEntry \<Rightarrow> bool" where
  "entry_state m ms i num e \<longleftrightarrow> node_entry m ms e \<and> se_id e = i \<and> se_num e = num"

lemma node_entry_num: "node_entry m ms (e\<lparr>se_num := n\<rparr>) \<longleftrightarrow> node_entry m ms e"
  by (simp add: node_entry_def tmp_entry_def)

lemma entries_loop_runs:
  assumes C: "steady C" "\<And>s. C s \<Longrightarrow> dec_out s = DataOut"
    and "iterates (lp_next (pmem b) z) lv (lvs @ rest)"
    and "map (lp_item_of (pmem b)) lvs = map Some (concat (map entry_items its))"
    and "entry_state (pmem b) (nd_master nd) (nd_id nd) num e"
    and "\<forall>it \<in> set its. fields_fit (nd_master nd) (it_fields it)
       \<and> (\<forall>(f, v) \<in> set (fields_pairs (nd_master nd) (it_fields it)). lp_item_fits f \<and> lp_item_fits v)"
  shows "preads C e (entries_loop (length its) E b z lv) []
    (\<lambda>_ e'. entry_state (pmem b) (nd_master nd) (nd_id nd) (num + length (filter (\<lambda>it. \<not> it_deleted it) its)) e')
    (entry_calls num nd its)"
  using assms(3-6)
proof (induction its arbitrary: lv lvs num e)
  case Nil
  then show ?case by (simp add: preads_ret)
next
  case (Cons it its)
  let ?m = "pmem b" and ?ms = "nd_master nd" and ?i = "nd_id nd"
  let ?B = "\<lambda>_ e'. entry_state ?m ?ms ?i (num + length (filter (\<lambda>it. \<not> it_deleted it) (it # its))) e'"
  obtain l1 l2 where l: "lvs = l1 @ l2" "map (lp_item_of ?m) l1 = map Some (entry_items it)"
    "map (lp_item_of ?m) l2 = map Some (concat (map entry_items its))"
    using Cons.prems(2) by (auto simp: map_eq_append_conv)
  have e: "node_entry ?m ?ms e" "se_id e = ?i" "se_num e = num" using Cons.prems(3) by (simp_all add: entry_state_def)
  obtain e1 t where 1: "read_entry E ?m z lv e = (Ok (True, t), e1)" "iterates (lp_next ?m z) t (l2 @ rest)"
    "node_entry ?m ?ms e1" "holds_item ?m ?ms it e1" "se_num e1 = num" "se_id e1 = ?i"
    using read_entry_runs [of ?m z lv l1 "l2 @ rest" it ?ms e E] Cons.prems(1,4) l(1,2) e by auto
  let ?live = "filter (\<lambda>it. \<not> it_deleted it)"
  have IH: "preads C f (entries_loop (length its) E b z t) [] (\<lambda>_ e'. entry_state ?m ?ms ?i (n + length (?live its)) e') (entry_calls n nd its)"
    if "entry_state ?m ?ms ?i n f" for n f
    using Cons.IH [OF 1(2) l(3) that] Cons.prems(4) by simp
  have del: "se_flags e1 AND RDB_STREAM_ENTRY_DELETED = 0 \<longleftrightarrow> \<not> it_deleted it"
    using 1(4) item_flags_low(1) [of it] by (simp add: holds_item_def)
  have ev: "ev_val (D_stream_entry num ?i (se_diff e1) (entry_pairs b e1)) = entry_call num nd it"
    using holds_item_pairs [OF 1(4,3)] Cons.prems(4) 1(4)
    by (simp add: entry_call_def holds_item_def map_prod_def split_def)
  show ?case
  proof (cases "it_deleted it")
    case True
    then show ?thesis
      using IH [of num e1] 1 del by (auto simp: entry_state_def run_ret andThen_ret
        intro!: preads_then_entry [where m = "read_entry E ?m z lv", OF C(1) 1(1)] preads_then_gets C(1))
  next
    case False
    have st: "entry_state ?m ?ms ?i (Suc num) (e1\<lparr>se_num := Suc num\<rparr>)"
      using 1 by (simp add: entry_state_def node_entry_num)
    have loop: "preads C e1 (andThen (on_entry (modify (\<lambda>e. e\<lparr>se_num := Suc (se_num e)\<rparr>))) (\<lambda>_. entries_loop (length its) E b z t)) []
        ?B (entry_calls (Suc num) nd its)"
      using IH [OF st] 1(5) False by (intro preads_then_entry [OF C(1) run_modify]) simp
    have call: "preads C e1 (andThen (on_dec (emit (D_stream_entry num ?i (se_diff e1) (entry_pairs b e1))))
        (\<lambda>_. andThen (on_entry (modify (\<lambda>e. e\<lparr>se_num := Suc (se_num e)\<rparr>))) (\<lambda>_. entries_loop (length its) E b z t))) []
        ?B (entry_call num nd it # entry_calls (Suc num) nd its)"
      by (rule preads_then_dec [OF C(1) preads_emit [OF C(2) ev] loop]) simp_all
    have "preads C e1 (andThen (if num = 0 then on_dec (emit (D_stream_start STREAM_ENTRY_LIST)) else ret ())
        (\<lambda>_. andThen (on_dec (emit (D_stream_entry num ?i (se_diff e1) (entry_pairs b e1))))
        (\<lambda>_. andThen (on_entry (modify (\<lambda>e. e\<lparr>se_num := Suc (se_num e)\<rparr>))) (\<lambda>_. entries_loop (length its) E b z t)))) []
        ?B (entry_calls num nd (it # its))"
      using False call preads_then_dec [OF C(1) preads_emit [of C "D_stream_start STREAM_ENTRY_LIST" "D_stream_start STREAM_ENTRY_LIST", OF C(2)] call]
      by (auto simp: andThen_ret)
    then show ?thesis
      using 1 del False by (auto simp: andThen_assoc
        intro!: preads_then_entry [where m = "read_entry E ?m z lv", OF C(1) 1(1)] preads_then_gets C(1))
  qed
qed

section \<open>A node\<close>

lemma pflows_block:
  assumes C: "steady C" and K: "compresses E K" and n: "length xs < 2 ^ 64"
    and f: "\<And>b. bytes_at (pmem b) (ppos b) xs \<Longrightarrow> pflows True r C e (f (word_of_nat (length xs)) b) ys B es"
  shows "pflows p r C e (andThen (on_dec (onb (decode RdbLength_zero))) (\<lambda>L. andThen (on_dec (onb (consume E L))) (f (l_len L))))
    (item_code K (ItStr xs) @ ys) B es"
proof (rule pflows_then_dec [OF C flows_len [OF len_hdr_head [of "ItStr xs" K] C, where q = False]])
  fix L assume L: "L = item_head_len K (ItStr xs)"
  then have "l_len L = word_of_nat (length xs)" by (simp split: option.splits)
  then show "pflows False r C e (andThen (on_dec (onb (consume E L))) (f (l_len L))) (item_tail K (ItStr xs) @ ys) B es"
    by (intro pflows_then_dec [OF C flows_consume [OF C K n L]]) (auto intro!: f)
qed (use n in \<open>auto simp: item_code_def\<close>)

lemma id_bytes_read:
  assumes "bytes_at m p (id_bytes i)"
  shows "be64 m p = Some (rec_ms i)" "be64 m (p + 8) = Some (rec_ser i)"
proof -
  have "bytes_at m p (rev (mem_store 8 (rec_ms i)))" "bytes_at m (p + 8) (rev (mem_store 8 (rec_ser i)))"
    using assms by (simp_all add: id_bytes_def bytes_at_append)
  from this [THEN bytes_at_rdn, of 8] show "be64 m p = Some (rec_ms i)" "be64 m (p + 8) = Some (rec_ser i)"
    by (simp_all add: endian_read_bytes mem_load_store)
qed

lemma rec_id_eta: "\<lparr>rec_ms = rec_ms i, rec_ser = rec_ser i\<rparr> = i" for i :: RdbStreamRecId
  by (cases i) simp

lemma length_id_bytes: "length (id_bytes i) = 16"
  by (simp add: id_bytes_def)

lemma fields_pairs_items: "(f, v) \<in> set (fields_pairs ms fs) \<Longrightarrow> {f, v} \<subseteq> set ms \<union> set (fields_items fs)"
  by (cases fs) (auto simp: unpair_def dest: set_zip_leftD set_zip_rightD)

lemma node_pairs_ok:
  assumes "node_ok nd" "it \<in> set (nd_items nd)" "(f, v) \<in> set (fields_pairs (nd_master nd) (it_fields it))"
  shows "lp_item_ok f \<and> lp_item_ok v"
proof -
  have "x \<in> set (node_items nd)" if "x \<in> {f, v}" for x
    using fields_pairs_items [OF assms(3)] assms(2) that by (auto simp: node_items_def entry_items_def)
  then show ?thesis using assms(1) by (auto simp: node_ok_def lp_ok_def)
qed

lemma node_pairs_fit:
  assumes "node_ok nd" "it \<in> set (nd_items nd)" "(f, v) \<in> set (fields_pairs (nd_master nd) (it_fields it))"
  shows "lp_item_fits f \<and> lp_item_fits v"
  using node_pairs_ok [OF assms] by (cases f; cases v) auto

lemma nd_live_le: "nd_live nd \<le> length (nd_items nd)" "length (seen_items nd) = nd_live nd"
  by (simp_all add: nd_live_def seen_items_def)

lemma preads_pack_body:
  assumes C: "steady C" "\<And>s. C s \<Longrightarrow> dec_out s = DataOut" and ok: "node_ok nd"
    and e: "tmp_entry e" "se_num e = num" "se_id e = nd_id nd"
    and at: "bytes_at (pmem b) (ppos b) (lp_bytes (node_items nd))"
  shows "preads C e (andThen (checked (lp_init (pmem b) (ppos b) (word_of_nat (length (lp_bytes (node_items nd)))) RdbListPack_new)) (\<lambda>(ok, z).
     if \<not> ok then ret ()
     else andThen (on_entry (read_header E (pmem b) z RdbListValue_new)) (\<lambda>(ok, lv).
       if \<not> ok then throw RDB_ERR_HDR
       else andThen (gets (\<lambda>s. unat (items_count (fst s)))) (\<lambda>n. entries_loop n E b z lv)))) []
    (\<lambda>_ e'. tmp_entry e' \<and> se_num e' = num + seen_live nd) (entry_calls num nd (seen_items nd))"
proof -
  let ?m = "pmem b" and ?ms = "nd_master nd"
  obtain z lvs where z: "lp_init ?m (ppos b) (word_of_nat (length (lp_bytes (node_items nd)))) RdbListPack_new = Some (True, z)"
    "iterates (lp_next ?m z) (RdbListValue_new\<lparr>lv_entry := lp_data z, lv_entry_len := 0\<rparr>) lvs"
    "map (lp_item_of ?m) lvs = map Some (node_items nd)"
    using lp_opens [OF at] ok unfolding node_ok_def by blast
  have its: "nd_items nd = seen_items nd @ drop (nd_live nd) (nd_items nd)" by (simp add: seen_items_def)
  obtain a1 a2 a3 lr where l0: "lvs = a1 # a2 # a3 # lr"
    "lp_item_of ?m a1 = Some (LpInt (word_of_nat (nd_live nd)))" "lp_item_of ?m a2 = Some (LpInt (nd_deleted nd))"
    "lp_item_of ?m a3 = Some (LpInt (word_of_nat (length ?ms)))"
    "map (lp_item_of ?m) lr = map Some (?ms @ LpInt 0 # concat (map entry_items (nd_items nd)))"
    using z(3) unfolding node_items_def map_eq_Cons_conv by auto
  obtain lms t ll where l1: "lr = lms @ t # ll" "map (lp_item_of ?m) lms = map Some ?ms"
    "map (lp_item_of ?m) ll = map Some (concat (map entry_items (nd_items nd)))"
    using l0(5) unfolding map_append map_eq_append_conv by auto
  have "map (lp_item_of ?m) ll = map Some (concat (map entry_items (seen_items nd))) @ map Some (concat (map entry_items (drop (nd_live nd) (nd_items nd))))"
    unfolding l1(3) map_append [symmetric] concat_append [symmetric] its [symmetric] ..
  from this [THEN map_eq_append_conv [THEN iffD1]] obtain l1 l2 where l2: "ll = l1 @ l2" "map (lp_item_of ?m) l1 = map Some (concat (map entry_items (seen_items nd)))"
    by (metis (no_types))
  have l: "lvs = a1 # a2 # a3 # lms @ t # l1 @ l2"
    "lp_item_of ?m a1 = Some (LpInt (word_of_nat (nd_live nd)))" "lp_item_of ?m a2 = Some (LpInt (nd_deleted nd))"
    "lp_item_of ?m a3 = Some (LpInt (word_of_nat (length ?ms)))" "map (lp_item_of ?m) lms = map Some ?ms"
    "map (lp_item_of ?m) l1 = map Some (concat (map entry_items (seen_items nd)))"
    using l0(1-4) l1(1,2) l2 by simp_all
  have n: "length lms = length ?ms" "length ?ms < TMP_SIZE" using l(5) ok by (auto simp: node_ok_def dest: map_eq_imp_length_eq)
  have live: "unat (word_of_nat (nd_live nd) :: u64) = length (seen_items nd)"
    using nd_live_le [of nd] ok by (simp add: node_ok_def unat_of_nat)
  let ?e = "e\<lparr>items_count := word_of_nat (nd_live nd), deleted_count := nd_deleted nd,
      master_field_count := word_of_nat (length lms), se_master := (ATmp 0, lms)\<rparr>"
  have h: "read_header E ?m z RdbListValue_new e = (Ok (True, t), ?e)" "iterates (lp_next ?m z) t (l1 @ l2)"
    using read_header_runs [of ?m z RdbListValue_new a1 a2 a3 lms t "l1 @ l2"] z(2) l n by simp_all
  have st: "entry_state ?m ?ms (nd_id nd) num ?e"
    using e n l(5) tmp_places by (auto simp: entry_state_def node_entry_def tmp_entry_def)
  have fit: "\<forall>it \<in> set (seen_items nd). fields_fit ?ms (it_fields it)
       \<and> (\<forall>(f, v) \<in> set (fields_pairs ?ms (it_fields it)). lp_item_fits f \<and> lp_item_fits v)"
    using ok node_pairs_fit [OF ok] by (auto simp: node_ok_def seen_items_def dest!: in_set_takeD)
  have loop: "preads C ?e (entries_loop (length (seen_items nd)) E b z t) [] 
      (\<lambda>_ e'. tmp_entry e' \<and> se_num e' = num + seen_live nd) (entry_calls num nd (seen_items nd))"
    using entries_loop_runs [OF C h(2) l(6) st fit, of E]
    unfolding preads_def by (rule reads_weaken) (auto simp: entry_state_def node_entry_def seen_live_def)
  show ?thesis
    by (auto simp: z(1) andThen_checked live intro!: loop preads_then_gets C(1)
        preads_then_entry [where m = "read_header E ?m z RdbListValue_new", OF C(1) h(1)])
qed

lemma stream_pack_runs:
  assumes C: "steady C" "\<And>s. C s \<Longrightarrow> dec_out s = DataOut" and K: "compresses E K" and ok: "node_ok nd" and e: "tmp_entry e" "se_num e = num"
  shows "pflows True True C e (stream_pack E) (node_bytes K nd) (\<lambda>_ e'. tmp_entry e' \<and> se_num e' = num + seen_live nd)
    (entry_calls num nd (seen_items nd))"
proof -
  let ?i = "nd_id nd" and ?xs = "lp_bytes (node_items nd)"
  let ?B = "\<lambda>_ e'. tmp_entry e' \<and> se_num e' = num + seen_live nd" and ?es = "entry_calls num nd (seen_items nd)"
  let ?f = "\<lambda>n b. andThen (checked (lp_init (pmem b) (ppos b) n RdbListPack_new)) (\<lambda>(ok, z).
     if \<not> ok then ret ()
     else andThen (on_entry (read_header E (pmem b) z RdbListValue_new)) (\<lambda>(ok, lv).
       if \<not> ok then throw RDB_ERR_HDR
       else andThen (gets (\<lambda>s. unat (items_count (fst s)))) (\<lambda>n. entries_loop n E b z lv)))"
  have "length ?xs < 2 ^ 64" using ok by (simp add: node_ok_def lp_ok_def length_lp_bytes)
  moreover have "tmp_entry (e\<lparr>se_id := ?i\<rparr>)" using e(1) by (simp add: tmp_entry_def)
  ultimately have body: "pflows True True C (e\<lparr>se_id := ?i\<rparr>) (andThen (on_dec (onb (decode RdbLength_zero)))
      (\<lambda>L. andThen (on_dec (onb (consume E L))) (?f (l_len L)))) (item_code K (ItStr ?xs) @ []) ?B ?es"
    using e(2) by (intro pflows_block [where f = ?f, OF C(1) K] pflows_quiet [OF preads_pack_body [OF C ok]]) simp_all
  let ?g = "\<lambda>n b. andThen (checked (be64 (pmem b) (ppos b))) (\<lambda>ms. andThen (checked (be64 (pmem b) (ppos b + 8))) (\<lambda>ser.
     andThen (on_entry (modify (\<lambda>e. e\<lparr>se_id := \<lparr>rec_ms = ms, rec_ser = ser\<rparr>\<rparr>))) (\<lambda>_.
     andThen (on_dec (onb (decode RdbLength_zero))) (\<lambda>L. andThen (on_dec (onb (consume E L))) (?f (l_len L))))))"
  have "pflows True True C e (?g n b) (item_code K (ItStr ?xs)) ?B ?es" if "bytes_at (pmem b) (ppos b) (id_bytes ?i)" for n :: u64 and b
    using body id_bytes_read [OF that] by (auto simp: andThen_checked rec_id_eta intro!: pflows_then_entry [OF C(1) run_modify])
  then have "pflows True True C e (andThen (on_dec (onb (decode RdbLength_zero))) (\<lambda>L. andThen (on_dec (onb (consume E L))) (?g (l_len L))))
      (item_code K (ItStr (id_bytes ?i)) @ item_code K (ItStr ?xs)) ?B ?es"
    by (intro pflows_block [where f = ?g, OF C(1) K]) (simp_all add: length_id_bytes)
  then show ?thesis
    by (simp add: stream_pack_def node_bytes_def)
qed

lemma stream_packs_runs:
  assumes C: "steady C" "\<And>s. C s \<Longrightarrow> dec_out s = DataOut" and K: "compresses E K"
  shows "\<forall>nd \<in> set nds. node_ok nd \<Longrightarrow> tmp_entry e \<Longrightarrow> se_num e = num \<Longrightarrow>
    pflows True True C e (stream_packs (length nds) E) (concat (map (node_bytes K) nds))
      (\<lambda>_ e'. tmp_entry e' \<and> se_num e' = num + sum_list (map seen_live nds)) (node_calls num nds)"
proof (induction nds arbitrary: e num)
  case (Cons nd nds)
  have "node_ok nd" using Cons.prems(1) by simp
  then have "pflows True True C e (andThen (stream_pack E) (\<lambda>_. stream_packs (length nds) E)) (node_bytes K nd @ concat (map (node_bytes K) nds))
      (\<lambda>_ e'. tmp_entry e' \<and> se_num e' = num + seen_live nd + sum_list (map seen_live nds))
      (entry_calls num nd (seen_items nd) @ node_calls (num + seen_live nd) nds)"
    using Cons.prems by (intro pflows_andThen [OF C(1) stream_pack_runs [OF C K _ Cons.prems(2,3)] Cons.IH]) auto
  then show ?case by (simp add: add.assoc)
qed (simp add: pflows_quiet [OF preads_ret])

text \<open>All entries that the loops announce, in their order.\<close>

definition seen_entries :: "stream_node list \<Rightarrow> (stream_node \<times> stream_item) list" where
  "seen_entries nds = concat (map (\<lambda>nd. map (Pair nd) (filter (\<lambda>it. \<not> it_deleted it) (seen_items nd))) nds)"

lemma length_seen_entries: "length (seen_entries nds) = sum_list (map seen_live nds)"
  by (induction nds) (simp_all add: seen_entries_def seen_live_def)

lemma numbered_append: "numbered ev num (xs @ ys) = numbered ev num xs @ numbered ev (num + length xs) ys"
  by (induction xs arbitrary: num) simp_all

lemma entry_calls_numbered:
  "entry_calls num nd its = (let es = map (Pair nd) (filter (\<lambda>it. \<not> it_deleted it) its) in
     (if num = 0 \<and> es \<noteq> [] then [D_stream_start STREAM_ENTRY_LIST] else []) @ numbered (\<lambda>n (nd, it). entry_call n nd it) num es)"
  by (induction its arbitrary: num) (auto simp: Let_def)

lemma node_calls_numbered:
  "node_calls num nds = (if num = 0 \<and> seen_entries nds \<noteq> [] then [D_stream_start STREAM_ENTRY_LIST] else [])
     @ numbered (\<lambda>n (nd, it). entry_call n nd it) num (seen_entries nds)"
proof (induction nds arbitrary: num)
  case (Cons nd nds)
  have "seen_entries (nd # nds) = map (Pair nd) (filter (\<lambda>it. \<not> it_deleted it) (seen_items nd)) @ seen_entries nds"
    by (simp add: seen_entries_def)
  with Cons show ?case
    by (auto simp: entry_calls_numbered numbered_append seen_live_def Let_def)
qed (simp add: seen_entries_def)

end
