(* ===== verification/Rdb_Streams.thy ===== *)
theory Rdb_Streams
  imports Rdb_Nodes
begin

text \<open>
  Streams: a description of groups, consumers and pending entries around the nodes, the bytes of a
  stream in both formats, and the calls it stands for; \<open>decode_stream\<close> makes exactly these calls.
\<close>

section \<open>Groups, consumers and pending entries\<close>

record stream_pending =
  pe_id :: RdbStreamRecId
  pe_last :: u64
  pe_deliv :: u64

record stream_consumer =
  co_name :: "u8 list"
  co_seen :: u64
  co_pending :: "RdbStreamRecId list"

record stream_group =
  gr_name :: "u8 list"
  gr_last :: RdbStreamRecId
  gr_offset :: u64
  gr_pending :: "stream_pending list"
  gr_consumers :: "stream_consumer list"

text \<open>A stream in the first or second format; the first has no ids but the last, and no offsets.\<close>

record stream_obj =
  st_second :: bool
  st_nodes :: "stream_node list"
  st_num :: u64
  st_last :: RdbStreamRecId
  st_first :: RdbStreamRecId
  st_max_deleted :: RdbStreamRecId
  st_added :: u64
  st_groups :: "stream_group list"

definition id_lens :: "RdbStreamRecId \<Rightarrow> u8 list" where
  "id_lens i = hdr_bytes (rec_ms i) @ hdr_bytes (rec_ser i)"

definition pending_bytes :: "stream_pending \<Rightarrow> u8 list" where
  "pending_bytes p = id_bytes (pe_id p) @ mem_store 8 (pe_last p) @ hdr_bytes (pe_deliv p)"

definition count_bytes :: "'a list \<Rightarrow> u8 list" where
  "count_bytes xs = hdr_bytes (word_of_nat (length xs))"

definition consumer_bytes :: "stream_consumer \<Rightarrow> u8 list" where
  "consumer_bytes c = item_bytes (ItStr (co_name c)) @ mem_store 8 (co_seen c) @ count_bytes (co_pending c)
     @ concat (map id_bytes (co_pending c))"

definition group_bytes :: "bool \<Rightarrow> stream_group \<Rightarrow> u8 list" where
  "group_bytes v2 g = item_bytes (ItStr (gr_name g)) @ id_lens (gr_last g) @ (if v2 then hdr_bytes (gr_offset g) else [])
     @ count_bytes (gr_pending g) @ concat (map pending_bytes (gr_pending g))
     @ count_bytes (gr_consumers g) @ concat (map consumer_bytes (gr_consumers g))"

definition stream_bytes :: "packer \<Rightarrow> stream_obj \<Rightarrow> u8 list" where
  "stream_bytes K st = concat (map (node_bytes K) (st_nodes st)) @ hdr_bytes (st_num st) @ id_lens (st_last st)
     @ (if st_second st then id_lens (st_first st) @ id_lens (st_max_deleted st) @ hdr_bytes (st_added st) else [])
     @ count_bytes (st_groups st) @ concat (map (group_bytes (st_second st)) (st_groups st))"

text \<open>A list inside its brackets; an empty one has none.\<close>

definition in_part :: "StreamPart \<Rightarrow> 'a list \<Rightarrow> 's RdbEvent list \<Rightarrow> 's RdbEvent list" where
  "in_part p xs es = (if xs = [] then [] else D_stream_start p # es @ [D_stream_end p])"

definition pending_calls :: "stream_pending list \<Rightarrow> rdb_val option RdbEvent list" where
  "pending_calls ps = numbered (\<lambda>n p. D_stream_pend n (length ps) (pe_id p) (pe_last p) (pe_deliv p)) 0 ps"

definition consumer_calls :: "nat \<Rightarrow> nat \<Rightarrow> stream_consumer \<Rightarrow> rdb_val option RdbEvent list" where
  "consumer_calls cnt num c = D_stream_cons num cnt (Some (StrVal (co_name c))) (word_of_nat (length (co_pending c))) (co_seen c)
     # in_part STREAM_CONSUMER_PENDING_LIST (co_pending c)
         (numbered (\<lambda>n i. D_stream_cons_pend n (length (co_pending c)) i) 0 (co_pending c))
     @ [D_stream_end STREAM_CONSUMER]"

definition group_calls :: "nat \<Rightarrow> nat \<Rightarrow> stream_group \<Rightarrow> rdb_val option RdbEvent list" where
  "group_calls cnt num g = D_stream_group num cnt (Some (StrVal (gr_name g))) (word_of_nat (length (gr_pending g))) (gr_last g)
     # in_part STREAM_PENDING_LIST (gr_pending g) (pending_calls (gr_pending g))
     @ in_part STREAM_CONSUMER_LIST (gr_consumers g) (concat (numbered (consumer_calls (length (gr_consumers g))) 0 (gr_consumers g)))
     @ [D_stream_end STREAM_GROUP]"

text \<open>
  The number of entries in the description of the stream is, in the second format, the number of
  entries ever added, which is decoded into the same variable.
\<close>

definition stream_calls :: "stream_obj \<Rightarrow> rdb_val option RdbEvent list" where
  "stream_calls st = in_part STREAM_ENTRY_LIST (seen_entries (st_nodes st)) (numbered (\<lambda>n (nd, it). entry_call n nd it) 0 (seen_entries (st_nodes st)))
     @ D_stream_info (st_last st) (if st_second st then st_added st else st_num st) (word_of_nat (length (st_groups st)))
     # in_part STREAM_GROUP_LIST (st_groups st) (concat (numbered (group_calls (length (st_groups st))) 0 (st_groups st)))"

definition consumer_ok :: "stream_consumer \<Rightarrow> bool" where
  "consumer_ok c \<longleftrightarrow> length (co_name c) < 2 ^ 64 \<and> length (co_pending c) < 2 ^ 64"

definition group_ok :: "stream_group \<Rightarrow> bool" where
  "group_ok g \<longleftrightarrow> length (gr_name g) < 2 ^ 64 \<and> length (gr_pending g) < 2 ^ 64 \<and> length (gr_consumers g) < 2 ^ 64
     \<and> (\<forall>c \<in> set (gr_consumers g). consumer_ok c)"

definition stream_ok :: "stream_obj \<Rightarrow> bool" where
  "stream_ok st \<longleftrightarrow> (\<forall>nd \<in> set (st_nodes st). node_ok nd) \<and> length (st_nodes st) < 2 ^ 64
     \<and> length (st_groups st) < 2 ^ 64 \<and> (\<forall>g \<in> set (st_groups st). group_ok g)"

section \<open>Reading them\<close>

lemma reads_raw_len: "steady C \<Longrightarrow> reads C raw_len (hdr_bytes x) (\<lambda>y. y = x) []"
  unfolding raw_len_def by (rule reads_andThen [OF _ reads_hdr_bytes reads_ret]) auto

lemma reads_count:
  "steady C \<Longrightarrow> length xs < 2 ^ 64 \<Longrightarrow> reads C raw_len (count_bytes xs) (\<lambda>y. y = word_of_nat (length xs)) []"
  unfolding count_bytes_def by (rule reads_raw_len)

lemma reads_rec_id:
  assumes "steady C"
  shows "reads C read_rec_id (id_bytes i) (\<lambda>j. j = i) []"
  unfolding read_rec_id_def
  by (rule reads_then_quiet [OF assms reads_incr_at [where xs = "id_bytes i"]])
    (auto simp: length_id_bytes id_bytes_read andThen_checked rec_id_eta intro!: reads_ret)

lemma reads_u64:
  assumes "steady C"
  shows "reads C read_u64 (mem_store 8 x) (\<lambda>y. y = x) []"
  unfolding read_u64_def
proof (rule reads_then_quiet [OF assms reads_incr_at [where xs = "mem_store 8 x"]])
  fix b assume "bytes_at (pmem b) (ppos b) (mem_store 8 x)"
  from bytes_at_rdn [OF this, of 8] show "reads C (checked (le64 (pmem b) (ppos b))) [] (\<lambda>y. y = x) []"
    by (intro reads_checked [where x = x]) (simp_all add: endian_read_bytes mem_load_store)
qed auto

lemma reads_attempt:
  assumes "reads C m xs A []"
  shows "reads C (attempt m) xs (\<lambda>r. \<exists>x. r = Some x \<and> A x) []"
proof (rule readsI)
  fix s assume "C s" "wf_bufptr (dec_bptr s)" "has_bytes (dec_bptr s) xs"
  from readsD [OF assms this] obtain x bp es where "m s = (Ok x, s\<lparr>dec_bptr := bp, dec_log := dec_log s @ es\<rparr>)" "A x"
    "advanced (length xs) (dec_bptr s) bp" "map ev_val es = []" by blast
  then show "\<exists>x bp es. attempt m s = (Ok x, s\<lparr>dec_bptr := bp, dec_log := dec_log s @ es\<rparr>) \<and> (\<exists>y. x = Some y \<and> A y)
      \<and> advanced (length xs) (dec_bptr s) bp \<and> map ev_val es = []"
    by (intro exI [of _ "Some x"] exI [of _ bp] exI [of _ es]) (simp add: attempt_def)
qed

lemma reads_name:
  assumes C: "steady C" and n: "length xs < 2 ^ 64"
  shows "reads C (read_name E) (item_bytes (ItStr xs)) (\<lambda>r. \<exists>s. r = Some s \<and> str_val s = Some (StrVal xs)) []"
proof -
  have "reads C (andThen (onb (decode RdbLength_zero)) (\<lambda>L. andThen (onb (consume E L)) (\<lambda>b. ret (set_str b (l_len L) RdbString_new))))
      (item_bytes (ItStr xs) @ []) (\<lambda>s. str_val s = Some (StrVal xs)) []"
    by (rule reads_block [where f = "\<lambda>n b. ret (set_str b n RdbString_new)", OF C n])
      (use n in \<open>auto intro!: reads_ret simp: bytes_at_def unat_of_nat\<close>)
  then show ?thesis unfolding read_name_def by (intro reads_attempt) simp
qed

text \<open>The brackets around the calls of a list.\<close>

lemma reads_in_part:
  assumes C: "steady C" "\<And>s. C s \<Longrightarrow> dec_out s = DataOut"
    and m: "reads C m ys A es" "xs = [] \<Longrightarrow> es = []" and c: "c \<longleftrightarrow> xs \<noteq> []"
    and h: "\<And>x. A x \<Longrightarrow> h x = andThen (emit_if c (D_stream_end p)) (\<lambda>_. k x)"
    and k: "\<And>x. A x \<Longrightarrow> reads C (k x) zs B fs" and gs: "gs = in_part p xs es @ fs" and ws: "ws = ys @ zs"
  shows "reads C (andThen (emit_if c (D_stream_start p)) (\<lambda>_. andThen m h)) ws B gs"
proof (cases "xs = []")
  case True
  then have "c = False" using c by simp
  then show ?thesis
    using True m(2) gs ws h k
    by (auto simp: andThen_ret in_part_def emit_if_def intro!: reads_andThen [OF C(1) m(1)])
next
  case False
  have "reads C (andThen m h) ws B (es @ D_stream_end p # fs)"
    using ws False c h by (intro reads_andThen [OF C(1) m(1)]) (auto simp: emit_if_def intro!: reads_then_emit [OF C _ k])
  then have "reads C (andThen (emit (D_stream_start p)) (\<lambda>_. andThen m h)) ws B (D_stream_start p # es @ D_stream_end p # fs)"
    by (intro reads_then_emit [OF C]) auto
  then show ?thesis using False c gs by (simp add: emit_if_def in_part_def)
qed

lemma reads_pend_loop:
  assumes C: "steady C" "\<And>s. C s \<Longrightarrow> dec_out s = DataOut"
  shows "reads C (pend_loop (length ps) num cnt) (concat (map pending_bytes ps)) (\<lambda>_. True)
    (numbered (\<lambda>n p. D_stream_pend n cnt (pe_id p) (pe_last p) (pe_deliv p)) num ps)"
proof (rule reads_loop [OF C, where loop = "\<lambda>k num. pend_loop k num cnt"
      and m = "andThen read_rec_id (\<lambda>i. andThen read_u64 (\<lambda>l. andThen raw_len (\<lambda>d. ret (i, l, d))))"
      and e = "\<lambda>num (i, l, d). D_stream_pend num cnt i l d" and A = "\<lambda>p r. r = (pe_id p, pe_last p, pe_deliv p)"])
  show "reads C (andThen read_rec_id (\<lambda>i. andThen read_u64 (\<lambda>l. andThen raw_len (\<lambda>d. ret (i, l, d))))) (pending_bytes p)
      (\<lambda>r. r = (pe_id p, pe_last p, pe_deliv p)) []" for p
    unfolding pending_bytes_def
    by (rule reads_then_quiet [OF C(1) reads_rec_id [OF C(1)] reads_then_quiet [OF C(1) reads_u64 [OF C(1)]
          reads_then_quiet [OF C(1) reads_raw_len [OF C(1)] reads_ret]]]) auto
qed (auto simp: andThen_assoc andThen_ret)

lemma reads_cons_pend_loop:
  assumes C: "steady C" "\<And>s. C s \<Longrightarrow> dec_out s = DataOut"
  shows "reads C (cons_pend_loop (length is) num cnt) (concat (map id_bytes is)) (\<lambda>_. True)
    (numbered (\<lambda>n i. D_stream_cons_pend n cnt i) num is)"
  by (rule reads_loop [OF C, where loop = "\<lambda>k num. cons_pend_loop k num cnt" and m = read_rec_id
      and e = "\<lambda>num i. D_stream_cons_pend num cnt i" and A = "\<lambda>i r. r = i"]) (auto intro: reads_rec_id C)

lemma small_word: "length xs < 2 ^ 64 \<Longrightarrow> unat (word_of_nat (length xs) :: u64) = length xs"
  "length xs < 2 ^ 64 \<Longrightarrow> (word_of_nat (length xs) :: u64) \<noteq> 0 \<longleftrightarrow> xs \<noteq> []"
  by (simp_all add: unat_of_nat unat_eq_zero [symmetric] del: unat_eq_zero)

text \<open>A name, and what is read behind it.\<close>

lemma reads_named:
  assumes C: "steady C" and n: "length nm < 2 ^ 64"
    and k: "\<And>s. str_val s = Some (StrVal nm) \<Longrightarrow> reads C (k s) ys B es" and zs: "zs = item_bytes (ItStr nm) @ ys"
  shows "reads C (andThen (read_name E) (\<lambda>r. case r of None \<Rightarrow> ret False | Some s \<Rightarrow> k s)) zs B es"
  by (rule reads_then_quiet [OF C reads_name [OF C n] _ zs]) (auto intro: k)

lemma cons_loop_runs:
  assumes C: "steady C" "\<And>s. C s \<Longrightarrow> dec_out s = DataOut"
  shows "\<forall>c \<in> set cs. consumer_ok c \<Longrightarrow> reads C (cons_loop (length cs) num cnt E) (concat (map consumer_bytes cs)) (\<lambda>ok. ok)
    (concat (numbered (consumer_calls cnt) num cs))"
proof (induction cs arbitrary: num)
  case Nil
  then show ?case by (simp add: reads_ret)
next
  case (Cons c cs)
  let ?ps = "co_pending c" and ?n = "word_of_nat (length (co_pending c)) :: u64"
  let ?rest = "concat (map consumer_bytes cs)" and ?es = "concat (numbered (consumer_calls cnt) (Suc num) cs)"
  have ok: "length (co_name c) < 2 ^ 64" "length ?ps < 2 ^ 64" using Cons.prems by (simp_all add: consumer_ok_def)
  let ?end_c = "andThen (emit (D_stream_end STREAM_CONSUMER)) (\<lambda>_. cons_loop (length cs) (Suc num) cnt E)"
  let ?pend = "\<lambda>n. andThen (emit_if (n \<noteq> 0) (D_stream_start STREAM_CONSUMER_PENDING_LIST)) (\<lambda>_.
       andThen (cons_pend_loop (unat n) 0 (unat n)) (\<lambda>_.
       andThen (emit_if (n \<noteq> 0) (D_stream_end STREAM_CONSUMER_PENDING_LIST)) (\<lambda>_. ?end_c)))"
  have next_c: "reads C ?end_c ?rest (\<lambda>ok. ok) (D_stream_end STREAM_CONSUMER # ?es)"
    using Cons by (intro reads_then_emit [OF C]) auto
  have "reads C (?pend ?n) (concat (map id_bytes ?ps) @ ?rest) (\<lambda>ok. ok)
     (in_part STREAM_CONSUMER_PENDING_LIST ?ps (numbered (\<lambda>n i. D_stream_cons_pend n (length ?ps) i) 0 ?ps) @ D_stream_end STREAM_CONSUMER # ?es)"
    unfolding small_word [OF ok(2)]
    by (rule reads_in_part [OF C reads_cons_pend_loop [OF C] _ _ refl next_c]) auto
  then have "reads C (andThen read_u64 (\<lambda>seen. andThen raw_len (\<lambda>cpend. andThen (emit (D_stream_cons num cnt s cpend seen)) (\<lambda>_. ?pend cpend))))
       (mem_store 8 (co_seen c) @ count_bytes ?ps @ concat (map id_bytes ?ps) @ ?rest) (\<lambda>ok. ok) (consumer_calls cnt num c @ ?es)"
    if "str_val s = Some (StrVal (co_name c))" for s
    using that by (auto simp: consumer_calls_def
      intro!: reads_then_quiet [OF C(1) reads_u64 [OF C(1)]] reads_then_quiet [OF C(1) reads_count [OF C(1) ok(2)]] reads_then_emit [OF C])
  then show ?case
    by (auto simp: consumer_bytes_def [of c] intro!: reads_named [OF C(1) ok(1)])
qed

lemma reads_consumers:
  assumes C: "steady C" "\<And>s. C s \<Longrightarrow> dec_out s = DataOut" and cs: "\<forall>c \<in> set cs. consumer_ok c" "length cs < 2 ^ 64"
  shows "reads C (group_consumers E) (count_bytes cs @ concat (map consumer_bytes cs)) (\<lambda>ok. ok)
    (in_part STREAM_CONSUMER_LIST cs (concat (numbered (consumer_calls (length cs)) 0 cs)))"
  unfolding group_consumers_def
proof (rule reads_then_quiet [OF C(1) reads_count [OF C(1) cs(2)]])
  fix n :: u64 assume n: "n = word_of_nat (length cs)"
  show "reads C (andThen (emit_if (n \<noteq> 0) (D_stream_start STREAM_CONSUMER_LIST)) (\<lambda>_. andThen (cons_loop (unat n) 0 (unat n) E) (\<lambda>ok.
     if \<not> ok then ret False
     else andThen (emit_if (n \<noteq> 0) (D_stream_end STREAM_CONSUMER_LIST)) (\<lambda>_. ret True)))) (concat (map consumer_bytes cs)) (\<lambda>ok. ok)
      (in_part STREAM_CONSUMER_LIST cs (concat (numbered (consumer_calls (length cs)) 0 cs)))"
    unfolding n small_word [OF cs(2)]
    by (rule reads_in_part [OF C cons_loop_runs [OF C cs(1)] _ _ _ reads_ret [of "\<lambda>ok. ok" True]]) auto
qed simp

lemma reads_decode_again:
  "reads C (onb (decode L)) (hdr_bytes x) (\<lambda>M. M = L\<lparr>l_len := x\<rparr>) []"
  by (rule reads_decode) (auto simp: decode_hdr_bytes MAX_RDB_HDRLEN_def intro: le_trans [OF length_hdr_bytes_le])

lemma reads_id_lens:
  assumes C: "steady C" and k: "reads C (k (rec_ms i) (rec_ser i)) ys B es" and zs: "zs = id_lens i @ ys"
  shows "reads C (andThen raw_len (\<lambda>ms. andThen raw_len (\<lambda>ser. k ms ser))) zs B es"
  unfolding zs id_lens_def append_assoc
  by (rule reads_then_quiet [OF C reads_raw_len [OF C] reads_then_quiet [OF C reads_raw_len [OF C] _ refl] refl]) (simp add: k)

text \<open>The context fixes the format.\<close>

definition in_format :: "bool \<Rightarrow> (RdbDecode \<Rightarrow> bool) \<Rightarrow> bool" where
  "in_format v2 C \<longleftrightarrow> steady C \<and> (\<forall>s. C s \<longrightarrow> dec_out s = DataOut \<and> (dec_type s = RDB_STREAM_LISTPACKS_2 \<longleftrightarrow> v2))"

lemma reads_in_format:
  assumes C: "in_format v2 C" and m: "v2 \<Longrightarrow> reads C m xs A []" "\<not> v2 \<Longrightarrow> A x"
    and k: "\<And>y. A y \<Longrightarrow> reads C (k y) ys B es" and zs: "zs = (if v2 then xs else []) @ ys"
  shows "reads C (andThen (gets dec_type) (\<lambda>t. andThen (if t = RDB_STREAM_LISTPACKS_2 then m else ret x) k)) zs B es"
proof -
  have st: "steady C" using C by (simp add: in_format_def)
  have "reads C (andThen (if v2 then m else ret x) k) zs B es"
    using m k by (cases v2) (auto simp: zs andThen_ret intro: reads_then_quiet [OF st])
  then show ?thesis
    using C by (intro reads_andThen [OF st reads_gets [where A = "\<lambda>t. t = RDB_STREAM_LISTPACKS_2 \<longleftrightarrow> v2"]])
      (auto simp: in_format_def)
qed

lemma group_loop_runs:
  assumes C: "in_format v2 C"
  shows "\<forall>g \<in> set gs. group_ok g \<Longrightarrow> reads C (group_loop (length gs) num cnt off E) (concat (map (group_bytes v2) gs)) (\<lambda>ok. ok)
    (concat (numbered (group_calls cnt) num gs))"
proof (induction gs arbitrary: num off)
  case Nil
  then show ?case by (simp add: reads_ret)
next
  case (Cons g gs)
  have st: "steady C" "\<And>s. C s \<Longrightarrow> dec_out s = DataOut" using C by (auto simp: in_format_def)
  let ?ps = "gr_pending g" and ?cs = "gr_consumers g" and ?n = "word_of_nat (length (gr_pending g)) :: u64"
  let ?rest = "concat (map (group_bytes v2) gs)" and ?es = "concat (numbered (group_calls cnt) (Suc num) gs)"
  have ok: "length (gr_name g) < 2 ^ 64" "length ?ps < 2 ^ 64" "length ?cs < 2 ^ 64" "\<forall>c \<in> set ?cs. consumer_ok c"
    using Cons.prems by (simp_all add: group_ok_def)
  let ?end_g = "\<lambda>off. andThen (group_consumers E) (\<lambda>ok. if \<not> ok then ret False
       else andThen (emit (D_stream_end STREAM_GROUP)) (\<lambda>_. group_loop (length gs) (Suc num) cnt off E))"
  let ?pend = "\<lambda>off n. andThen (emit_if (n \<noteq> 0) (D_stream_start STREAM_PENDING_LIST)) (\<lambda>_.
       andThen (pend_loop (unat n) 0 (unat n)) (\<lambda>_.
       andThen (emit_if (n \<noteq> 0) (D_stream_end STREAM_PENDING_LIST)) (\<lambda>_. ?end_g off)))"
  let ?ces = "in_part STREAM_CONSUMER_LIST ?cs (concat (numbered (consumer_calls (length ?cs)) 0 ?cs))"
  have next_g: "reads C (?end_g off) ((count_bytes ?cs @ concat (map consumer_bytes ?cs)) @ ?rest) (\<lambda>ok. ok)
      (?ces @ D_stream_end STREAM_GROUP # ?es)" for off
    using Cons by (intro reads_andThen [OF st(1) reads_consumers [OF st ok(4,3)]]) (auto intro!: reads_then_emit [OF st])
  have "reads C (?pend off ?n) (concat (map pending_bytes ?ps) @ (count_bytes ?cs @ concat (map consumer_bytes ?cs)) @ ?rest) (\<lambda>ok. ok)
     (in_part STREAM_PENDING_LIST ?ps (pending_calls ?ps) @ ?ces @ D_stream_end STREAM_GROUP # ?es)" for off
    unfolding small_word [OF ok(2)] pending_calls_def
    by (rule reads_in_part [OF st reads_pend_loop [OF st] _ _ refl next_g]) auto
  then have pend: "reads C (andThen raw_len (\<lambda>pend. andThen (emit (D_stream_group num cnt s pend (gr_last g))) (\<lambda>_. ?pend off pend)))
       (count_bytes ?ps @ concat (map pending_bytes ?ps) @ count_bytes ?cs @ concat (map consumer_bytes ?cs) @ ?rest) (\<lambda>ok. ok)
       (group_calls cnt num g @ ?es)"
    if "str_val s = Some (StrVal (gr_name g))" for s off
    using that by (auto simp: group_calls_def intro!: reads_then_quiet [OF st(1) reads_count [OF st(1) ok(2)]] reads_then_emit [OF st])
  have "reads C (andThen (gets dec_type) (\<lambda>t. andThen (if t = RDB_STREAM_LISTPACKS_2 then onb (decode off) else ret off) (\<lambda>off.
       andThen raw_len (\<lambda>pend. andThen (emit (D_stream_group num cnt s pend (gr_last g))) (\<lambda>_. ?pend off pend)))))
       ((if v2 then hdr_bytes (gr_offset g) else []) @ count_bytes ?ps @ concat (map pending_bytes ?ps) @ count_bytes ?cs
         @ concat (map consumer_bytes ?cs) @ ?rest) (\<lambda>ok. ok) (group_calls cnt num g @ ?es)"
    if "str_val s = Some (StrVal (gr_name g))" for s
    by (rule reads_in_format [OF C, where A = "\<lambda>_. True"])
      (use pend [OF that] in \<open>auto intro: reads_weaken [OF reads_decode_again]\<close>)
  then show ?case
    by (auto simp: group_bytes_def [of v2 g] rec_id_eta intro!: reads_named [OF st(1) ok(1)] reads_id_lens [OF st(1)])
qed

section \<open>The whole stream\<close>

definition stream_type :: "stream_obj \<Rightarrow> RdbType" where
  "stream_type st = (if st_second st then RDB_STREAM_LISTPACKS_2 else RDB_STREAM_LISTPACK)"

lemma in_format_ctx: "in_format (st_second st) (in_ctx (stream_type st) L kv)"
  by (simp add: in_format_def stream_type_def in_ctx_def)

definition ids_bytes :: "stream_obj \<Rightarrow> u8 list" where
  "ids_bytes st = hdr_bytes (st_num st) @ id_lens (st_last st)
     @ (if st_second st then id_lens (st_first st) @ id_lens (st_max_deleted st) @ hdr_bytes (st_added st) else [])
     @ count_bytes (st_groups st)"

lemma stream_ids_runs:
  assumes C: "in_format (st_second st) C" and n: "length (st_groups st) < 2 ^ 64"
  shows "reads C stream_ids (ids_bytes st)
    (\<lambda>r. r = (if st_second st then st_added st else st_num st, st_last st, word_of_nat (length (st_groups st)))) []"
proof -
  have C1: "steady C" using C by (simp add: in_format_def)
  let ?A = "\<lambda>M. M = RdbLength_zero\<lparr>l_len := if st_second st then st_added st else st_num st\<rparr>"
  let ?B = "\<lambda>r. r = (if st_second st then st_added st else st_num st, st_last st, word_of_nat (length (st_groups st)))"
  have again: "reads C (onb (decode (RdbLength_zero\<lparr>l_len := st_num st\<rparr>))) (hdr_bytes (st_added st)) (\<lambda>M. M = RdbLength_zero\<lparr>l_len := st_added st\<rparr>) []"
    by (rule reads_weaken [OF reads_decode_again]) simp
  have "reads C (andThen (gets dec_type) (\<lambda>t.
     andThen (if t = RDB_STREAM_LISTPACKS_2 then
         andThen raw_len (\<lambda>first_ms. andThen raw_len (\<lambda>first_ser.
         andThen raw_len (\<lambda>max_del_ms. andThen raw_len (\<lambda>max_del_ser.
           onb (decode (RdbLength_zero\<lparr>l_len := st_num st\<rparr>))))))
       else ret (RdbLength_zero\<lparr>l_len := st_num st\<rparr>)) (\<lambda>num_elems.
     andThen raw_len (\<lambda>cgroups. ret (l_len num_elems, st_last st, cgroups)))))
    ((if st_second st then id_lens (st_first st) @ id_lens (st_max_deleted st) @ hdr_bytes (st_added st) else []) @ count_bytes (st_groups st)) ?B []"
    by (rule reads_in_format [OF C, where A = ?A])
      (auto intro!: reads_id_lens [OF C1 reads_id_lens [OF C1 again]] reads_then_quiet [OF C1 reads_count [OF C1 n] reads_ret])
  then show ?thesis
    unfolding stream_ids_def ids_bytes_def
    by (intro reads_then_quiet [OF C1 reads_hdr_bytes [where x = "st_num st"]] reads_id_lens [OF C1]) (auto simp: rec_id_eta)
qed

lemma stream_rest_runs:
  assumes n: "length (st_groups st) < 2 ^ 64" "\<forall>g \<in> set (st_groups st). group_ok g"
  shows "reads (in_ctx (stream_type st) L kv) (stream_rest E) (ids_bytes st @ concat (map (group_bytes (st_second st)) (st_groups st))) (\<lambda>_. True)
    (D_stream_info (st_last st) (if st_second st then st_added st else st_num st) (word_of_nat (length (st_groups st)))
     # in_part STREAM_GROUP_LIST (st_groups st) (concat (numbered (group_calls (length (st_groups st))) 0 (st_groups st)))
     @ [D_end_key (stream_type st)])"
proof -
  let ?C = "in_ctx (stream_type st) L kv" and ?gs = "st_groups st"
  let ?m = "group_loop (length ?gs) 0 (length ?gs) RdbLength_zero E"
  have "reads ?C (andThen (emit_if (?gs \<noteq> []) (D_stream_start STREAM_GROUP_LIST)) (\<lambda>_. andThen ?m (\<lambda>ok.
      if \<not> ok then ret () else andThen (emit_if (?gs \<noteq> []) (D_stream_end STREAM_GROUP_LIST)) (\<lambda>_. end_key))))
      (concat (map (group_bytes (st_second st)) ?gs)) (\<lambda>_. True)
      (in_part STREAM_GROUP_LIST ?gs (concat (numbered (group_calls (length ?gs)) 0 ?gs)) @ [D_end_key (stream_type st)])"
    by (rule reads_in_part [OF steady_in_ctx in_ctx_out group_loop_runs [OF in_format_ctx n(2)] _ _ _ reads_end_key]) auto
  then have groups: "reads ?C (andThen (emit (D_stream_info (st_last st) x w)) (\<lambda>_. andThen (emit_if (w \<noteq> 0) (D_stream_start STREAM_GROUP_LIST)) (\<lambda>_.
     andThen (group_loop (unat w) 0 (unat w) RdbLength_zero E) (\<lambda>ok.
     if \<not> ok then ret () else andThen (emit_if (w \<noteq> 0) (D_stream_end STREAM_GROUP_LIST)) (\<lambda>_. end_key)))))
      (concat (map (group_bytes (st_second st)) ?gs)) (\<lambda>_. True)
      (D_stream_info (st_last st) x w # in_part STREAM_GROUP_LIST ?gs (concat (numbered (group_calls (length ?gs)) 0 ?gs)) @ [D_end_key (stream_type st)])"
    if "w = word_of_nat (length ?gs)" for x w
    unfolding that small_word [OF n(1)] by (intro reads_then_emit [OF steady_in_ctx in_ctx_out]) auto
  show ?thesis
    unfolding stream_rest_def
    by (rule reads_then_quiet [OF steady_in_ctx stream_ids_runs [OF in_format_ctx n(1)] _ refl])
      (simp only: prod.case, rule groups, rule refl)
qed

lemma stream_rest_flows:
  assumes n: "length (st_groups st) < 2 ^ 64" "\<forall>g \<in> set (st_groups st). group_ok g"
  shows "flows p q (in_ctx (stream_type st) L kv) (stream_rest E) (ids_bytes st @ concat (map (group_bytes (st_second st)) (st_groups st))) (\<lambda>_. True)
    (D_stream_info (st_last st) (if st_second st then st_added st else st_num st) (word_of_nat (length (st_groups st)))
     # in_part STREAM_GROUP_LIST (st_groups st) (concat (numbered (group_calls (length (st_groups st))) 0 (st_groups st)))
     @ [D_end_key (stream_type st)])"
proof -
  obtain f where f: "stream_rest E = andThen (onb (decode RdbLength_zero)) f"
    by (simp only: stream_rest_def stream_ids_def andThen_assoc)
  have "length (hdr_bytes x) \<le> MAX_RDB_HDRLEN" for x
    using length_hdr_bytes_le [of x] by (simp add: MAX_RDB_HDRLEN_def)
  from flows_hdr [OF stream_rest_runs [OF n, of L kv E, unfolded f ids_bytes_def append_assoc] steady_in_ctx _ this decode_hdr_bytes]
  show ?thesis unfolding f ids_bytes_def append_assoc by simp
qed

lemma stream_body_runs:
  assumes K: "compresses E K" and ok: "stream_ok st" and L: "l_len L = word_of_nat (length (st_nodes st))"
  shows "pflows True True (in_ctx (stream_type st) L kv) RdbStreamEntry_new (stream_body E) (stream_bytes K st) (\<lambda>_ e. tmp_entry e)
    (D_start_key (stream_type st) kv # stream_calls st @ [D_end_key (stream_type st)])"
proof -
  let ?C = "in_ctx (stream_type st) L kv" and ?nds = "st_nodes st"
  let ?rest = "ids_bytes st @ concat (map (group_bytes (st_second st)) (st_groups st))"
  let ?es = "D_stream_info (st_last st) (if st_second st then st_added st else st_num st) (word_of_nat (length (st_groups st)))
     # in_part STREAM_GROUP_LIST (st_groups st) (concat (numbered (group_calls (length (st_groups st))) 0 (st_groups st)))
     @ [D_end_key (stream_type st)]"
  have n: "length ?nds < 2 ^ 64" "\<forall>nd \<in> set ?nds. node_ok nd" "length (st_groups st) < 2 ^ 64" "\<forall>g \<in> set (st_groups st). group_ok g"
    using ok by (simp_all add: stream_ok_def)
  have C: "steady ?C" "\<And>s. ?C s \<Longrightarrow> dec_out s = DataOut" by simp_all
  have e0: "tmp_entry RdbStreamEntry_new" "se_num RdbStreamEntry_new = 0" by (simp_all add: tmp_entry_def RdbStreamEntry_new_def tmp_places)
  have last: "pflows True True ?C e (on_dec (stream_rest E)) ?rest (\<lambda>_ e. tmp_entry e) ?es" if "tmp_entry e" for e
    using pflows_dec [OF stream_rest_flows [OF n(3,4), of True True L kv E], of e] that
    by (auto simp: pflows_def intro: flows_weaken)
  have tail: "pflows True True ?C e (andThen (gets (\<lambda>s. se_num (fst s))) (\<lambda>n.
      andThen (on_dec (emit_if (n \<noteq> 0) (D_stream_end STREAM_ENTRY_LIST))) (\<lambda>_. on_dec (stream_rest E)))) ?rest (\<lambda>_ e. tmp_entry e)
      ((if se_num e = 0 then [] else [D_stream_end STREAM_ENTRY_LIST]) @ ?es)" if "tmp_entry e" for e
  proof (rule pflows_then_gets [OF _ _ C(1)])
    have "reads ?C (emit_if (se_num e \<noteq> 0) (D_stream_end STREAM_ENTRY_LIST)) [] (\<lambda>_. True)
      (if se_num e = 0 then [] else [D_stream_end STREAM_ENTRY_LIST])"
      by (auto simp: emit_if_def intro: reads_ret preads_emit [OF C(2)])
    from pflows_then_dec [OF C(1) flows_quiet [OF this, where p = True and q = True] last [OF that] _ refl]
    show "pflows True True ?C e (andThen (on_dec (emit_if (se_num e \<noteq> 0) (D_stream_end STREAM_ENTRY_LIST))) (\<lambda>_. on_dec (stream_rest E))) ?rest
      (\<lambda>_ e. tmp_entry e) ((if se_num e = 0 then [] else [D_stream_end STREAM_ENTRY_LIST]) @ ?es)" by simp
  qed simp
  let ?entries = "in_part STREAM_ENTRY_LIST (seen_entries ?nds) (numbered (\<lambda>n (nd, it). entry_call n nd it) 0 (seen_entries ?nds))"
  have entries: "node_calls 0 ?nds @ (if sum_list (map seen_live ?nds) = 0 then [] else [D_stream_end STREAM_ENTRY_LIST]) = ?entries"
    unfolding length_seen_entries [symmetric] by (simp add: node_calls_numbered in_part_def)
  have packs: "pflows True True ?C RdbStreamEntry_new (andThen (stream_packs (length ?nds) E) (\<lambda>_. andThen (gets (\<lambda>s. se_num (fst s))) (\<lambda>n.
      andThen (on_dec (emit_if (n \<noteq> 0) (D_stream_end STREAM_ENTRY_LIST))) (\<lambda>_. on_dec (stream_rest E)))))
      (concat (map (node_bytes K) ?nds) @ ?rest) (\<lambda>_ e. tmp_entry e)
      (node_calls 0 ?nds @ (if sum_list (map seen_live ?nds) = 0 then [] else [D_stream_end STREAM_ENTRY_LIST]) @ ?es)"
    by (rule pflows_andThen [OF C(1) stream_packs_runs [OF C K n(2) e0]]) (use tail in force)+
  have "pflows True True ?C RdbStreamEntry_new (stream_body E) ([] @ concat (map (node_bytes K) ?nds) @ ?rest) (\<lambda>_ e. tmp_entry e)
    ([D_start_key (stream_type st) kv] @ ?entries @ ?es)"
    unfolding stream_body_def
  proof (rule pflows_then_dec [OF C(1) flows_quiet [OF reads_start_key] _ refl refl], assumption, rule pflows_then_gets [OF _ _ C(1)])
    show "unat (l_len (dec_rlen (snd (RdbStreamEntry_new, s)))) = length ?nds" if "?C s" for s
      using that by (simp add: in_ctx_def L small_word [OF n(1)])
  qed (use packs entries in \<open>simp only: append_assoc [symmetric]\<close>)
  moreover have "concat (map (node_bytes K) ?nds) @ ?rest = stream_bytes K st"
    by (simp only: stream_bytes_def ids_bytes_def append_assoc)
  ultimately show ?thesis
    by (simp only: stream_calls_def append_assoc append_Cons append_Nil)
qed

lemma flows_stream:
  assumes K: "compresses E K" and ok: "stream_ok st" and L: "l_len L = word_of_nat (length (st_nodes st))"
  shows "flows True True (in_ctx (stream_type st) L kv) (decode_stream E) (stream_bytes K st) (\<lambda>_. True)
    (D_start_key (stream_type st) kv # stream_calls st @ [D_end_key (stream_type st)])"
proof (rule flowsI)
  fix s assume s: "in_ctx (stream_type st) L kv s" "in_main (dec_bptr s)" "True \<or> direct (dec_bptr s)"
    "has_bytes (settled (dec_bptr s)) (stream_bytes K st)"
  obtain x bp es where
    1: "with_entry RdbStreamEntry_new (stream_body E) s = (Ok x, s\<lparr>dec_bptr := bp, dec_log := dec_log s @ es\<rparr>)" "tmp_entry (snd x)"
    "moved (length (stream_bytes K st)) (dec_bptr s) bp"
    "map ev_val es = D_start_key (stream_type st) kv # stream_calls st @ [D_end_key (stream_type st)]"
    by (rule flowsD [OF stream_body_runs [OF K ok L, of kv, unfolded pflows_def] s]) (auto simp: split_def)
  then have "stream_body E (RdbStreamEntry_new, s) = (Ok (fst x), snd x, s\<lparr>dec_bptr := bp, dec_log := dec_log s @ es\<rparr>)"
    by (cases x) (simp flip: with_entry_Ok)
  with 1(2-4) show "\<exists>x bp es. decode_stream E s = (Ok x, s\<lparr>dec_bptr := bp, dec_log := dec_log s @ es\<rparr>) \<and> True
      \<and> moved (length (stream_bytes K st)) (dec_bptr s) bp \<and> (True \<or> direct bp)
      \<and> map ev_val es = D_start_key (stream_type st) kv # stream_calls st @ [D_end_key (stream_type st)]"
    by (intro exI [of _ "fst x"] exI [of _ bp] exI [of _ es]) (simp add: decode_stream_def drop_tmp)
qed

section \<open>The calls of a stream\<close>

lemma set_numbered: "e \<in> set (numbered ev num xs) \<Longrightarrow> \<exists>n x. x \<in> set xs \<and> e = ev n x"
  by (induction xs arbitrary: num) fastforce+

lemma set_in_part: "e \<in> set (in_part p xs es) \<Longrightarrow> e = D_stream_start p \<or> e \<in> set es \<or> e = D_stream_end p"
  by (auto simp: in_part_def split: if_splits)

text \<open>A predicate that holds of all calls of a stream, from the calls of its parts.\<close>

lemma stream_calls_all:
  assumes e: "e \<in> set (stream_calls st)"
    and marks: "\<And>p. P (D_stream_start p)" "\<And>p. P (D_stream_end p)" and info: "\<And>i n c. P (D_stream_info i n c)"
    and entry: "\<And>n nd it. nd \<in> set (st_nodes st) \<Longrightarrow> it \<in> set (nd_items nd) \<Longrightarrow> P (entry_call n nd it)"
    and group: "\<And>n c g p i. g \<in> set (st_groups st) \<Longrightarrow> P (D_stream_group n c (Some (StrVal (gr_name g))) p i)"
    and pend: "\<And>n c i l d. P (D_stream_pend n c i l d)" "\<And>n c i. P (D_stream_cons_pend n c i)"
    and cons: "\<And>n k g c p s. g \<in> set (st_groups st) \<Longrightarrow> c \<in> set (gr_consumers g) \<Longrightarrow> P (D_stream_cons n k (Some (StrVal (co_name c))) p s)"
  shows "P e"
proof -
  have consumer: "P e" if g: "g \<in> set (st_groups st)" and c: "c \<in> set (gr_consumers g)" and m: "e \<in> set (consumer_calls k n c)" for k n c g e
    using m marks pend(2) cons [OF g c] unfolding consumer_calls_def by (auto dest!: set_in_part set_numbered)
  have "P e" if g: "g \<in> set (st_groups st)" and m: "e \<in> set (group_calls k n g)" for k n g e
    using m marks pend(1) group [OF g] consumer [OF g] unfolding group_calls_def pending_calls_def
    by (auto dest!: set_in_part set_numbered)
  moreover have "P (entry_call n nd it)" if "(nd, it) \<in> set (seen_entries (st_nodes st))" for n nd it
    using that by (intro entry) (auto simp: seen_entries_def seen_items_def dest!: in_set_takeD)
  ultimately show ?thesis
    using e marks info unfolding stream_calls_def by (auto dest!: set_in_part set_numbered)
qed

lemma stream_calls_event: "e \<in> set (stream_calls st) \<Longrightarrow> stream_event e"
  by (erule stream_calls_all) (simp_all add: entry_call_def)

lemma stream_calls_readable: "e \<in> set (stream_calls st) \<Longrightarrow> None \<notin> set_RdbEvent e"
  by (erule stream_calls_all) (auto simp: entry_call_def)

end
