(* ===== verification/Rdb_Zipmaps.thy ===== *)
theory Rdb_Zipmaps
  imports Rdb_Packed
begin

text \<open>
  Zipmaps: the bytes of a zipmap, with free space behind its values, and what \<open>decode_hash_zipmap\<close> makes of them.
  The lengths fit in a byte; longer ones are read big endian, which is not what Redis writes.
\<close>

section \<open>The format\<close>

type_synonym zm_entry = "u8 list \<times> u8 list \<times> u8 list"

fun zm_entry_ok :: "zm_entry \<Rightarrow> bool" where
  "zm_entry_ok (f, v, pad) \<longleftrightarrow> length f < 254 \<and> length v < 254 \<and> length pad < 256"

fun zm_entry_bytes :: "zm_entry \<Rightarrow> u8 list" where
  "zm_entry_bytes (f, v, pad) = word_of_nat (length f) # f @ word_of_nat (length v) # word_of_nat (length pad) # v @ pad"

text \<open>The count in front is 254 when it does not fit.\<close>

definition zm_num :: "zm_entry list \<Rightarrow> nat" where
  "zm_num es = min (length es) 254"

definition zm_bytes :: "zm_entry list \<Rightarrow> u8 list" where
  "zm_bytes es = word_of_nat (zm_num es) # concat (map zm_entry_bytes es) @ [255]"

definition zm_ok :: "zm_entry list \<Rightarrow> bool" where
  "zm_ok es \<longleftrightarrow> length (zm_bytes es) < 2 ^ 64 \<and> (\<forall>e \<in> set es. zm_entry_ok e)"

section \<open>The local buffer pointer\<close>

lemma hptr_block:
  assumes "wf_bufptr h" "has_bytes h (xs @ ys)" "n = length xs"
  obtains h' where "\<And>d. hptr_incr n (h, d) = (Ok (buf h), (h', d))" "wf_bufptr h'" "has_bytes h' ys" "bytes_at (pmem (buf h)) (ppos (buf h)) xs"
proof -
  obtain h' where 1: "incr n h = (Ok (Some (buf h)), h')" "advanced n h h'"
    using incr_runs [OF assms(1) has_bytes_prefix [OF assms(2)] assms(3)] by blast
  have "hptr_incr n (h, d) = (Ok (buf h), (h', d))" for d
    using 1(1) by (simp add: hptr_incr_def onh_def zoom_def andThen_def ret_def)
  moreover have "wf_bufptr h'" using advanced_wf [OF assms(1) 1(2)] assms(2,3) by (simp add: has_bytes_def)
  moreover have "has_bytes h' ys" using has_bytes_advanced [OF assms(2)] 1(2) assms(3) by simp
  moreover have "bytes_at (pmem (buf h)) (ppos (buf h)) xs" using assms(2) by (simp add: has_bytes_def bytes_at_append)
  ultimately show ?thesis by (rule that)
qed

lemma hptr_byte:
  assumes "wf_bufptr h" "has_bytes h (c # ys)"
  obtains h' where "\<And>f d. andThen (hptr_incr 1) (\<lambda>b. andThen (checked (rd8 (pmem b) (ppos b))) f) (h, d) = f c (h', d)"
    "wf_bufptr h'" "has_bytes h' ys"
proof -
  have "has_bytes h ([c] @ ys)" "1 = length [c]" using assms(2) by simp_all
  from hptr_block [OF assms(1) this] obtain h' where
    1: "\<And>d. hptr_incr 1 (h, d) = (Ok (buf h), (h', d))" "wf_bufptr h'" "has_bytes h' ys" "bytes_at (pmem (buf h)) (ppos (buf h)) [c]"
    by blast
  have "andThen (hptr_incr 1) (\<lambda>b. andThen (checked (rd8 (pmem b) (ppos b))) f) (h, d) = f c (h', d)" for f d
    using 1(4) by (simp add: andThen_Ok [where m = "hptr_incr 1", OF 1(1)] bytes_at_Cons run_andThen del: One_nat_def)
  then show ?thesis using that 1(2,3) by blast
qed

lemma small_byte:
  assumes "n < 254"
  shows "\<not> 254 \<le> (word_of_nat n :: u8)" "unat (ucast (word_of_nat n :: u8) :: u32) = n"
proof -
  have u: "unat (word_of_nat n :: u8) = n" using assms by (simp add: unat_of_nat)
  then show "\<not> 254 \<le> (word_of_nat n :: u8)" using assms by (simp add: word_le_nat_alt)
  show "unat (ucast (word_of_nat n :: u8) :: u32) = n" using u assms by (simp add: unsigned_ucast_eq take_bit_nat_eq_self)
qed

section \<open>Entries\<close>

lemma emit_runs: "dec_out d = DataOut \<Longrightarrow> emit e d = (Ok (), d\<lparr>dec_log := dec_log d @ [e]\<rparr>)"
  by (simp add: emit_def call_out_def run_simps)

lemma zipmap_entry_runs:
  assumes ok: "zm_entry_ok (f, v, pad)" and d: "dec_out d = DataOut"
    and h: "wf_bufptr h" "has_bytes h (tl (zm_entry_bytes (f, v, pad)) @ ys)"
  obtains h' r q where "zipmap_entry num cnt (word_of_nat (length f)) (h, d) = (Ok (), (h', d\<lparr>dec_log := dec_log d @ [D_hash num cnt r q]\<rparr>))"
    "str_val r = Some (StrVal f)" "str_val q = Some (StrVal v)" "wf_bufptr h'" "has_bytes h' ys"
proof -
  have l: "length f < 254" "length v < 254" "length pad < 256" using ok by simp_all
  note lf = small_byte [OF l(1)] and lv = small_byte [OF l(2)]
  have pad: "unat (ucast (word_of_nat (length pad) :: u8) :: u32) = length pad"
    using l(3) by (simp add: unsigned_ucast_eq take_bit_nat_eq_self unat_of_nat)
  have sum: "unat (ucast (word_of_nat (length v) :: u8) + ucast (word_of_nat (length pad) :: u8) :: u32) = length (v @ pad)"
    using l(2,3) lv(2) pad by (simp add: unat_word_ariths)
  have has: "has_bytes h (f @ word_of_nat (length v) # word_of_nat (length pad) # (v @ pad) @ ys)" using h(2) by simp
  obtain h1 where 1: "\<And>d. hptr_incr (unat (ucast (word_of_nat (length f) :: u8) :: u32)) (h, d) = (Ok (buf h), (h1, d))" "wf_bufptr h1"
    "has_bytes h1 (word_of_nat (length v) # word_of_nat (length pad) # (v @ pad) @ ys)" "bytes_at (pmem (buf h)) (ppos (buf h)) f"
    by (rule hptr_block [OF h(1) has lf(2)]) (rule that)
  obtain h2 where 2: "\<And>(g :: u8 \<Rightarrow> (RdbBufptr \<times> RdbDecode, unit) prog) d. andThen (hptr_incr 1) (\<lambda>b. andThen (checked (rd8 (pmem b) (ppos b))) g) (h1, d) = g (word_of_nat (length v)) (h2, d)"
    "wf_bufptr h2" "has_bytes h2 (word_of_nat (length pad) # (v @ pad) @ ys)"
    by (rule hptr_byte [OF 1(2,3)]) (rule that)
  obtain h3 where 3: "\<And>(g :: u8 \<Rightarrow> (RdbBufptr \<times> RdbDecode, unit) prog) d. andThen (hptr_incr 1) (\<lambda>b. andThen (checked (rd8 (pmem b) (ppos b))) g) (h2, d) = g (word_of_nat (length pad)) (h3, d)"
    "wf_bufptr h3" "has_bytes h3 ((v @ pad) @ ys)"
    by (rule hptr_byte [OF 2(2,3)]) (rule that)
  obtain h4 where 4: "\<And>d. hptr_incr (unat (ucast (word_of_nat (length v) :: u8) + ucast (word_of_nat (length pad) :: u8) :: u32)) (h3, d)
      = (Ok (buf h3), (h4, d))" "wf_bufptr h4" "has_bytes h4 ys" "bytes_at (pmem (buf h3)) (ppos (buf h3)) (v @ pad)"
    by (rule hptr_block [OF 3(2,3) sum]) (rule that)
  define r where "r = set_str (buf h) (ucast (ucast (word_of_nat (length f) :: u8) :: u32)) RdbString_new"
  define q where "q = set_str (buf h3) (ucast (ucast (word_of_nat (length v) :: u8) :: u32)) RdbString_new"
  have w: "unat (ucast (ucast (word_of_nat n :: u8) :: u32) :: u64) = n" if "n < 254" for n
  proof -
    have "unat (ucast x :: u64) = unat x" for x :: u32
    proof -
      have "unat x < 2 ^ LENGTH(32)" by (rule unsigned_less)
      then show ?thesis by (simp add: unsigned_ucast_eq take_bit_nat_eq_self)
    qed
    then show ?thesis by (simp only: small_byte(2) [OF that])
  qed
  have "str_val r = Some (StrVal f)" "str_val q = Some (StrVal v)"
    using 1(4) 4(4) by (simp_all add: r_def q_def str_val_def set_str_def w [OF l(1)] w [OF l(2)] bytes_at_append bytes_at_rdn)
  moreover have "zipmap_entry num cnt (word_of_nat (length f)) (h, d) = (Ok (), (h4, d\<lparr>dec_log := dec_log d @ [D_hash num cnt r q]\<rparr>))"
    using emit_runs [OF d] lf(1) lv(1)
    by (simp add: zipmap_entry_def zipmap_len_def andThen_ret andThen_Ok [where m = "hptr_incr _", OF 1(1)] 2(1) 3(1) andThen_Ok [where m = "hptr_incr _", OF 4(1)] ond_def zoom_def r_def q_def
        del: One_nat_def)
  ultimately show ?thesis using that 4(2,3) by blast
qed

lemma zipmap_loop_runs:
  assumes "\<forall>e \<in> set es. zm_entry_ok e" "length es < k" "dec_out d = DataOut" "wf_bufptr h"
    "has_bytes h (concat (map zm_entry_bytes es) @ [255])"
  shows "\<exists>h' l. zipmap_loop k num cnt (h, d) = (Ok (), (h', d\<lparr>dec_log := dec_log d @ l\<rparr>))
    \<and> map ev_val l = numbered (\<lambda>n (f, v, pad). D_hash n cnt (Some (StrVal f)) (Some (StrVal v))) num es"
  using assms
proof (induction es arbitrary: k num h d)
  case Nil
  then obtain j where k: "k = Suc j" by (cases k) auto
  have has: "has_bytes h (255 # [])" using Nil.prems(5) by simp
  then have av: "avail h \<noteq> 0" by (auto simp: has_bytes_def)
  obtain h' where "\<And>(g :: u8 \<Rightarrow> (RdbBufptr \<times> RdbDecode, unit) prog) d. andThen (hptr_incr 1) (\<lambda>b. andThen (checked (rd8 (pmem b) (ppos b))) g) (h, d) = g 255 (h', d)"
    by (rule hptr_byte [OF Nil.prems(4) has]) (rule that)
  then have "zipmap_loop k num cnt (h, d) = (Ok (), (h', d))"
    using av by (simp add: k run_andThen(3) run_ret del: One_nat_def)
  then show ?case by (intro exI [of _ h'] exI [of _ "[]"]) simp
next
  case (Cons e es)
  obtain f v pad where e: "e = (f, v, pad)" by (cases e)
  obtain j where k: "k = Suc j" "length es < j" using Cons.prems(2) by (cases k) auto
  let ?ys = "concat (map zm_entry_bytes es) @ [255]"
  have has: "has_bytes h (word_of_nat (length f) # tl (zm_entry_bytes (f, v, pad)) @ ?ys)" using Cons.prems(5) by (simp add: e)
  then have av: "avail h \<noteq> 0" by (auto simp: has_bytes_def)
  have ok: "zm_entry_ok (f, v, pad)" "length f < 254" using Cons.prems(1) by (simp_all add: e)
  have c: "(word_of_nat (length f) :: u8) \<noteq> 255" using small_byte(1) [OF ok(2)] by auto
  obtain h1 where 1: "\<And>(g :: u8 \<Rightarrow> (RdbBufptr \<times> RdbDecode, unit) prog) d. andThen (hptr_incr 1) (\<lambda>b. andThen (checked (rd8 (pmem b) (ppos b))) g) (h, d) = g (word_of_nat (length f)) (h1, d)"
    "wf_bufptr h1" "has_bytes h1 (tl (zm_entry_bytes (f, v, pad)) @ ?ys)"
    by (rule hptr_byte [OF Cons.prems(4) has]) (rule that)
  obtain h2 r q where 2: "zipmap_entry num cnt (word_of_nat (length f)) (h1, d) = (Ok (), (h2, d\<lparr>dec_log := dec_log d @ [D_hash num cnt r q]\<rparr>))"
    "str_val r = Some (StrVal f)" "str_val q = Some (StrVal v)" "wf_bufptr h2" "has_bytes h2 ?ys"
    by (rule zipmap_entry_runs [OF ok(1) Cons.prems(3) 1(2,3)])
  let ?d = "d\<lparr>dec_log := dec_log d @ [D_hash num cnt r q]\<rparr>"
  obtain h' l where 3: "zipmap_loop j (Suc num) cnt (h2, ?d) = (Ok (), (h', ?d\<lparr>dec_log := dec_log ?d @ l\<rparr>))"
    "map ev_val l = numbered (\<lambda>n (f, v, pad). D_hash n cnt (Some (StrVal f)) (Some (StrVal v))) (Suc num) es"
    using Cons.IH [OF _ k(2) _ 2(4,5), of ?d "Suc num"] Cons.prems(1,3) by auto
  have "zipmap_loop k num cnt (h, d) = (Ok (), (h', d\<lparr>dec_log := dec_log d @ D_hash num cnt r q # l\<rparr>))"
    using av c 3(1) by (simp add: k(1) run_andThen(3) 1(1) andThen_Ok [where m = "zipmap_entry _ _ _", OF 2(1)] del: One_nat_def)
  then show ?case using 2(2,3) 3(2) by (intro exI [of _ h'] exI [of _ "D_hash num cnt r q # l"]) (simp add: e)
qed

section \<open>The body\<close>

lemma length_zm_entries: "length es \<le> length (concat (map zm_entry_bytes es))"
  by (induction es) auto

lemma reads_zipmap_loop:
  assumes ok: "zm_ok es" and at: "bytes_at (pmem b) (ppos b) (zm_bytes es)" and n: "n = length (zm_bytes es)"
    and C: "\<And>s. C s \<Longrightarrow> dec_out s = DataOut"
  shows "reads C (zoom (\<lambda>s. (RdbBufptr_init b n, s)) (\<lambda>t s. snd t) (andThen zipmap_count (\<lambda>cnt. zipmap_loop (Suc n) 0 cnt))) []
    (\<lambda>_. True) (numbered (\<lambda>i (f, v, pad). D_hash i (zm_num es) (Some (StrVal f)) (Some (StrVal v))) 0 es)"
proof (rule readsI)
  fix d assume d: "C d" "wf_bufptr (dec_bptr d)"
  let ?h = "RdbBufptr_init b n"
  have h: "wf_bufptr ?h" "has_bytes ?h (word_of_nat (zm_num es) # concat (map zm_entry_bytes es) @ [255])" "avail ?h \<noteq> 0"
    using at bytes_at_le [OF at] by (simp_all add: n wf_bufptr_def RdbBufptr_init_def readable_def has_bytes_def zm_bytes_def)
  obtain h1 where 1: "\<And>(g :: u8 \<Rightarrow> (RdbBufptr \<times> RdbDecode, unit) prog) d. andThen (hptr_incr 1) (\<lambda>b. andThen (checked (rd8 (pmem b) (ppos b))) g) (?h, d) = g (word_of_nat (zm_num es)) (h1, d)"
    "wf_bufptr h1" "has_bytes h1 (concat (map zm_entry_bytes es) @ [255])"
    by (rule hptr_byte [OF h(1,2)]) (rule that)
  have u: "unat (word_of_nat (zm_num es) :: u8) = zm_num es" by (simp add: zm_num_def unat_of_nat)
  have count: "andThen zipmap_count (\<lambda>cnt. zipmap_loop (Suc n) 0 cnt) (?h, d) = zipmap_loop (Suc n) 0 (zm_num es) (h1, d)"
    using h(3) by (simp add: zipmap_count_def andThen_assoc run_andThen(3) 1(1) andThen_ret u del: One_nat_def zipmap_loop.simps)
  have "length es < Suc n" using length_zm_entries [of es] by (simp add: n zm_bytes_def)
  with ok C [OF d(1)] 1(2,3) obtain h' l where 2: "zipmap_loop (Suc n) 0 (zm_num es) (h1, d) = (Ok (), (h', d\<lparr>dec_log := dec_log d @ l\<rparr>))"
    "map ev_val l = numbered (\<lambda>i (f, v, pad). D_hash i (zm_num es) (Some (StrVal f)) (Some (StrVal v))) 0 es"
    using zipmap_loop_runs [of es "Suc n" d h1 0 "zm_num es"] by (auto simp: zm_ok_def)
  then show "\<exists>x bp l. zoom (\<lambda>s. (?h, s)) (\<lambda>t s. snd t) (andThen zipmap_count (\<lambda>cnt. zipmap_loop (Suc n) 0 cnt)) d
        = (Ok x, d\<lparr>dec_bptr := bp, dec_log := dec_log d @ l\<rparr>) \<and> True \<and> advanced (length []) (dec_bptr d) bp
      \<and> map ev_val l = numbered (\<lambda>i (f, v, pad). D_hash i (zm_num es) (Some (StrVal f)) (Some (StrVal v))) 0 es"
    using advanced_0 [OF d(2)]
    by (intro exI [of _ "()"] exI [of _ "dec_bptr d"] exI [of _ l]) (simp add: zoom_def count del: zipmap_loop.simps)
qed

lemma reads_zipmap:
  assumes ok: "zm_ok es" and L: "l_len L = word_of_nat (length (zm_bytes es))"
  shows "reads (in_ctx t L kv) decode_hash_zipmap (zm_bytes es) (\<lambda>_. True) (D_start_key t kv #
    numbered (\<lambda>i (f, v, pad). D_hash i (zm_num es) (Some (StrVal f)) (Some (StrVal v))) 0 es @ [D_end_key t])"
  unfolding decode_hash_zipmap_def
proof (rule reads_andThen [OF steady_in_ctx reads_start_key reads_then_gets [OF steady_in_ctx, where x = "length (zm_bytes es)"]])
  let ?n = "length (zm_bytes es)"
  show "reads (in_ctx t L kv) (andThen (incr_or_trunc ?n) (\<lambda>b. andThen (zoom (\<lambda>s. (RdbBufptr_init b ?n, s)) (\<lambda>t s. snd t)
       (andThen zipmap_count (\<lambda>cnt. zipmap_loop (Suc ?n) 0 cnt))) (\<lambda>_. end_key))) (zm_bytes es) (\<lambda>_. True)
    (numbered (\<lambda>i (f, v, pad). D_hash i (zm_num es) (Some (StrVal f)) (Some (StrVal v))) 0 es @ [D_end_key t])"
    by (rule reads_then_quiet [OF steady_in_ctx reads_incr_at [OF refl], where ys = "[]"])
      (auto intro!: reads_andThen [OF steady_in_ctx reads_zipmap_loop [OF ok _ refl in_ctx_out] reads_end_key] simp del: zipmap_loop.simps)
next
  show "unat (l_len (dec_rlen s)) = length (zm_bytes es)" if "in_ctx t L kv s" for s
    using that ok by (simp add: in_ctx_def L zm_ok_def unat_of_nat)
qed auto

end
