(* ===== verification/Rdb_Objects.thy ===== *)
theory Rdb_Objects
  imports Rdb_Streams Rdb_Zipmaps
begin

text \<open>
  What the decoder promises: an abstract description of the objects of a file, their bytes in the
  format, and the calls an output has to receive for them (\<open>rdb_obj\<close>, \<open>obj_hdr\<close>,
  \<open>obj_data\<close>, \<open>obj_calls\<close>); \<open>decode_body\<close> makes exactly these calls.
\<close>

section \<open>Objects\<close>

datatype rdb_obj =
    ObString rdb_item
  | ObList "rdb_item list"
  | ObSet "rdb_item list"
  | ObHash "(rdb_item \<times> rdb_item) list"
  | ObZset "(rdb_item \<times> zscore) list"
  | ObZset2 "(rdb_item \<times> zscore) list"
  | ObIntset nat "u64 list"
  | ObListZip "u8 list list"
  | ObHashZip "(u8 list \<times> u8 list) list"
  | ObZsetZip "(u8 list \<times> u8 list) list"
  | ObQuicklist "u8 list list list"
  | ObHashPack "(lp_item \<times> lp_item) list"
  | ObZsetPack "(lp_item \<times> lp_item) list"
  | ObQuicklist2 "lp_item list list"
  | ObModule u64 "u8 list"
  | ObZipmap "zm_entry list"
  | ObStream stream_obj

fun obj_type :: "rdb_obj \<Rightarrow> RdbType" where
  "obj_type (ObString _) = RDB_STRING"
| "obj_type (ObList _) = RDB_LIST"
| "obj_type (ObSet _) = RDB_SET"
| "obj_type (ObHash _) = RDB_HASH"
| "obj_type (ObZset _) = RDB_ZSET"
| "obj_type (ObZset2 _) = RDB_ZSET_2"
| "obj_type (ObIntset _ _) = RDB_SET_INTSET"
| "obj_type (ObListZip _) = RDB_LIST_ZIPLIST"
| "obj_type (ObHashZip _) = RDB_HASH_ZIPLIST"
| "obj_type (ObZsetZip _) = RDB_ZSET_ZIPLIST"
| "obj_type (ObQuicklist _) = RDB_LIST_QUICKLIST"
| "obj_type (ObHashPack _) = RDB_HASH_LISTPACK"
| "obj_type (ObZsetPack _) = RDB_ZSET_LISTPACK"
| "obj_type (ObQuicklist2 _) = RDB_LIST_QUICKLIST_2"
| "obj_type (ObModule _ _) = RDB_MODULE_2"
| "obj_type (ObZipmap es) = RDB_HASH_ZIPMAP"
| "obj_type (ObStream st) = stream_type st"

text \<open>
  An object that is stored as one string: an item, or a packed block. \<open>K\<close> tells which strings the
  writer compresses; the header of such an object is that of an item.
\<close>

fun obj_item :: "rdb_obj \<Rightarrow> rdb_item option" where
  "obj_item (ObString i) = Some i"
| "obj_item (ObIntset nb xs) = Some (ItStr (intset_bytes nb xs))"
| "obj_item (ObListZip ds) = Some (ItStr (zip_bytes ds))"
| "obj_item (ObHashZip ps) = Some (ItStr (zip_bytes (unpair ps)))"
| "obj_item (ObZsetZip ps) = Some (ItStr (zip_bytes (unpair ps)))"
| "obj_item (ObHashPack ps) = Some (ItStr (lp_bytes (unpair ps)))"
| "obj_item (ObZsetPack ps) = Some (ItStr (lp_bytes (unpair ps)))"
| "obj_item (ObZipmap es) = Some (ItStr (zm_bytes es))"
| "obj_item _ = None"

text \<open>
  The others have the number of their elements in the header. The members of the older sorted sets are
  not compressed: the decoder cannot read a score behind a compressed member.
\<close>

fun obj_num :: "rdb_obj \<Rightarrow> u64" where
  "obj_num (ObList xs) = word_of_nat (length xs)"
| "obj_num (ObSet xs) = word_of_nat (length xs)"
| "obj_num (ObHash xs) = word_of_nat (length xs)"
| "obj_num (ObZset xs) = word_of_nat (length xs)"
| "obj_num (ObZset2 xs) = word_of_nat (length xs)"
| "obj_num (ObQuicklist dss) = word_of_nat (length dss)"
| "obj_num (ObQuicklist2 iss) = word_of_nat (length iss)"
| "obj_num (ObModule m bs) = m"
| "obj_num (ObStream st) = word_of_nat (length (st_nodes st))"
| "obj_num _ = 0"

fun obj_loose :: "packer \<Rightarrow> rdb_obj \<Rightarrow> u8 list" where
  "obj_loose K (ObList xs) = concat (map (item_code K) xs)"
| "obj_loose K (ObSet xs) = concat (map (item_code K) xs)"
| "obj_loose K (ObHash xs) = concat (map (\<lambda>(a, b). item_code K a @ item_code K b) xs)"
| "obj_loose K (ObZset xs) = concat (map (\<lambda>(a, x). item_bytes a @ score_bytes x) xs)"
| "obj_loose K (ObZset2 xs) = concat (map (\<lambda>(a, x). item_bytes a @ score_bytes x) xs)"
| "obj_loose K (ObQuicklist dss) = concat (map (\<lambda>ds. item_code K (ItStr (zip_bytes ds))) dss)"
| "obj_loose K (ObQuicklist2 iss) = concat (map (\<lambda>is. hdr_bytes 2 @ item_code K (ItStr (lp_bytes is))) iss)"
| "obj_loose K (ObModule m bs) = bs @ [0]"
| "obj_loose K (ObStream st) = stream_bytes K st"
| "obj_loose K _ = []"

definition obj_hdr :: "packer \<Rightarrow> rdb_obj \<Rightarrow> u8 list" where
  "obj_hdr K ob = (case obj_item ob of Some i \<Rightarrow> item_head K i | None \<Rightarrow> hdr_bytes (obj_num ob))"

definition obj_len :: "packer \<Rightarrow> rdb_obj \<Rightarrow> RdbLength" where
  "obj_len K ob = (case obj_item ob of Some i \<Rightarrow> item_head_len K i | None \<Rightarrow> RdbLength_zero\<lparr>l_len := obj_num ob\<rparr>)"

definition obj_data :: "packer \<Rightarrow> rdb_obj \<Rightarrow> u8 list" where
  "obj_data K ob = (case obj_item ob of Some i \<Rightarrow> item_tail K i | None \<Rightarrow> obj_loose K ob)"

text \<open>
  What the decoder can represent: sizes that fit their fields, values that fit their encoding, and
  for listpacks the items that both sides code alike, for streams the entries that fit into the local
  array.
\<close>

fun obj_ok :: "rdb_obj \<Rightarrow> bool" where
  "obj_ok (ObString i) \<longleftrightarrow> item_ok i"
| "obj_ok (ObList xs) \<longleftrightarrow> length xs < 2 ^ 64 \<and> (\<forall>a \<in> set xs. item_ok a)"
| "obj_ok (ObSet xs) \<longleftrightarrow> length xs < 2 ^ 64 \<and> (\<forall>a \<in> set xs. item_ok a)"
| "obj_ok (ObHash xs) \<longleftrightarrow> length xs < 2 ^ 64 \<and> (\<forall>(a, b) \<in> set xs. item_ok a \<and> item_ok b)"
| "obj_ok (ObZset xs) \<longleftrightarrow> length xs < 2 ^ 64 \<and> (\<forall>(a, x) \<in> set xs. item_ok a \<and> score_ok RDB_ZSET x)"
| "obj_ok (ObZset2 xs) \<longleftrightarrow> length xs < 2 ^ 64 \<and> (\<forall>(a, x) \<in> set xs. item_ok a \<and> score_ok RDB_ZSET_2 x)"
| "obj_ok (ObIntset nb xs) \<longleftrightarrow> intset_ok nb xs"
| "obj_ok (ObListZip ds) \<longleftrightarrow> zip_ok ds"
| "obj_ok (ObHashZip ps) \<longleftrightarrow> zip_ok (unpair ps)"
| "obj_ok (ObZsetZip ps) \<longleftrightarrow> zip_ok (unpair ps)"
| "obj_ok (ObQuicklist dss) \<longleftrightarrow> length dss < 2 ^ 64 \<and> (\<forall>ds \<in> set dss. zip_ok ds)"
| "obj_ok (ObHashPack ps) \<longleftrightarrow> lp_ok (unpair ps)"
| "obj_ok (ObZsetPack ps) \<longleftrightarrow> lp_ok (unpair ps)"
| "obj_ok (ObQuicklist2 iss) \<longleftrightarrow> length iss < 2 ^ 64 \<and> (\<forall>is \<in> set iss. lp_ok is)"
| "obj_ok (ObModule m bs) \<longleftrightarrow> 0 \<notin> set bs"
| "obj_ok (ObZipmap es) \<longleftrightarrow> zm_ok es"
| "obj_ok (ObStream st) \<longleftrightarrow> stream_ok st"

text \<open>
  The calls between \<open>d_start_key\<close> and \<open>d_end_key\<close>. The elements of a quicklist are numbered
  such that each list starts with the number of the last element of the list before.
\<close>

fun quick_calls :: "nat \<Rightarrow> rdb_val list list \<Rightarrow> rdb_val option RdbEvent list" where
  "quick_calls num [] = []"
| "quick_calls num (vs # vss) = numbered (\<lambda>n v. D_list n 0 (Some v)) num vs @ quick_calls (num + (length vs - 1)) vss"

definition zip_num :: "'a list \<Rightarrow> nat" where
  "zip_num xs = min (length xs) 0xffff"

fun obj_calls :: "rdb_obj \<Rightarrow> rdb_val option RdbEvent list" where
  "obj_calls (ObString i) = [D_string (Some (item_val i))]"
| "obj_calls (ObList xs) = numbered (\<lambda>n a. D_list n (length xs) (Some (item_val a))) 0 xs"
| "obj_calls (ObSet xs) = numbered (\<lambda>n a. D_set n (length xs) (Some (item_val a))) 0 xs"
| "obj_calls (ObHash xs) = numbered (\<lambda>n (a, b). D_hash n (length xs) (Some (item_val a)) (Some (item_val b))) 0 xs"
| "obj_calls (ObZset xs) = numbered (\<lambda>n (a, x). D_zset n (length xs) (Some (item_val a)) (Some (score_val x))) 0 xs"
| "obj_calls (ObZset2 xs) = numbered (\<lambda>n (a, x). D_zset n (length xs) (Some (item_val a)) (Some (score_val x))) 0 xs"
| "obj_calls (ObIntset nb xs) = numbered (\<lambda>n x. D_set n (length xs) (Some (IntVal x))) 0 xs"
| "obj_calls (ObListZip ds) = numbered (\<lambda>n d. D_list n (zip_num ds) (Some (StrVal d))) 0 ds"
| "obj_calls (ObHashZip ps) = numbered (\<lambda>n (a, b). D_hash n (zip_num (unpair ps) div 2) (Some (StrVal a)) (Some (StrVal b))) 0 ps"
| "obj_calls (ObZsetZip ps) = numbered (\<lambda>n (a, b). D_zset n (zip_num (unpair ps) div 2) (Some (StrVal a)) (Some (StrVal b))) 0 ps"
| "obj_calls (ObQuicklist dss) = quick_calls 0 (map (map StrVal) dss)"
| "obj_calls (ObHashPack ps) = numbered (\<lambda>n (a, b). D_hash n 0 (Some (lp_item_val a)) (Some (lp_item_val b))) 0 ps"
| "obj_calls (ObZsetPack ps) = numbered (\<lambda>n (a, b). D_zset n 0 (Some (lp_item_val a)) (Some (lp_item_val b))) 0 ps"
| "obj_calls (ObQuicklist2 iss) = quick_calls 0 (map (map lp_item_val) iss)"
| "obj_calls (ObModule m bs) = [D_module (str_val (module_str m))]"
| "obj_calls (ObZipmap es) = numbered (\<lambda>n (f, v, pad). D_hash n (zm_num es) (Some (StrVal f)) (Some (StrVal v))) 0 es"
| "obj_calls (ObStream st) = stream_calls st"

section \<open>Bodies\<close>

abbreviation obj_ctx :: "packer \<Rightarrow> rdb_obj \<Rightarrow> rdb_val option \<Rightarrow> RdbDecode \<Rightarrow> bool" where
  "obj_ctx K ob kv \<equiv> in_ctx (obj_type ob) (obj_len K ob) kv"

definition body_calls :: "rdb_obj \<Rightarrow> rdb_val option \<Rightarrow> rdb_val option RdbEvent list" where
  "body_calls ob kv = D_start_key (obj_type ob) kv # obj_calls ob @ [D_end_key (obj_type ob)]"

text \<open>A body that counts, announces the key, loops and ends.\<close>

lemma flows_end_key: "p \<Longrightarrow> q \<Longrightarrow> flows p q (in_ctx t L kv) end_key [] (\<lambda>_. True) [D_end_key t]"
  by (rule flows_quiet [OF reads_end_key])

lemma flows_start_key: "flows p p (in_ctx t L kv) start_key [] (\<lambda>_. True) [D_start_key t kv]"
  by (rule flows_quiet [OF reads_start_key])

lemma flows_gets:
  assumes "\<And>s. C s \<Longrightarrow> f s = x" "flows p q C (g x) xs A es"
  shows "flows p q C (andThen (gets f) g) xs A es"
  using assms by (simp add: flows_def run_andThen(3))

lemma flows_looped:
  assumes "flows p True (in_ctx t L kv) m xs (\<lambda>_. True) es"
  shows "flows p True (in_ctx t L kv) (andThen m (\<lambda>_. end_key)) xs (\<lambda>_. True) (es @ [D_end_key t])"
  by (rule flows_andThen [OF steady_in_ctx assms flows_end_key]) simp_all

lemma flows_counted:
  assumes "\<And>cnt. cnt = unat (l_len L) \<Longrightarrow> flows p True (in_ctx t L kv) (loop cnt) xs (\<lambda>_. True) es"
  shows "flows p True (in_ctx t L kv) (andThen (gets (\<lambda>s. unat (l_len (dec_rlen s)))) (\<lambda>cnt.
     andThen start_key (\<lambda>_. andThen (loop cnt) (\<lambda>_. end_key)))) xs (\<lambda>_. True) (D_start_key t kv # es @ [D_end_key t])"
proof (rule flows_gets [where x = "unat (l_len L)"])
  show "flows p True (in_ctx t L kv) (andThen start_key (\<lambda>_. andThen (loop (unat (l_len L))) (\<lambda>_. end_key))) xs (\<lambda>_. True)
      (D_start_key t kv # es @ [D_end_key t])"
    by (rule flows_andThen [OF steady_in_ctx flows_start_key flows_looped [OF assms]]) simp_all
qed (simp add: in_ctx_def)

lemma flows_keyed:
  assumes "\<And>cnt. cnt = unat (l_len L) \<Longrightarrow> flows p True (in_ctx t L kv) (loop cnt) xs (\<lambda>_. True) es"
  shows "flows p True (in_ctx t L kv) (andThen start_key (\<lambda>_. andThen (gets (\<lambda>s. unat (l_len (dec_rlen s)))) (\<lambda>cnt.
     andThen (loop cnt) (\<lambda>_. end_key)))) xs (\<lambda>_. True) (D_start_key t kv # es @ [D_end_key t])"
proof (rule flows_andThen [OF steady_in_ctx flows_start_key])
  show "flows p True (in_ctx t L kv) (andThen (gets (\<lambda>s. unat (l_len (dec_rlen s)))) (\<lambda>cnt.
     andThen (loop cnt) (\<lambda>_. end_key))) xs (\<lambda>_. True) (es @ [D_end_key t])"
    by (rule flows_gets [where x = "unat (l_len L)"]) (simp_all add: in_ctx_def flows_looped assms)
qed simp_all

lemma len_hdr_bytes: "len_hdr (hdr_bytes x) (RdbLength_zero\<lparr>l_len := x\<rparr>)"
  using length_hdr_bytes_le [of x] by (simp add: len_hdr_def decode_hdr_bytes MAX_RDB_HDRLEN_def)

lemma quicklist_runs:
  assumes C: "steady C" "\<And>s. C s \<Longrightarrow> dec_out s = DataOut" and K: "compresses E K" and "\<forall>ds \<in> set dss. zip_ok ds"
  shows "flows True True C (quicklist_loop (length dss) num E) (concat (map (\<lambda>ds. item_code K (ItStr (zip_bytes ds))) dss)) (\<lambda>_. True)
    (quick_calls num (map (map StrVal) dss))"
  using assms(4)
proof (induction dss arbitrary: num)
  case Nil
  then show ?case by (simp add: flows_ret)
next
  case (Cons ds dss)
  let ?f = "\<lambda>n b. andThen (checked (zip_init (pmem b) (ppos b) n RdbZipList_new))
      (\<lambda>(ok, z). if \<not> ok then throw RDB_ERR_TRUNC
        else andThen (zip_elems z b (\<lambda>num. D_list num 0) num) (\<lambda>num. quicklist_loop (length dss) num E))"
  let ?ys = "concat (map (\<lambda>ds. item_code K (ItStr (zip_bytes ds))) dss)"
  let ?es = "quick_calls num (map (map StrVal) (ds # dss))"
  have ok: "zip_ok ds" using Cons.prems by simp
  have f: "flows True True C (?f (word_of_nat (length (zip_bytes ds))) b) ?ys (\<lambda>_. True) ?es"
    if at: "bytes_at (pmem b) (ppos b) (zip_bytes ds)" for b
  proof -
    obtain z where z: "zip_init (pmem b) (ppos b) (word_of_nat (length (zip_bytes ds))) RdbZipList_new = Some (True, z)"
      "zip_first (pmem b) z RdbListValue_new = zip_next (pmem b) z (RdbListValue_new\<lparr>lv_entry := zl_data z, lv_entry_len := 0\<rparr>)"
      "yields (zip_next (pmem b) z) b (RdbListValue_new\<lparr>lv_entry := zl_data z, lv_entry_len := 0\<rparr>) (Suc (zl_end z)) (map StrVal ds)"
      using zip_yields [OF at ok] by blast
    have "reads C (zip_elems z b (\<lambda>num. D_list num 0) num) [] (\<lambda>r. r = num + (length (map StrVal ds) - 1))
        (numbered (\<lambda>n v. D_list n 0 (Some v)) num (map StrVal ds))"
      unfolding zip_elems_def by (rule each_elem_yields [OF C z(2,3), where g = "\<lambda>n. D_list n 0"]) simp_all
    then show ?thesis
      using Cons.IH Cons.prems by (auto simp: z(1) andThen_checked intro: flows_andThen [OF C(1) flows_quiet])
  qed
  have "flows True True C (andThen (onb (decode RdbLength_zero)) (\<lambda>L. andThen (onb (consume E L)) (?f (l_len L))))
      (item_code K (ItStr (zip_bytes ds)) @ ?ys) (\<lambda>_. True) ?es"
    by (rule flows_block [where f = ?f, OF C(1) K _ f]) (use ok in \<open>simp_all add: length_zip_bytes zip_ok_def\<close>)
  then show ?case by simp
qed

lemma quicklist_2_runs:
  assumes C: "steady C" "\<And>s. C s \<Longrightarrow> dec_out s = DataOut" and K: "compresses E K" and "\<forall>is \<in> set iss. lp_ok is"
  shows "flows True True C (quicklist_2_loop (length iss) num E)
    (concat (map (\<lambda>is. hdr_bytes 2 @ item_code K (ItStr (lp_bytes is))) iss)) (\<lambda>_. True) (quick_calls num (map (map lp_item_val) iss))"
  using assms(4)
proof (induction iss arbitrary: num)
  case Nil
  then show ?case by (simp add: flows_ret)
next
  case (Cons "is" iss)
  let ?f = "\<lambda>n b. andThen (checked (lp_init (pmem b) (ppos b) n RdbListPack_new))
      (\<lambda>(ok, z). if \<not> ok then throw RDB_ERR_TRUNC
        else andThen (lp_elems z b (\<lambda>num. D_list num 0) num) (\<lambda>num. quicklist_2_loop (length iss) num E))"
  let ?ys = "concat (map (\<lambda>is. hdr_bytes 2 @ item_code K (ItStr (lp_bytes is))) iss)"
  let ?es = "quick_calls num (map (map lp_item_val) (is # iss))"
  have ok: "lp_ok is" using Cons.prems by simp
  have f: "flows True True C (?f (word_of_nat (length (lp_bytes is))) b) ?ys (\<lambda>_. True) ?es"
    if at: "bytes_at (pmem b) (ppos b) (lp_bytes is)" for b
  proof -
    obtain z where z: "lp_init (pmem b) (ppos b) (word_of_nat (length (lp_bytes is))) RdbListPack_new = Some (True, z)"
      "lp_first (pmem b) z RdbListValue_new = lp_next (pmem b) z (RdbListValue_new\<lparr>lv_entry := lp_data z, lv_entry_len := 0\<rparr>)"
      "yields (lp_next (pmem b) z) b (RdbListValue_new\<lparr>lv_entry := lp_data z, lv_entry_len := 0\<rparr>) (Suc (lp_end z)) (map lp_item_val is)"
      using lp_yields [OF at ok] by blast
    have "reads C (lp_elems z b (\<lambda>num. D_list num 0) num) [] (\<lambda>r. r = num + (length (map lp_item_val is) - 1))
        (numbered (\<lambda>n v. D_list n 0 (Some v)) num (map lp_item_val is))"
      unfolding lp_elems_def by (rule each_elem_yields [OF C z(2,3), where g = "\<lambda>n. D_list n 0"]) simp_all
    then show ?thesis
      using Cons.IH Cons.prems by (auto simp: z(1) andThen_checked intro: flows_andThen [OF C(1) flows_quiet])
  qed
  have blk: "flows True True C (andThen (onb (decode RdbLength_zero)) (\<lambda>L. andThen (onb (consume E L)) (?f (l_len L))))
      (item_code K (ItStr (lp_bytes is)) @ ?ys) (\<lambda>_. True) ?es"
    by (rule flows_block [where f = ?f, OF C(1) K _ f]) (use ok in \<open>simp_all add: length_lp_bytes lp_ok_def\<close>)
  show ?case
    unfolding list.size add_Suc_right add_0_right quicklist_2_loop.simps
    by (rule flows_andThen [OF C(1) flows_len [OF len_hdr_bytes [of 2] C(1), where q = True]]) (use blk in auto)
qed


lemma length_pos_bytes: "0 < length (zip_bytes ds)" "0 < length (lp_bytes its)"
  by (simp_all add: length_zip_bytes length_lp_bytes)

text \<open>A packed list behind its length: key, bytes, opening, traversal, end.\<close>

lemma reads_packed:
  assumes n: "l_len L = word_of_nat (length xs)" "length xs < 2 ^ 64"
    and open_list: "\<And>b. bytes_at (pmem b) (ppos b) xs \<Longrightarrow> \<exists>z. opn b (l_len L) = Some (True, z)
      \<and> reads (in_ctx t L kv) (body b z t) [] (\<lambda>_. True) es"
  shows "reads (in_ctx t L kv) (andThen start_key (\<lambda>_. andThen (gets (\<lambda>s. l_len (dec_rlen s))) (\<lambda>n.
     andThen (incr_or_trunc (unat n)) (\<lambda>b. andThen (checked (opn b n)) (\<lambda>(ok, z).
     if \<not> ok then throw RDB_ERR_TRUNC
     else andThen (gets dec_type) (\<lambda>t. andThen (body b z t) (\<lambda>_. end_key))))))) xs (\<lambda>_. True) (D_start_key t kv # es @ [D_end_key t])"
proof (rule reads_andThen [OF steady_in_ctx reads_start_key reads_then_gets [OF steady_in_ctx, where x = "l_len L"]])
  let ?C = "in_ctx t L kv"
  have u: "unat (l_len L) = length xs" using n by (simp add: unat_of_nat)
  show "reads ?C (andThen (incr_or_trunc (unat (l_len L))) (\<lambda>b. andThen (checked (opn b (l_len L))) (\<lambda>(ok, z).
     if \<not> ok then throw RDB_ERR_TRUNC
     else andThen (gets dec_type) (\<lambda>t. andThen (body b z t) (\<lambda>_. end_key))))) xs (\<lambda>_. True) (es @ [D_end_key t])"
  proof (rule reads_then_quiet [OF steady_in_ctx reads_incr_at [OF u]])
    fix b assume "bytes_at (pmem b) (ppos b) xs"
    then obtain z where z: "opn b (l_len L) = Some (True, z)" "reads ?C (body b z t) [] (\<lambda>_. True) es"
      using open_list by blast
    have "reads ?C (andThen (gets dec_type) (\<lambda>t. andThen (body b z t) (\<lambda>_. end_key))) [] (\<lambda>_. True) (es @ [D_end_key t])"
      by (rule reads_then_gets [OF steady_in_ctx, where x = t])
        (use reads_andThen [OF steady_in_ctx z(2) reads_end_key] in \<open>auto simp: in_ctx_def\<close>)
    then show "reads ?C (andThen (checked (opn b (l_len L))) (\<lambda>(ok, z). if \<not> ok then throw RDB_ERR_TRUNC
     else andThen (gets dec_type) (\<lambda>t. andThen (body b z t) (\<lambda>_. end_key)))) [] (\<lambda>_. True) (es @ [D_end_key t])"
      by (simp add: z(1) andThen_checked)
  qed simp
qed (auto simp: in_ctx_def)

lemma reads_zip_pairs:
  assumes "bytes_at (pmem b) (ppos b) (zip_bytes ds)" "zip_ok ds" "\<And>c n r q. ev_val (ev c n r q) = g c n (str_val r) (str_val q)"
  obtains z where "zip_init (pmem b) (ppos b) (word_of_nat (length (zip_bytes ds))) RdbZipList_new = Some (True, z)"
    "reads (in_ctx t L kv) (zip_pairs z b (ev (unat (zllen z) div 2))) [] (\<lambda>_. True)
      (numbered (\<lambda>n (u, v). g (zip_num ds div 2) n (Some (StrVal u)) (Some (StrVal v))) 0 (pairs ds))"
proof -
  obtain z where z: "zip_init (pmem b) (ppos b) (word_of_nat (length (zip_bytes ds))) RdbZipList_new = Some (True, z)"
    "unat (zllen z) = min (length ds) 0xffff"
    "zip_first (pmem b) z RdbListValue_new = zip_next (pmem b) z (RdbListValue_new\<lparr>lv_entry := zl_data z, lv_entry_len := 0\<rparr>)"
    "yields (zip_next (pmem b) z) b (RdbListValue_new\<lparr>lv_entry := zl_data z, lv_entry_len := 0\<rparr>) (Suc (zl_end z)) (map StrVal ds)"
    using zip_yields [OF assms(1,2)] by blast
  have "reads (in_ctx t L kv) (zip_pairs z b (ev (unat (zllen z) div 2))) [] (\<lambda>_. True)
      (numbered (\<lambda>n (u, v). g (unat (zllen z) div 2) n (Some u) (Some v)) 0 (pairs (map StrVal ds)))"
    unfolding zip_pairs_def
    by (rule each_pair_yields [OF steady_in_ctx in_ctx_out z(3,4), where g = "g (unat (zllen z) div 2)"]) (simp_all add: assms(3))
  then show ?thesis
    using that [OF z(1)] z(2) by (simp add: pairs_map numbered_map split_def zip_num_def)
qed

lemma reads_hash_zip:
  assumes ok: "zip_ok (unpair ps)" and L: "l_len L = word_of_nat (length (zip_bytes (unpair ps)))"
  shows "reads (in_ctx RDB_HASH_ZIPLIST L kv) decode_ziplist (zip_bytes (unpair ps)) (\<lambda>_. True) (D_start_key RDB_HASH_ZIPLIST kv #
    numbered (\<lambda>n (a, b). D_hash n (zip_num (unpair ps) div 2) (Some (StrVal a)) (Some (StrVal b))) 0 ps @ [D_end_key RDB_HASH_ZIPLIST])"
  unfolding decode_ziplist_def
proof (rule reads_packed [OF L])
  fix b assume at: "bytes_at (pmem b) (ppos b) (zip_bytes (unpair ps))"
  from reads_zip_pairs [OF at ok, where ev = "\<lambda>c n. D_hash n c" and g = "\<lambda>c n. D_hash n c" and t = RDB_HASH_ZIPLIST and L = L and kv = kv]
  show "\<exists>z. zip_init (pmem b) (ppos b) (l_len L) RdbZipList_new = Some (True, z) \<and>
    reads (in_ctx RDB_HASH_ZIPLIST L kv) (case RDB_HASH_ZIPLIST of
         RDB_ZSET_ZIPLIST \<Rightarrow> zip_pairs z b (\<lambda>num. D_zset num (unat (zllen z) div 2))
       | RDB_LIST_ZIPLIST \<Rightarrow> andThen (zip_elems z b (\<lambda>num. D_list num (unat (zllen z))) 0) (\<lambda>_. ret ())
       | _ \<Rightarrow> zip_pairs z b (\<lambda>num. D_hash num (unat (zllen z) div 2))) [] (\<lambda>_. True)
      (numbered (\<lambda>n (a, b). D_hash n (zip_num (unpair ps) div 2) (Some (StrVal a)) (Some (StrVal b))) 0 ps)"
    by (auto simp: L pairs_unpair)
qed (use ok in \<open>simp add: length_zip_bytes zip_ok_def\<close>)

lemma reads_zset_zip:
  assumes ok: "zip_ok (unpair ps)" and L: "l_len L = word_of_nat (length (zip_bytes (unpair ps)))"
  shows "reads (in_ctx RDB_ZSET_ZIPLIST L kv) decode_ziplist (zip_bytes (unpair ps)) (\<lambda>_. True) (D_start_key RDB_ZSET_ZIPLIST kv #
    numbered (\<lambda>n (a, b). D_zset n (zip_num (unpair ps) div 2) (Some (StrVal a)) (Some (StrVal b))) 0 ps @ [D_end_key RDB_ZSET_ZIPLIST])"
  unfolding decode_ziplist_def
proof (rule reads_packed [OF L])
  fix b assume at: "bytes_at (pmem b) (ppos b) (zip_bytes (unpair ps))"
  from reads_zip_pairs [OF at ok, where ev = "\<lambda>c n. D_zset n c" and g = "\<lambda>c n. D_zset n c" and t = RDB_ZSET_ZIPLIST and L = L and kv = kv]
  show "\<exists>z. zip_init (pmem b) (ppos b) (l_len L) RdbZipList_new = Some (True, z) \<and>
    reads (in_ctx RDB_ZSET_ZIPLIST L kv) (case RDB_ZSET_ZIPLIST of
         RDB_ZSET_ZIPLIST \<Rightarrow> zip_pairs z b (\<lambda>num. D_zset num (unat (zllen z) div 2))
       | RDB_LIST_ZIPLIST \<Rightarrow> andThen (zip_elems z b (\<lambda>num. D_list num (unat (zllen z))) 0) (\<lambda>_. ret ())
       | _ \<Rightarrow> zip_pairs z b (\<lambda>num. D_hash num (unat (zllen z) div 2))) [] (\<lambda>_. True)
      (numbered (\<lambda>n (a, b). D_zset n (zip_num (unpair ps) div 2) (Some (StrVal a)) (Some (StrVal b))) 0 ps)"
    by (auto simp: L pairs_unpair)
qed (use ok in \<open>simp add: length_zip_bytes zip_ok_def\<close>)

lemma reads_list_zip:
  assumes ok: "zip_ok ds" and L: "l_len L = word_of_nat (length (zip_bytes ds))"
  shows "reads (in_ctx RDB_LIST_ZIPLIST L kv) decode_ziplist (zip_bytes ds) (\<lambda>_. True) (D_start_key RDB_LIST_ZIPLIST kv #
    numbered (\<lambda>n d. D_list n (zip_num ds) (Some (StrVal d))) 0 ds @ [D_end_key RDB_LIST_ZIPLIST])"
  unfolding decode_ziplist_def
proof (rule reads_packed [OF L])
  let ?C = "in_ctx RDB_LIST_ZIPLIST L kv"
  fix b assume at: "bytes_at (pmem b) (ppos b) (zip_bytes ds)"
  obtain z where z: "zip_init (pmem b) (ppos b) (word_of_nat (length (zip_bytes ds))) RdbZipList_new = Some (True, z)"
    "unat (zllen z) = min (length ds) 0xffff"
    "zip_first (pmem b) z RdbListValue_new = zip_next (pmem b) z (RdbListValue_new\<lparr>lv_entry := zl_data z, lv_entry_len := 0\<rparr>)"
    "yields (zip_next (pmem b) z) b (RdbListValue_new\<lparr>lv_entry := zl_data z, lv_entry_len := 0\<rparr>) (Suc (zl_end z)) (map StrVal ds)"
    using zip_yields [OF at ok] by blast
  have "reads ?C (zip_elems z b (\<lambda>num. D_list num (unat (zllen z))) 0) [] (\<lambda>r. r = 0 + (length (map StrVal ds) - 1))
      (numbered (\<lambda>n v. D_list n (unat (zllen z)) (Some v)) 0 (map StrVal ds))"
    unfolding zip_elems_def
    by (rule each_elem_yields [OF steady_in_ctx in_ctx_out z(3,4), where g = "\<lambda>n. D_list n (unat (zllen z))"]) simp_all
  from reads_andThen [OF steady_in_ctx this reads_ret [where x = "()" and A = "\<lambda>_. True"]]
  show "\<exists>z. zip_init (pmem b) (ppos b) (l_len L) RdbZipList_new = Some (True, z) \<and>
    reads ?C (case RDB_LIST_ZIPLIST of
         RDB_ZSET_ZIPLIST \<Rightarrow> zip_pairs z b (\<lambda>num. D_zset num (unat (zllen z) div 2))
       | RDB_LIST_ZIPLIST \<Rightarrow> andThen (zip_elems z b (\<lambda>num. D_list num (unat (zllen z))) 0) (\<lambda>_. ret ())
       | _ \<Rightarrow> zip_pairs z b (\<lambda>num. D_hash num (unat (zllen z) div 2))) [] (\<lambda>_. True)
      (numbered (\<lambda>n d. D_list n (zip_num ds) (Some (StrVal d))) 0 ds)"
    using z(1,2) by (simp add: L numbered_map zip_num_def)
qed (use ok in \<open>simp add: length_zip_bytes zip_ok_def\<close>)

lemma reads_lp_pairs:
  assumes "bytes_at (pmem b) (ppos b) (lp_bytes (unpair ps))" "lp_ok (unpair ps)" "\<And>n r q. ev_val (ev n r q) = g n (str_val r) (str_val q)"
  obtains z where "lp_init (pmem b) (ppos b) (word_of_nat (length (lp_bytes (unpair ps)))) RdbListPack_new = Some (True, z)"
    "reads (in_ctx t L kv) (lp_pairs z b ev) [] (\<lambda>_. True)
      (numbered (\<lambda>n (u, v). g n (Some (lp_item_val u)) (Some (lp_item_val v))) 0 ps)"
proof -
  obtain z where z: "lp_init (pmem b) (ppos b) (word_of_nat (length (lp_bytes (unpair ps)))) RdbListPack_new = Some (True, z)"
    "lp_first (pmem b) z RdbListValue_new = lp_next (pmem b) z (RdbListValue_new\<lparr>lv_entry := lp_data z, lv_entry_len := 0\<rparr>)"
    "yields (lp_next (pmem b) z) b (RdbListValue_new\<lparr>lv_entry := lp_data z, lv_entry_len := 0\<rparr>) (Suc (lp_end z)) (map lp_item_val (unpair ps))"
    using lp_yields [OF assms(1,2)] by blast
  have "reads (in_ctx t L kv) (lp_pairs z b ev) [] (\<lambda>_. True)
      (numbered (\<lambda>n (u, v). g n (Some u) (Some v)) 0 (pairs (map lp_item_val (unpair ps))))"
    unfolding lp_pairs_def by (rule each_pair_yields [OF steady_in_ctx in_ctx_out z(2,3), where g = g]) (simp_all add: assms(3))
  then show ?thesis
    using that [OF z(1)] by (simp add: pairs_map numbered_map split_def pairs_unpair)
qed

lemma reads_hash_lp:
  assumes ok: "lp_ok (unpair ps)" and L: "l_len L = word_of_nat (length (lp_bytes (unpair ps)))"
  shows "reads (in_ctx RDB_HASH_LISTPACK L kv) decode_listpack (lp_bytes (unpair ps)) (\<lambda>_. True) (D_start_key RDB_HASH_LISTPACK kv #
    numbered (\<lambda>n (a, b). D_hash n 0 (Some (lp_item_val a)) (Some (lp_item_val b))) 0 ps @ [D_end_key RDB_HASH_LISTPACK])"
  unfolding decode_listpack_def
proof (rule reads_packed [OF L])
  fix b assume at: "bytes_at (pmem b) (ppos b) (lp_bytes (unpair ps))"
  from reads_lp_pairs [OF at ok, where ev = "\<lambda>n. D_hash n 0" and g = "\<lambda>n. D_hash n 0" and t = RDB_HASH_LISTPACK and L = L and kv = kv]
  show "\<exists>z. lp_init (pmem b) (ppos b) (l_len L) RdbListPack_new = Some (True, z) \<and>
    reads (in_ctx RDB_HASH_LISTPACK L kv) (case RDB_HASH_LISTPACK of
         RDB_HASH_LISTPACK \<Rightarrow> lp_pairs z b (\<lambda>num. D_hash num 0)
       | RDB_ZSET_LISTPACK \<Rightarrow> lp_pairs z b (\<lambda>num. D_zset num 0)
       | _ \<Rightarrow> throw RDB_ERR_NOTSUP) [] (\<lambda>_. True)
      (numbered (\<lambda>n (a, b). D_hash n 0 (Some (lp_item_val a)) (Some (lp_item_val b))) 0 ps)"
    by (auto simp: L)
qed (use ok in \<open>simp add: length_lp_bytes lp_ok_def\<close>)

lemma reads_zset_lp:
  assumes ok: "lp_ok (unpair ps)" and L: "l_len L = word_of_nat (length (lp_bytes (unpair ps)))"
  shows "reads (in_ctx RDB_ZSET_LISTPACK L kv) decode_listpack (lp_bytes (unpair ps)) (\<lambda>_. True) (D_start_key RDB_ZSET_LISTPACK kv #
    numbered (\<lambda>n (a, b). D_zset n 0 (Some (lp_item_val a)) (Some (lp_item_val b))) 0 ps @ [D_end_key RDB_ZSET_LISTPACK])"
  unfolding decode_listpack_def
proof (rule reads_packed [OF L])
  fix b assume at: "bytes_at (pmem b) (ppos b) (lp_bytes (unpair ps))"
  from reads_lp_pairs [OF at ok, where ev = "\<lambda>n. D_zset n 0" and g = "\<lambda>n. D_zset n 0" and t = RDB_ZSET_LISTPACK and L = L and kv = kv]
  show "\<exists>z. lp_init (pmem b) (ppos b) (l_len L) RdbListPack_new = Some (True, z) \<and>
    reads (in_ctx RDB_ZSET_LISTPACK L kv) (case RDB_ZSET_LISTPACK of
         RDB_HASH_LISTPACK \<Rightarrow> lp_pairs z b (\<lambda>num. D_hash num 0)
       | RDB_ZSET_LISTPACK \<Rightarrow> lp_pairs z b (\<lambda>num. D_zset num 0)
       | _ \<Rightarrow> throw RDB_ERR_NOTSUP) [] (\<lambda>_. True)
      (numbered (\<lambda>n (a, b). D_zset n 0 (Some (lp_item_val a)) (Some (lp_item_val b))) 0 ps)"
    by (auto simp: L)
qed (use ok in \<open>simp add: length_lp_bytes lp_ok_def\<close>)

lemma reads_string:
  assumes "reads (in_ctx t L kv) (decode_str L) xs (\<lambda>r. str_val r = Some v) []"
  shows "reads (in_ctx t L kv) decode_string xs (\<lambda>_. True) [D_start_key t kv, D_string (Some v), D_end_key t]"
  unfolding decode_string_def
  by (rule reads_andThen [OF steady_in_ctx reads_start_key reads_then_gets [OF steady_in_ctx, where x = L]],
      simp add: in_ctx_def, rule reads_then_quiet [OF steady_in_ctx assms],
      rule reads_then_emit [OF steady_in_ctx in_ctx_out _ reads_end_key]) auto


lemma reads_intset:
  assumes ok: "intset_ok nb xs"
  shows "reads (in_ctx t L kv) decode_set_intset (intset_bytes nb xs) (\<lambda>_. True)
    (D_start_key t kv # numbered (\<lambda>n x. D_set n (length xs) (Some (IntVal x))) 0 xs @ [D_end_key t])"
proof -
  let ?C = "in_ctx t L kv" and ?n = "word_of_nat nb :: u32" and ?k = "word_of_nat (length xs) :: u32"
  let ?data = "concat (map (intset_elem nb) xs)"
  have nb: "nb \<in> {1, 2, 4}" and sz: "nb * length xs < 2 ^ 32"
    and xs: "\<forall>x \<in> set xs. - (2 ^ (8 * nb - 1)) \<le> sint x \<and> sint x < 2 ^ (8 * nb - 1)"
    using ok by (auto simp: intset_ok_def)
  have "length xs \<le> nb * length xs" using nb by auto
  then have k: "unat ?k = length xs" using le_less_trans [OF _ sz] by (intro unat_of_nat_32)
  have "?n * ?k = word_of_nat (nb * length xs)" by simp
  then have nk: "unat (?n * ?k) = nb * length xs" using sz unat_of_nat_32 by metis
  have n: "?n \<in> {1, 2, 4, 8}" using nb by auto
  have len: "length ?data = unat (?n * ?k)" using nb nk by (simp only: length_intset_elems)
  have loop: "reads ?C (intset_loop (unat ?k) 0 (unat ?k) ?n b) [] (\<lambda>_. True)
      (numbered (\<lambda>n x. D_set n (length xs) (Some (IntVal x))) 0 xs)"
    if "bytes_at (pmem b) (ppos b) ?data" for b
    unfolding k by (rule intset_loop_runs [OF steady_in_ctx in_ctx_out nb xs that])
  have "reads ?C (andThen (incr_or_trunc (unat (?n * ?k))) (\<lambda>b. andThen (intset_loop (unat ?k) 0 (unat ?k) ?n b) (\<lambda>_. end_key)))
      ?data (\<lambda>_. True) (numbered (\<lambda>n x. D_set n (length xs) (Some (IntVal x))) 0 xs @ [D_end_key t])"
    by (rule reads_then_quiet [OF steady_in_ctx reads_incr_at [OF len [symmetric]]])
      (auto intro!: reads_andThen [OF steady_in_ctx loop reads_end_key])
  then have "reads ?C (andThen (checked (le32 (pmem b) (ppos b))) (\<lambda>nbyte.
     andThen (checked (le32 (pmem b) (ppos b + 4))) (\<lambda>nelem.
     if nbyte \<noteq> 1 \<and> nbyte \<noteq> 2 \<and> nbyte \<noteq> 4 \<and> nbyte \<noteq> 8 then throw RDB_ERR_NOTSUP
     else andThen (incr_or_trunc (unat (nbyte * nelem))) (\<lambda>b. andThen (intset_loop (unat nelem) 0 (unat nelem) nbyte b) (\<lambda>_. end_key)))))
      ?data (\<lambda>_. True) (numbered (\<lambda>n x. D_set n (length xs) (Some (IntVal x))) 0 xs @ [D_end_key t])"
    if "bytes_at (pmem b) (ppos b) (mem_store 4 ?n @ mem_store 4 ?k)" for b
    using that n by (auto simp: bytes_at_append bytes_at_rdn endian_read_bytes mem_load_store andThen_checked)
  then show ?thesis
    unfolding decode_set_intset_def intset_bytes_def append_assoc [symmetric]
    by (intro reads_andThen [OF steady_in_ctx reads_start_key reads_then_quiet [OF steady_in_ctx
      reads_incr_at [where xs = "mem_store 4 ?n @ mem_store 4 ?k"]]]) auto
qed

lemma reads_incr_byte:
  "reads C (onb (incr 1)) [c] (\<lambda>r. \<exists>b. r = Some b \<and> rd8 (pmem b) (ppos b) = Some c) []"
proof (rule reads_onb)
  fix bp assume bp: "wf_bufptr bp" "has_bytes bp [c]"
  from incr_runs [OF this, of 1] obtain bp' where
    "incr 1 bp = (Ok (Some (buf bp)), bp')" "advanced 1 bp bp'" by auto
  moreover have "rd8 (pmem (buf bp)) (ppos (buf bp)) = Some c"
    using bp(2) by (simp add: has_bytes_def bytes_at_Cons)
  ultimately show "\<exists>x bp'. incr 1 bp = (Ok x, bp') \<and> (\<exists>b. x = Some b \<and> rd8 (pmem b) (ppos b) = Some c) \<and> advanced (length [c]) bp bp'"
    by (intro exI [of _ "Some (buf bp)"] exI [of _ bp']) simp
qed

lemma module_skip_runs:
  "0 \<notin> set bs \<Longrightarrow> length bs < k \<Longrightarrow> steady C \<Longrightarrow> reads C (module_skip k) (bs @ [0]) (\<lambda>_. True) []"
proof (induction bs arbitrary: k)
  case Nil
  then obtain j where "k = Suc j" by (cases k) auto
  with Nil show ?case
    by (auto simp: andThen_checked intro!: reads_then_quiet [OF _ reads_incr_byte [where c = 0]] reads_ret
        simp del: One_nat_def)
next
  case (Cons c bs)
  then obtain j where "k = Suc j" by (cases k) auto
  with Cons show ?case
    by (auto simp: andThen_checked intro!: reads_then_quiet [OF _ reads_incr_byte [where c = c]] simp del: One_nat_def)
qed

lemma reads_avail:
  assumes "\<And>n. length xs \<le> n \<Longrightarrow> reads C (f n) xs B es"
  shows "reads C (andThen (gets (\<lambda>s. avail (dec_bptr s))) f) xs B es"
proof (rule readsI)
  fix s assume s: "C s" "wf_bufptr (dec_bptr s)" "has_bytes (dec_bptr s) xs"
  then have "reads C (f (avail (dec_bptr s))) xs B es" by (intro assms) (simp add: has_bytes_def)
  from readsD [OF this s] show "\<exists>x bp l. andThen (gets (\<lambda>s. avail (dec_bptr s))) f s = (Ok x, s\<lparr>dec_bptr := bp, dec_log := dec_log s @ l\<rparr>)
      \<and> B x \<and> advanced (length xs) (dec_bptr s) bp \<and> map ev_val l = es"
    by (simp add: run_andThen(3)) blast
qed

lemma reads_module:
  assumes "0 \<notin> set bs" "l_is_enc L = 0" "\<not> l_is_lzf L"
  shows "reads (in_ctx t L kv) decode_module (bs @ [0]) (\<lambda>_. True)
    [D_start_key t kv, D_module (str_val (module_str (l_len L))), D_end_key t]"
proof -
  let ?C = "in_ctx t L kv"
  have skip: "reads ?C (andThen (gets (\<lambda>s. avail (dec_bptr s))) (\<lambda>n. module_skip (Suc n))) (bs @ [0]) (\<lambda>_. True) []"
    using assms(1) by (intro reads_avail module_skip_runs) auto
  have "reads ?C (andThen start_key (\<lambda>_. andThen (emit (D_module (module_str (l_len L)))) (\<lambda>_. andThen end_key (\<lambda>_.
       andThen (gets (\<lambda>s. avail (dec_bptr s))) (\<lambda>n. module_skip (Suc n)))))) (bs @ [0]) (\<lambda>_. True)
    [D_start_key t kv, D_module (str_val (module_str (l_len L))), D_end_key t]"
    by (rule reads_andThen [OF steady_in_ctx reads_start_key reads_then_emit [OF steady_in_ctx in_ctx_out _
      reads_andThen [OF steady_in_ctx reads_end_key skip]]]) auto
  then show ?thesis
    unfolding decode_module_def using assms(2,3)
    by (intro reads_then_gets [OF steady_in_ctx, where x = L]) (auto simp: in_ctx_def)
qed

section \<open>Every body\<close>

lemma unat_word_of_nat: "n < 2 ^ 64 \<Longrightarrow> unat (word_of_nat n :: u64) = n"
  by (simp add: unat_of_nat)

text \<open>The functions of the bodies, by type.\<close>

definition body_of :: "rdb_env \<Rightarrow> RdbType \<Rightarrow> (RdbDecode, unit) prog" where
  "body_of E t = (case t of
       RDB_STRING \<Rightarrow> decode_string
     | RDB_HASH \<Rightarrow> decode_hash E
     | RDB_HASH_ZIPMAP \<Rightarrow> decode_hash_zipmap
     | RDB_SET \<Rightarrow> decode_set E
     | RDB_LIST \<Rightarrow> decode_list E
     | RDB_SET_INTSET \<Rightarrow> decode_set_intset
     | RDB_HASH_ZIPLIST \<Rightarrow> decode_ziplist
     | RDB_ZSET_ZIPLIST \<Rightarrow> decode_ziplist
     | RDB_LIST_ZIPLIST \<Rightarrow> decode_ziplist
     | RDB_LIST_QUICKLIST \<Rightarrow> decode_quicklist E
     | RDB_ZSET \<Rightarrow> decode_zset E
     | RDB_ZSET_2 \<Rightarrow> decode_zset E
     | RDB_STREAM_LISTPACK \<Rightarrow> decode_stream E
     | RDB_HASH_LISTPACK \<Rightarrow> decode_listpack
     | RDB_ZSET_LISTPACK \<Rightarrow> decode_listpack
     | RDB_LIST_QUICKLIST_2 \<Rightarrow> decode_quicklist_2 E
     | RDB_STREAM_LISTPACKS_2 \<Rightarrow> decode_stream E
     | RDB_MODULE_2 \<Rightarrow> decode_module
     | RDB_MODULE \<Rightarrow> decode_module
     | RDB_BAD_TYPE \<Rightarrow> throw RDB_ERR_NOTSUP)"

lemma decode_body_of: "decode_body E = andThen (gets dec_type) (body_of E)"
  by (simp only: decode_body_def body_of_def [abs_def])

text \<open>An object stored as one string, read within one block, the input or a decompressed one.\<close>

lemma single_item_ok: "obj_ok ob \<Longrightarrow> obj_item ob = Some i \<Longrightarrow> item_ok i"
proof -
  have "length (intset_bytes nb xs) < 2 ^ 64" if "intset_ok nb xs" for nb xs
    using that by (auto simp: intset_ok_def intset_bytes_def length_intset_elems)
  then show "obj_ok ob \<Longrightarrow> obj_item ob = Some i \<Longrightarrow> item_ok i"
    by (cases ob) (auto simp: zip_ok_def lp_ok_def zm_ok_def length_zip_bytes length_lp_bytes)
qed

lemma single_body_reads:
  assumes ok: "obj_ok ob" and i: "obj_item ob = Some i" and L: "L = item_head_len K i" and K: "compresses E K"
  shows "reads (in_ctx (obj_type ob) L kv) (body_of E (obj_type ob)) (item_data i) (\<lambda>_. True) (body_calls ob kv)"
proof -
  have len: "l_len L = word_of_nat (length xs)" if "i = ItStr xs" for xs
    using that L by (simp split: option.splits)
  show ?thesis
  proof (cases ob)
    case (ObString j)
    have "reads (in_ctx RDB_STRING L kv) (decode_str L) (item_data i) (\<lambda>r. str_val r = Some (item_val i)) []"
    proof (cases "\<exists>xs z. i = ItStr xs \<and> K xs = Some z")
      case True
      then obtain xs z where x: "i = ItStr xs" "K xs = Some z" by blast
      with compresses_length [OF K x(2)] have "reads (in_ctx RDB_STRING L kv) (decode_str L) xs (\<lambda>r. str_val r = Some (StrVal xs)) []"
        by (intro reads_str [OF steady_in_ctx]) (simp_all add: L)
      with x show ?thesis by simp
    next
      case False
      then have "L = item_len i" using L by (cases i) auto
      then show ?thesis using ok ObString i by (simp add: reads_decode_str)
    qed
    with ObString i show ?thesis by (simp add: body_of_def body_calls_def reads_string)
  next
    case (ObIntset nb xs)
    then show ?thesis using ok i by (auto simp: body_of_def body_calls_def intro: reads_intset)
  next
    case (ObListZip ds)
    then show ?thesis using ok i len by (auto simp: body_of_def body_calls_def intro: reads_list_zip)
  next
    case (ObHashZip ps)
    then show ?thesis using ok i len by (auto simp: body_of_def body_calls_def intro: reads_hash_zip)
  next
    case (ObZsetZip ps)
    then show ?thesis using ok i len by (auto simp: body_of_def body_calls_def intro: reads_zset_zip)
  next
    case (ObHashPack ps)
    then show ?thesis using ok i len by (auto simp: body_of_def body_calls_def intro: reads_hash_lp)
  next
    case (ObZipmap es)
    then show ?thesis using ok i len by (auto simp: body_of_def body_calls_def intro: reads_zipmap)
  next
    case (ObZsetPack ps)
    then show ?thesis using ok i len by (auto simp: body_of_def body_calls_def intro: reads_zset_lp)
  qed (use i in simp_all)
qed

lemma loose_body_flows:
  assumes ok: "obj_ok ob" and i: "obj_item ob = None" and K: "compresses E K"
  shows "flows False True (in_ctx (obj_type ob) (RdbLength_zero\<lparr>l_len := obj_num ob\<rparr>) kv) (body_of E (obj_type ob)) (obj_loose K ob)
    (\<lambda>_. True) (body_calls ob kv)"
proof -
  note run = body_of_def body_calls_def unat_word_of_nat
  show ?thesis
  proof (cases ob)
    case (ObList xs)
    then show ?thesis using ok K
      by (auto simp: run decode_list_def 
          intro!: flows_counted flows_weaken [OF flows_list_loop [OF steady_in_ctx in_ctx_out]])
  next
    case (ObSet xs)
    then show ?thesis using ok K
      by (auto simp: run decode_set_def 
          intro!: flows_counted flows_weaken [OF flows_set_loop [OF steady_in_ctx in_ctx_out]])
  next
    case (ObHash xs)
    then show ?thesis using ok K
      by (auto simp: run decode_hash_def 
          intro!: flows_counted flows_weaken [OF flows_hash_loop [OF steady_in_ctx in_ctx_out]])
  next
    case (ObZset xs)
    then show ?thesis using ok
      by (auto simp: run decode_zset_def intro!: flows_counted [OF flows_reads] reads_zset_loop)
  next
    case (ObZset2 xs)
    then show ?thesis using ok
      by (auto simp: run decode_zset_def intro!: flows_counted [OF flows_reads] reads_zset_loop)
  next
    case (ObQuicklist dss)
    then show ?thesis using ok K
      by (auto simp: run decode_quicklist_def 
          intro!: flows_keyed flows_weaken [OF quicklist_runs [OF steady_in_ctx in_ctx_out]])
  next
    case (ObQuicklist2 iss)
    then show ?thesis using ok K
      by (auto simp: run decode_quicklist_2_def 
          intro!: flows_keyed flows_weaken [OF quicklist_2_runs [OF steady_in_ctx in_ctx_out]])
  next
    case (ObModule m bs)
    then show ?thesis using ok reads_module [of bs "RdbLength_zero\<lparr>l_len := m\<rparr>"]
      by (simp add: body_of_def body_calls_def flows_reads)
  next
    case (ObStream st)
    have "flows False True (in_ctx (stream_type st) (RdbLength_zero\<lparr>l_len := word_of_nat (length (st_nodes st))\<rparr>) kv) (decode_stream E)
        (stream_bytes K st) (\<lambda>_. True) (D_start_key (stream_type st) kv # stream_calls st @ [D_end_key (stream_type st)])"
      using ok ObStream by (intro flows_weaken [OF flows_stream [OF K]]) simp_all
    with ObStream show ?thesis by (cases "st_second st") (simp_all add: body_of_def body_calls_def stream_type_def)
  qed (use i in simp_all)
qed

text \<open>What stands between header and body: a compressed object is decompressed first.\<close>

definition hdr_open :: "rdb_env \<Rightarrow> (RdbDecode, unit) prog" where
  "hdr_open E = andThen (gets dec_rlen) (\<lambda>L.
     if l_is_lzf L then andThen (onb (decompress E (l_zlen L) (l_len L))) (\<lambda>ok. if ok then ret () else throw RDB_ERR_LZF)
     else ret ())"

lemma reads_body_of:
  assumes "reads (in_ctx t L kv) (body_of E t) xs A es"
  shows "reads (in_ctx t L kv) (decode_body E) xs A es"
  unfolding decode_body_of by (rule reads_then_gets [OF steady_in_ctx, where x = t]) (use assms in \<open>auto simp: in_ctx_def\<close>)

lemma flows_body_of:
  assumes "flows p q (in_ctx t L kv) (body_of E t) xs A es"
  shows "flows p q (in_ctx t L kv) (decode_body E) xs A es"
  unfolding decode_body_of by (rule flows_gets [where x = t]) (use assms in \<open>auto simp: in_ctx_def\<close>)

lemma body_flows:
  assumes ok: "obj_ok ob" and K: "compresses E K"
  shows "flows False True (obj_ctx K ob kv) (andThen (hdr_open E) (\<lambda>_. decode_body E)) (obj_data K ob) (\<lambda>_. True) (body_calls ob kv)"
  unfolding hdr_open_def andThen_assoc
proof (rule flows_gets [where x = "obj_len K ob"])
  let ?C = "obj_ctx K ob kv" and ?L = "obj_len K ob"
  show "flows False True ?C (andThen (if l_is_lzf ?L then andThen (onb (decompress E (l_zlen ?L) (l_len ?L)))
      (\<lambda>ok. if ok then ret () else throw RDB_ERR_LZF) else ret ()) (\<lambda>_. decode_body E))
    (obj_data K ob) (\<lambda>_. True) (body_calls ob kv)"
  proof (cases "obj_item ob")
    case None
    with flows_body_of [OF loose_body_flows [OF ok None K]] show ?thesis
      by (simp add: obj_data_def obj_len_def andThen_ret)
  next
    case (Some i)
    have L: "?L = item_head_len K i" by (simp add: obj_len_def Some)
    note body = reads_body_of [OF single_body_reads [OF ok Some L K], of kv]
    show ?thesis
    proof (cases "\<exists>xs z. i = ItStr xs \<and> K xs = Some z")
      case True
      then obtain xs z where x: "i = ItStr xs" "K xs = Some z" by blast
      then have "?L = lzf_len z xs" "obj_data K ob = z" using Some L by (simp_all add: obj_data_def)
      with body x flows_unpack [OF steady_in_ctx K x(2), where
          f = "\<lambda>ok. andThen (if ok then ret () else throw RDB_ERR_LZF) (\<lambda>_. decode_body E)"]
      show ?thesis by (simp add: andThen_assoc andThen_ret)
    next
      case False
      then have "\<not> l_is_lzf ?L" "obj_data K ob = item_data i" using Some L by (cases i; auto simp: obj_data_def)+
      with body show ?thesis by (simp add: andThen_ret flows_reads)
    qed
  qed
qed (simp add: in_ctx_def)

end
