(* ===== verification/Rdb_Records.thy ===== *)
theory Rdb_Records
  imports Rdb_Objects
begin

text \<open>
  Dumps: the header of a record, of a dump and of a file, and the version and checksum at the end of
  a dump. A dump written by \<open>dump_bytes\<close> is decoded to the calls of its object, a damaged one is
  refused.
\<close>

section \<open>Headers\<close>

lemma onb_Ok: "m (dec_bptr s) = (Ok x, bp) \<Longrightarrow> onb m s = (Ok x, s\<lparr>dec_bptr := bp\<rparr>)"
  by (simp add: onb_def zoom_def)

lemma has_bytes_Cons:
  assumes "wf_bufptr bp" "has_bytes bp (c # xs)"
  obtains bp' where "incr 1 bp = (Ok (Some (buf bp)), bp')" "advanced 1 bp bp'" "wf_bufptr bp'" "has_bytes bp' xs"
    "rd8 (pmem (buf bp)) (ppos (buf bp)) = Some c" "avail bp \<noteq> 0"
proof -
  have c: "has_bytes bp [c]" using has_bytes_prefix [of bp "[c]" xs] assms(2) by simp
  from incr_runs [OF assms(1) this, of 1] obtain bp' where 1: "incr 1 bp = (Ok (Some (buf bp)), bp')" "advanced 1 bp bp'"
    by auto
  moreover have "wf_bufptr bp'" using advanced_wf [OF assms(1) 1(2)] c by (simp add: has_bytes_def Suc_le_eq)
  moreover have "has_bytes bp' xs" using has_bytes_advanced [of bp "[c]" xs bp'] assms(2) 1(2) by simp
  ultimately show ?thesis
    using that c by (auto simp: has_bytes_def bytes_at_Cons)
qed

lemma advanced_steps:
  assumes "wf_bufptr bp" "has_bytes bp (xs @ ys)" "advanced (length xs) bp bp'"
  shows "wf_bufptr bp'" "has_bytes bp' ys"
  using advanced_wf [OF assms(1,3)] has_bytes_advanced [OF assms(2,3)] assms(2) by (auto simp: has_bytes_def)

lemma len_hdr_obj: "obj_ok ob \<Longrightarrow> len_hdr (obj_hdr K ob) (obj_len K ob)"
  by (auto simp: obj_hdr_def obj_len_def len_hdr_bytes len_hdr_head single_item_ok split: option.split)

lemma decode_len_hdr:
  assumes "len_hdr xs L" "wf_bufptr (dec_bptr s)" "has_bytes (dec_bptr s) (xs @ ys)"
  obtains bp where "onb (decode RdbLength_zero) s = (Ok L, s\<lparr>dec_bptr := bp\<rparr>)" "advanced (length xs) (dec_bptr s) bp"
    "wf_bufptr bp" "has_bytes bp ys"
proof -
  obtain bp where "decode RdbLength_zero (dec_bptr s) = (Ok L, bp)" "advanced (length xs) (dec_bptr s) bp"
    using decode_runs [OF assms(2) has_bytes_prefix [OF assms(3)], of RdbLength_zero L] assms(1) by (auto simp: len_hdr_def)
  then show ?thesis using that [OF onb_Ok] advanced_steps [OF assms(2,3)] by simp
qed

text \<open>The key of a record of a file, and the length of the object behind it.\<close>

lemma flowsD_quiet:
  assumes "flows p q C m xs A []" "C s" "in_main (dec_bptr s)" "p \<or> direct (dec_bptr s)" "has_bytes (settled (dec_bptr s)) xs"
  obtains x bp where "m s = (Ok x, s\<lparr>dec_bptr := bp\<rparr>)" "A x" "moved (length xs) (dec_bptr s) bp" "q \<or> direct bp"
  by (rule flowsD [OF assms]) (auto intro: that)

definition any_state :: "RdbDecode \<Rightarrow> bool" where
  "any_state s \<longleftrightarrow> True"

lemma any_state [simp]: "steady any_state" "any_state s"
  by (simp_all add: steady_def any_state_def)

text \<open>
  A key once the blocks of the decompressed strings are freed: an uncompressed key still has its value, the
  bytes of a compressed one are gone.
\<close>

definition uncompressed :: "packer \<Rightarrow> rdb_item \<Rightarrow> bool" where
  "uncompressed K i \<longleftrightarrow> (\<forall>xs. i = ItStr xs \<longrightarrow> K xs = None)"

definition freed :: "RdbString \<Rightarrow> RdbString" where
  "freed r = r\<lparr>str_s := pfree (str_s r)\<rparr>"

definition key_kept :: "packer \<Rightarrow> rdb_item \<Rightarrow> RdbString \<Rightarrow> bool" where
  "key_kept K k r \<longleftrightarrow> (if uncompressed K k then str_val r = Some (item_val k)
     else coding r = RDB_STR_VAL \<and> str_s r = Freed \<and> str_u r \<noteq> 0)"

lemma hdr_key_runs:
  assumes k: "item_ok k" "dec_rlen s = item_head_len K k" and h: "len_hdr xs L" and K: "compresses E K"
    and s: "in_main (dec_bptr s)" "direct (dec_bptr s)" "has_bytes (dec_bptr s) (item_tail K k @ xs @ ys)"
  obtains bp key where "hdr_key E s = (Ok (), s\<lparr>dec_key := key, dec_rlen := L, dec_bptr := bp\<rparr>)"
    "str_val key = Some (item_val k)" "moved (length (item_tail K k) + length xs) (dec_bptr s) bp" "direct bp"
    "uncompressed K k \<or> alloced_mem bp \<noteq> []" "pfree (buf (dec_bptr s)) = buf (dec_bptr s) \<longrightarrow> key_kept K k (freed key)"
proof -
  note result = that
  have tail: thesis if c: "hdr_key E s = andThen (onb (decode RdbLength_zero)) (\<lambda>L. modify (\<lambda>s. s\<lparr>dec_rlen := L\<rparr>))
      (s\<lparr>dec_bptr := bq, dec_key := key, dec_rlen := RdbLength_zero\<rparr>)" and mv: "moved (length (item_tail K k)) (dec_bptr s) bq"
    and key: "str_val key = Some (item_val k)" "uncompressed K k \<or> alloced_mem bq \<noteq> []"
      "pfree (buf (dec_bptr s)) = buf (dec_bptr s) \<longrightarrow> key_kept K k (freed key)" for key bq
  proof -
    let ?s = "s\<lparr>dec_bptr := bq, dec_key := key, dec_rlen := RdbLength_zero\<rparr>"
    have "has_bytes (settled (dec_bptr s)) (item_tail K k @ xs @ ys)" using s by simp
    from has_bytes_prefix [OF moved_bytes [OF this mv]] have "has_bytes (settled (dec_bptr ?s)) xs" by simp
    moreover have "in_main (dec_bptr ?s)" using mv by (simp add: moved_def)
    ultimately obtain bp where bp: "onb (decode RdbLength_zero) ?s = (Ok L, ?s\<lparr>dec_bptr := bp\<rparr>)" "moved (length xs) bq bp" "direct bp"
      by (auto intro: flowsD_quiet [OF flows_len [OF h any_state(1), of True False], where s = ?s])
    have "uncompressed K k \<or> alloced_mem bp \<noteq> []" using key(2) bp(2) by (auto simp: moved_def Let_def)
    from result [OF _ key(1) moved_trans [OF mv bp(2)] bp(3) this key(3)] show thesis
      unfolding c by (simp add: andThen_Ok [where m = "onb (decode RdbLength_zero)" and s = ?s, OF bp(1)] run_simps)
  qed
  show thesis
  proof (cases k)
    case (ItInt x)
    have r: "dec_rlen s = item_len k" "l_is_enc (item_len k) \<noteq> 0" using k(2) ItInt int_width_not_0 by simp_all
    have mv: "moved 0 (dec_bptr s) (dec_bptr s)"
      using s(1) advanced_0_moved(1) [OF _ advanced_0] by (simp add: in_main_def)
    let ?key = "set_i32 (l_ival (item_len k)) (dec_key s)"
    have "str_val ?key = Some (item_val k)" "str_val (freed ?key) = Some (item_val k)"
      using item_int [of x] k(1) ItInt by (simp_all add: freed_def str_val_def set_i32_def)
    then show thesis
      using mv ItInt r(2) by (intro tail [where key = ?key and bq = "dec_bptr s"]) (simp_all add: hdr_key_def run_simps r key_kept_def uncompressed_def)
  next
    case (ItStr zs)
    let ?L = "item_head_len K k"
    have L: "unat (l_len ?L) = length zs" "l_is_enc ?L = 0"
      using k(1) ItStr compresses_length [OF K, of zs] by (auto simp: unat_of_nat split: option.split)
    have run: "hdr_key E s = andThen (onb (decode RdbLength_zero)) (\<lambda>L. modify (\<lambda>s. s\<lparr>dec_rlen := L\<rparr>))
        (s\<lparr>dec_bptr := bp, dec_key := set_str b (l_len ?L) (dec_key s), dec_rlen := RdbLength_zero\<rparr>)"
      if "consume E ?L (dec_bptr s) = (Ok b, bp)" for b bp
      using k(2) L(2) by (simp add: hdr_key_def run_simps andThen_Ok [where m = "onb (consume E ?L)" and s = s,
        OF onb_Ok [where m = "consume E ?L" and s = s, OF that]])
    have has: "has_bytes (dec_bptr s) (item_tail K k)" using s(3) by (rule has_bytes_prefix)
    show thesis
    proof (cases "K zs")
      case None
      have wf: "wf_bufptr (dec_bptr s)" using s(1) by (simp add: in_main_def)
      have zs: "item_tail K k = zs" "\<not> l_is_lzf ?L" using None ItStr by simp_all
      with wf obtain bp where bp: "consume E ?L (dec_bptr s) = (Ok (buf (dec_bptr s)), bp)" "advanced (length zs) (dec_bptr s) bp"
        "rdn (pmem (buf (dec_bptr s))) (ppos (buf (dec_bptr s))) (length zs) = Some zs"
        using consume_runs [OF _ _ L] has by metis
      have mv: "moved (length (item_tail K k)) (dec_bptr s) bp"
        by (rule advanced_moved(1) [OF wf s(1,2)]) (use has bp(2) in \<open>simp_all add: zs has_bytes_def\<close>)
      show thesis
        by (rule tail [OF run [OF bp(1)] mv])
          (use bp(3) L(1) None in \<open>simp_all add: ItStr uncompressed_def key_kept_def freed_def str_val_def set_str_def\<close>)
    next
      case (Some z)
      have "?L = lzf_len z zs" "item_tail K k = z" using Some ItStr by simp_all
      then obtain bp where bp: "consume E ?L (dec_bptr s) = (Ok (Ptr True zs 0), bp)" "moved (length (item_tail K k)) (dec_bptr s) bp" "alloced_mem bp \<noteq> []"
        using consume_unpacks [OF K Some s(1,2)] has by metis
      have "zs \<noteq> []" using K Some unfolding compresses_def by blast
      then have "l_len ?L \<noteq> 0" using L(1) by (auto simp: unat_eq_zero)
      moreover have "rdn zs 0 (length zs) = Some zs" by (simp add: rdn_Some)
      ultimately show thesis
        by (intro tail [OF run [OF bp(1)] bp(2)])
          (use bp(3) L(1) Some in \<open>simp_all add: ItStr uncompressed_def key_kept_def freed_def str_val_def set_str_def\<close>)
    qed
  qed
qed


text \<open>Type and first length, as far as dump and file agree.\<close>

lemma hdr_record_start:
  assumes t: "t \<noteq> RDB_BAD_TYPE" and out: "dec_data_out s = DataOut" and h: "len_hdr xs L"
    and s: "wf_bufptr (dec_bptr s)" "has_bytes (dec_bptr s) (RdbType_val t # xs @ ys)"
  obtains bp where "hdr_record E s = (andThen (gets dec_is_rdb_file) (\<lambda>file.
       andThen (if file then hdr_key E else ret ()) (\<lambda>_. hdr_open E))) (s\<lparr>dec_type := t, dec_log := dec_log s @ [D_start_type t (offset (dec_bptr s))], dec_bptr := bp, dec_rlen := L\<rparr>)"
    "advanced (Suc (length xs)) (dec_bptr s) bp" "wf_bufptr bp" "has_bytes bp ys"
proof -
  obtain bp1 where 1: "incr 1 (dec_bptr s) = (Ok (Some (buf (dec_bptr s))), bp1)" "advanced 1 (dec_bptr s) bp1" "wf_bufptr bp1"
    "has_bytes bp1 (xs @ ys)" "rd8 (pmem (buf (dec_bptr s))) (ppos (buf (dec_bptr s))) = Some (RdbType_val t)" "avail (dec_bptr s) \<noteq> 0"
    using has_bytes_Cons [OF s] by blast
  define s1 where "s1 = s\<lparr>dec_type := t, dec_log := dec_log s @ [D_start_type t (offset (dec_bptr s))]\<rparr>"
  define s2 where "s2 = s1\<lparr>dec_bptr := bp1, dec_rlen := RdbLength_zero\<rparr>"
  obtain bp where 2: "onb (decode RdbLength_zero) s2 = (Ok L, s2\<lparr>dec_bptr := bp\<rparr>)" "advanced (length xs) bp1 bp"
    "wf_bufptr bp" "has_bytes bp ys"
    using decode_len_hdr [OF h, of s2 ys] 1(3,4) by (auto simp: s2_def)
  have peek: "peek 0 s = (Ok (RdbType_val t), s)" using 1(5) by (simp add: peek_def run_simps)
  have emit: "emit_data (D_start_type t (offset (dec_bptr s))) (s\<lparr>dec_type := t\<rparr>) = (Ok (), s1)"
    using out by (simp add: emit_data_def call_out_def run_simps s1_def)
  have inc: "onb (incr 1) s1 = (Ok (Some (buf (dec_bptr s))), s1\<lparr>dec_bptr := bp1\<rparr>)"
    using 1(1) by (simp add: onb_def zoom_def s1_def)
  show ?thesis
  proof (rule that [OF _ _ 2(3,4)])
    show "advanced (Suc (length xs)) (dec_bptr s) bp" using advanced_advanced [OF 1(2) 2(2)] by simp
    show "hdr_record E s = (andThen (gets dec_is_rdb_file) (\<lambda>file.
       andThen (if file then hdr_key E else ret ()) (\<lambda>_. hdr_open E))) (s\<lparr>dec_type := t, dec_log := dec_log s @ [D_start_type t (offset (dec_bptr s))], dec_bptr := bp, dec_rlen := L\<rparr>)"
      unfolding hdr_record_def run_andThen(3) hdr_open_def using 1(6) t
      by (simp add: andThen_Ok [where m = "peek 0" and s = s, OF peek] get_rdb_type_val run_andThen(4)
        andThen_Ok [where m = "emit_data (D_start_type t (offset (dec_bptr s)))", OF emit] andThen_Ok [where m = "onb (incr 1)" and s = s1, OF inc] del: One_nat_def)
        (simp add: andThen_Ok [where m = "onb (decode RdbLength_zero)", OF 2(1) [unfolded s2_def s1_def]] s1_def run_andThen(4))
  qed
qed


lemma hdr_record_dump:
  assumes "t \<noteq> RDB_BAD_TYPE" "dec_data_out s = DataOut" "len_hdr xs L" "\<not> dec_is_rdb_file s"
    "wf_bufptr (dec_bptr s)" "has_bytes (dec_bptr s) (RdbType_val t # xs @ ys)"
  obtains bp where "hdr_record E s = hdr_open E (s\<lparr>dec_type := t, dec_log := dec_log s @ [D_start_type t (offset (dec_bptr s))],
      dec_bptr := bp, dec_rlen := L\<rparr>)"
    "advanced (Suc (length xs)) (dec_bptr s) bp" "wf_bufptr bp" "has_bytes bp ys"
  by (rule hdr_record_start [OF assms(1-3,5,6), of E], rule that) (use assms(4) in \<open>simp_all add: run_simps andThen_ret\<close>)

lemma hdr_record_file:
  assumes t: "t \<noteq> RDB_BAD_TYPE" "dec_data_out s = DataOut" and k: "item_ok k" and h: "len_hdr xs L" and K: "compresses E K"
    and fil: "dec_is_rdb_file s"
    and s: "in_main (dec_bptr s)" "direct (dec_bptr s)" "has_bytes (dec_bptr s) (RdbType_val t # item_code K k @ xs @ ys)"
  obtains bp key where "hdr_record E s = hdr_open E (s\<lparr>dec_type := t, dec_log := dec_log s @ [D_start_type t (offset (dec_bptr s))],
      dec_key := key, dec_rlen := L, dec_bptr := bp\<rparr>)" "str_val key = Some (item_val k)"
    "moved (Suc (length (item_code K k @ xs))) (dec_bptr s) bp" "direct bp"
    "uncompressed K k \<or> alloced_mem bp \<noteq> []" "pfree (buf (dec_bptr s)) = buf (dec_bptr s) \<longrightarrow> key_kept K k (freed key)"
proof -
  have wf: "wf_bufptr (dec_bptr s)" using s(1) by (simp add: in_main_def)
  have has: "has_bytes (dec_bptr s) (RdbType_val t # item_head K k @ item_tail K k @ xs @ ys)"
    using s(3) by (simp add: item_code_def)
  show thesis
  proof (rule hdr_record_start [OF t len_hdr_head [OF k] wf has, of E])
    fix bp assume run: "hdr_record E s = (andThen (gets dec_is_rdb_file) (\<lambda>file.
         andThen (if file then hdr_key E else ret ()) (\<lambda>_. hdr_open E)))
           (s\<lparr>dec_type := t, dec_log := dec_log s @ [D_start_type t (offset (dec_bptr s))], dec_bptr := bp, dec_rlen := item_head_len K k\<rparr>)"
      and rest: "advanced (Suc (length (item_head K k))) (dec_bptr s) bp" "wf_bufptr bp" "has_bytes bp (item_tail K k @ xs @ ys)"
    let ?s = "s\<lparr>dec_type := t, dec_log := dec_log s @ [D_start_type t (offset (dec_bptr s))], dec_bptr := bp, dec_rlen := item_head_len K k\<rparr>"
    have "Suc (length (item_head K k)) \<le> avail (dec_bptr s)" using has by (simp add: has_bytes_def)
    note mv = advanced_moved [OF wf s(1,2) this rest(1)]
    then have "in_main (dec_bptr ?s)" "direct (dec_bptr ?s)" by (simp_all add: moved_def)
    then obtain bp2 key where 2: "hdr_key E ?s = (Ok (), ?s\<lparr>dec_key := key, dec_rlen := L, dec_bptr := bp2\<rparr>)"
      "str_val key = Some (item_val k)" "moved (length (item_tail K k) + length xs) bp bp2" "direct bp2"
      "uncompressed K k \<or> alloced_mem bp2 \<noteq> []" "pfree (buf bp) = buf bp \<longrightarrow> key_kept K k (freed key)"
      using hdr_key_runs [OF k _ h K, of ?s ys] rest(3) by auto
    have "moved (Suc (length (item_code K k @ xs))) (dec_bptr s) bp2"
      using moved_trans [OF mv(1) 2(3)] by (simp add: item_code_def add.assoc)
    moreover have "pfree (buf (dec_bptr s)) = buf (dec_bptr s) \<longrightarrow> pfree (buf bp) = buf bp"
      using rest(1) by (cases "buf (dec_bptr s)") (auto simp: advanced_def)
    ultimately show thesis
      using that [OF _ 2(2) _ 2(4,5)] 2(6) fil by (simp add: run run_andThen(3) andThen_Ok [where m = "hdr_key E" and s = ?s, OF 2(1)])
  qed
qed


section \<open>Dumps\<close>

text \<open>The version and checksum at the end of a dump.\<close>

lemma hdr_version_dump:
  assumes bs: "bs = xs @ [9, 0] @ mem_store 8 (c :: u64)" "take 7 bs \<noteq> rdb_magic" "length bs < 2 ^ 64"
    and s: "dec_bptr s = RdbBufptr_init (Ptr h bs 0) (length bs)" "\<not> dec_is_rdb_file s"
      "dec_tab s = jones_tab_zero \<or> dec_tab s = jones_crc64_init"
  shows "\<exists>tab. hdr_version s = (if c \<noteq> 0 \<and> crc_ref 0 (xs @ [9, 0]) \<noteq> c
    then (Err RDB_ERR_CRC, s\<lparr>dec_crc := c, dec_ver := 9, dec_tab := tab\<rparr>)
    else (Ok (), s\<lparr>dec_crc := c, dec_ver := 9, dec_tab := tab, dec_bptr := (dec_bptr s)\<lparr>avail := length xs\<rparr>\<rparr>))"
proof -
  have len: "length bs = length xs + 10" using bs(1) by simp
  have rd: "rd8 bs (Suc (length xs)) = Some 0" "rd8 bs (length xs) = Some 9"
    by (simp_all add: bs(1) rd8_def nth_append)
  obtain nl where nl: "rd8 bs (9 + length xs) = Some nl" using len by (auto simp: rd8_def)
  have le: "le64 bs (2 + length xs) = Some c"
    using bytes_at_here [of "xs @ [9, 0]" "mem_store 8 c" "[]"]
    by (simp add: bs(1) endian_read_bytes bytes_at_rdn mem_load_store)
  note le = le le [unfolded add.commute [of 2]] le [simplified]
  have pre: "rdn bs 0 (length xs + 2) = Some (xs @ [9, 0])" "rdn bs 0 7 = Some (take 7 bs)"
    using len by (simp_all add: rdn_Some bs(1))
  have cut: "unat (word_of_nat (length xs + 10) - word_of_nat (8 + 2) :: u64) = length xs"
    using bs(3) len unat_word_of_nat [of "length xs"] by simp
  have crc: "jones_crc64 (dec_tab s) addr 0 (xs @ [9, 0]) = (crc_ref 0 (xs @ [9, 0]), jones_crc64_init)" for addr
    by (rule jones_crc64_value [OF s(3)])
  define s1 where "s1 = s\<lparr>dec_crc := 0\<rparr>"
  define s2 where "s2 = s\<lparr>dec_crc := c, dec_ver := 9\<rparr>"
  have dump: "hdr_dump s1 = (Ok 8, s2)"
    by (simp add: hdr_dump_def peek_back_def run_simps s1_def s2_def s(1) RdbBufptr_init_def len rd nl le)
  let ?bad = "c \<noteq> 0 \<and> crc_ref 0 (xs @ [9, 0]) \<noteq> c"
  define s3 where "s3 = s2\<lparr>dec_tab := if c = 0 then dec_tab s else jones_crc64_init\<rparr>"
  have chk: "hdr_check_crc 8 s2 = (if ?bad then (Err RDB_ERR_CRC, s3) else (Ok (), s3))"
    by (simp add: hdr_check_crc_def run_simps s2_def s3_def s RdbBufptr_init_def len pre pre(1) [simplified] crc)
  have "hdr_version s = andThen (hdr_check_crc 8) (\<lambda>_. andThen (gets dec_is_rdb_file) (\<lambda>file.
     if \<not> file then onb (modify (\<lambda>bp. bp\<lparr>avail := unat (word_of_nat (avail bp) - word_of_nat (8 + 2) :: u64)\<rparr>))
     else andThen (onb (incr (5 + 4))) (\<lambda>_. ret ()))) s2"
    using bs(2)
    by (simp add: hdr_version_def run_andThen(3,4) s(1) RdbBufptr_init_def len pre run_andThen(6)
      andThen_Ok [where m = hdr_dump, OF dump [unfolded s1_def]])
  also have "\<dots> = (if ?bad then (Err RDB_ERR_CRC, s3) else (Ok (), s3\<lparr>dec_bptr := (dec_bptr s)\<lparr>avail := length xs\<rparr>\<rparr>))"
  proof (cases ?bad)
    case True
    then show ?thesis using chk by (simp add: andThen_Err)
  next
    case False
    then have "hdr_check_crc 8 s2 = (Ok (), s3)" using chk by auto
    then show ?thesis
      using False cut by (simp add: andThen_Ok run_andThen(3) s3_def s2_def s RdbBufptr_init_def len onb_def zoom_def modify_def)
  qed
  finally have "hdr_version s = (if ?bad then (Err RDB_ERR_CRC, s3) else (Ok (), s3\<lparr>dec_bptr := (dec_bptr s)\<lparr>avail := length xs\<rparr>\<rparr>))" .
  then show ?thesis
    by (intro exI [of _ "dec_tab s3"]) (simp add: s3_def s2_def)
qed

text \<open>The state of a decoder made for a dump, and the dump of an object.\<close>

definition dump_decoder :: "u8 list \<Rightarrow> u64 \<Rightarrow> RdbDecode" where
  "dump_decoder bs a = (RdbDecode_new (RdbBufptr_init (Ptr False bs 0) (length bs)))\<lparr>dec_data_out := DataOut, dec_addr := a\<rparr>"

definition dump_of :: "u8 list \<Rightarrow> u8 list" where
  "dump_of bs = bs @ [9, 0] @ mem_store 8 (crc_ref 0 (bs @ [9, 0]))"

definition dump_payload :: "packer \<Rightarrow> rdb_obj \<Rightarrow> u8 list" where
  "dump_payload K ob = RdbType_val (obj_type ob) # obj_hdr K ob @ obj_data K ob"

definition dump_bytes :: "packer \<Rightarrow> rdb_obj \<Rightarrow> u8 list" where
  "dump_bytes K ob = dump_of (dump_payload K ob)"

definition decode_record :: "rdb_env \<Rightarrow> (RdbDecode, unit) prog" where
  "decode_record E = andThen (decode_hdr E) (\<lambda>_. decode_body E)"

lemma record_Ok: "decode_hdr E s = (Ok (), t) \<Longrightarrow> decode_record E s = decode_body E t"
  by (simp add: decode_record_def andThen_Ok)

lemma obj_type_not_bad: "obj_type ob \<noteq> RDB_BAD_TYPE"
  by (cases ob) (auto simp: stream_type_def)

lemma type_le: "t \<noteq> RDB_BAD_TYPE \<Longrightarrow> RdbType_val t \<le> 19"
  by (cases t) auto

lemma decode_hdr_start:
  assumes "dec_out s \<noteq> NoOut \<or> dec_data_out s \<noteq> NoOut" "s1 = (if dec_out s = NoOut then s\<lparr>dec_out := dec_data_out s\<rparr> else s)"
  shows "decode_hdr E s = andThen (if dec_ver s = 0 then hdr_version else ret ()) (\<lambda>_.
     andThen (gets id) (\<lambda>s.
     andThen (if dec_is_rdb_file s then hdr_metas (Suc (avail (dec_bptr s) + sav_avail (dec_bptr s))) E else ret ()) (\<lambda>_.
     hdr_record E))) s1"
  using assms by (auto simp: decode_hdr_def run_andThen(3,4))


text \<open>A dump up to its body.\<close>

lemma decode_dump_start:
  assumes t: "t \<noteq> RDB_BAD_TYPE" and h: "len_hdr xs L" and bs: "bs = dump_of (RdbType_val t # xs @ ys)" "length bs < 2 ^ 64"
  obtains s where "decode_record E (dump_decoder bs a) = andThen (hdr_open E) (\<lambda>_. decode_body E) s" "in_ctx t L (Some NoVal) s"
    "in_main (dec_bptr s)" "direct (dec_bptr s)" "has_bytes (dec_bptr s) ys" "avail (dec_bptr s) = length ys"
    "dec_log s = [D_start_type t 0]"
proof -
  define pl where "pl = RdbType_val t # xs @ ys"
  let ?c = "crc_ref 0 (pl @ [9, 0])"
  let ?s = "dump_decoder bs a"
  define s1 where "s1 = ?s\<lparr>dec_out := DataOut\<rparr>"
  have b: "bs = pl @ [9, 0] @ mem_store 8 ?c" by (simp add: bs(1) dump_of_def pl_def)
  have "hd bs \<noteq> hd rdb_magic" using type_le [OF t] by (auto simp: b pl_def rdb_magic_def)
  then have magic: "take 7 bs \<noteq> rdb_magic" by (metis b pl_def append_Cons take_Cons_numeral list.sel(1))
  have s1: "dec_bptr s1 = RdbBufptr_init (Ptr False bs 0) (length bs)" "\<not> dec_is_rdb_file s1" "dec_ver s1 = 0"
    "dec_tab s1 = jones_tab_zero \<or> dec_tab s1 = jones_crc64_init" "dec_data_out s1 = DataOut" "dec_log s1 = []"
    by (simp_all add: s1_def dump_decoder_def RdbDecode_new_def)
  from hdr_version_dump [OF b magic bs(2) s1(1,2,4)] obtain tab where
    tab: "hdr_version s1 = (Ok (), s1\<lparr>dec_crc := ?c, dec_ver := 9, dec_tab := tab, dec_bptr := (dec_bptr s1)\<lparr>avail := length pl\<rparr>\<rparr>)"
    by auto
  define s2 where "s2 = s1\<lparr>dec_crc := ?c, dec_ver := 9, dec_tab := tab, dec_bptr := (dec_bptr s1)\<lparr>avail := length pl\<rparr>\<rparr>"
  have "bytes_at bs 0 pl" by (simp only: b bytes_at_start)
  then have "has_bytes (dec_bptr s2) pl" by (simp add: s2_def s1 RdbBufptr_init_def has_bytes_def)
  then have has: "has_bytes (dec_bptr s2) (RdbType_val t # xs @ ys)" by (simp only: pl_def)
  have wf: "wf_bufptr (dec_bptr s2)"
    by (simp add: s2_def s1 RdbBufptr_init_def wf_bufptr_def readable_def b)
  have main: "direct (dec_bptr s2)" "in_main (dec_bptr s2)"
    using wf by (simp_all add: direct_def in_main_def settled_def) (simp_all add: s2_def s1 RdbBufptr_init_def)
  obtain bp where rec: "hdr_record E s2 = hdr_open E (s2\<lparr>dec_type := t, dec_log := dec_log s2 @ [D_start_type t (offset (dec_bptr s2))],
      dec_bptr := bp, dec_rlen := L\<rparr>)" "advanced (Suc (length xs)) (dec_bptr s2) bp" "wf_bufptr bp" "has_bytes bp ys"
    using hdr_record_dump [OF t _ h _ wf has, of E] s1 by (auto simp: s2_def)
  have mv: "in_main bp" "direct bp"
    using advanced_moved [OF wf main(2,1) _ rec(2)] has by (auto simp: moved_def has_bytes_def)
  have new: "dec_out ?s = NoOut" "dec_data_out ?s = DataOut" by (simp_all add: dump_decoder_def RdbDecode_new_def)
  let ?s3 = "s2\<lparr>dec_type := t, dec_log := dec_log s2 @ [D_start_type t (offset (dec_bptr s2))], dec_bptr := bp, dec_rlen := L\<rparr>"
  have "decode_hdr E ?s = hdr_open E ?s3"
    using decode_hdr_start [of ?s s1 E] tab s1(2,3) new rec(1)
    by (simp add: s1_def andThen_Ok [where m = hdr_version] s2_def run_andThen(1,3))
  then have "decode_record E ?s = andThen (hdr_open E) (\<lambda>_. decode_body E) ?s3"
    by (simp add: decode_record_def andThen_def)
  then show ?thesis
  proof (rule that)
    show "avail (dec_bptr ?s3) = length ys"
      using rec(2) by (simp add: advanced_def s2_def pl_def)
  qed (use s1 mv rec(4) in \<open>simp_all add: in_ctx_def s2_def s1_def dump_decoder_def RdbDecode_new_def RdbBufptr_init_def\<close>)
qed

lemma moved_all:
  assumes "moved (avail bp) bp bp'" "direct bp"
  shows "avail bp' = 0 \<and> sav_avail bp' = 0"
proof -
  from assms have "avail (settled bp') = 0" "sav_avail (settled bp') = 0" by (simp_all add: moved_def in_main_def Let_def)
  then show ?thesis by (auto simp: settled_def direct_def pop_sav_def split: if_splits)
qed

lemma dump_runs:
  assumes "obj_ok ob" "compresses E K" "length (dump_bytes K ob) < 2 ^ 64"
  obtains s' where "decode_record E (dump_decoder (dump_bytes K ob) a) = (Ok (), s')"
    "map ev_val (dec_log s') = D_start_type (obj_type ob) 0 # body_calls ob (Some NoVal)"
    "avail (dec_bptr s') = 0" "sav_avail (dec_bptr s') = 0"
proof -
  have bs: "dump_bytes K ob = dump_of (RdbType_val (obj_type ob) # obj_hdr K ob @ obj_data K ob)"
    by (simp add: dump_bytes_def dump_payload_def)
  obtain s where s: "decode_record E (dump_decoder (dump_bytes K ob) a) = andThen (hdr_open E) (\<lambda>_. decode_body E) s"
    "obj_ctx K ob (Some NoVal) s" "in_main (dec_bptr s)" "direct (dec_bptr s)" "has_bytes (dec_bptr s) (obj_data K ob)"
    "avail (dec_bptr s) = length (obj_data K ob)" "dec_log s = [D_start_type (obj_type ob) 0]"
    using decode_dump_start [OF obj_type_not_bad len_hdr_obj [OF assms(1)] bs assms(3)] by blast
  from s(4,5) have "False \<or> direct (dec_bptr s)" "has_bytes (settled (dec_bptr s)) (obj_data K ob)" by simp_all
  from flowsD [OF body_flows [OF assms(1,2)] s(2,3) this] obtain x bp es where
    "andThen (hdr_open E) (\<lambda>_. decode_body E) s = (Ok x, s\<lparr>dec_bptr := bp, dec_log := dec_log s @ es\<rparr>)"
    "moved (avail (dec_bptr s)) (dec_bptr s) bp" "map ev_val es = body_calls ob (Some NoVal)"
    by (metis s(6))
  then show ?thesis
    using s(1,7) moved_all [OF _ s(4)] by (intro that [of "s\<lparr>dec_bptr := bp, dec_log := dec_log s @ es\<rparr>"]) simp_all
qed

section \<open>Properties\<close>


text \<open>A library for blocks of one byte, and a writer that compresses one string.\<close>

definition run_env :: rdb_env where
  "run_env = \<lparr>lzf_decompress = (\<lambda>z n. replicate n (hd z)), malloc_ok = (\<lambda>_. True), uninit = (\<lambda>_. 0)\<rparr>"

definition run_packer :: packer where
  "run_packer xs = (if xs = replicate 30 0x66 then Some [0x66] else None)"

lemma run_compresses: "compresses run_env run_packer"
  by (simp add: compresses_def run_env_def run_packer_def)


text \<open>C9: Damage to a dump is noticed. Any change inside eight consecutive bytes of the payload of a dump makes
  \<open>decode_hdr\<close> return \<open>RDB_ERR_CRC\<close> before any call to the output, unless the checksum of the undamaged
  dump is zero, which the format reserves for no checksum, or the changed bytes look like the start of
  a file.\<close>

theorem dump_damage_refused:
  assumes "dump_payload K ob = xs @ v @ ys" "length w = length v" "length v \<le> 8" "v \<noteq> w" "length (dump_bytes K ob) < 2 ^ 64"
    and "crc_ref 0 (dump_payload K ob @ [9, 0]) \<noteq> 0"
    and "bs = xs @ w @ ys @ drop (length (dump_payload K ob)) (dump_bytes K ob)" "take 7 bs \<noteq> rdb_magic"
  shows "\<exists>s'. decode_record E (dump_decoder bs a) = (Err RDB_ERR_CRC, s') \<and> dec_log s' = []"
proof -
  let ?c = "crc_ref 0 (dump_payload K ob @ [9, 0])" and ?s = "dump_decoder bs a"
  define s1 where "s1 = ?s\<lparr>dec_out := DataOut\<rparr>"
  have bs: "bs = (xs @ w @ ys) @ [9, 0] @ mem_store 8 ?c" using assms(7) by (simp add: dump_bytes_def dump_of_def)
  have len: "length bs < 2 ^ 64" using assms(1,2,5) by (simp add: bs dump_bytes_def dump_of_def)
  have ne: "crc_ref 0 ((xs @ w @ ys) @ [9, 0]) \<noteq> ?c"
    using crc_ref_burst [of w v 0 xs "ys @ [9, 0]"] assms(1-4) by auto
  have s1: "dec_bptr s1 = RdbBufptr_init (Ptr False bs 0) (length bs)" "\<not> dec_is_rdb_file s1" "dec_ver s1 = 0"
    "dec_tab s1 = jones_tab_zero \<or> dec_tab s1 = jones_crc64_init" "dec_log s1 = []"
    by (simp_all add: s1_def dump_decoder_def RdbDecode_new_def)
  from hdr_version_dump [OF bs assms(8) len s1(1,2,4)] ne assms(6) obtain tab where
    tab: "hdr_version s1 = (Err RDB_ERR_CRC, s1\<lparr>dec_crc := ?c, dec_ver := 9, dec_tab := tab\<rparr>)" by auto
  have new: "dec_out ?s = NoOut" "dec_data_out ?s = DataOut" by (simp_all add: dump_decoder_def RdbDecode_new_def)
  have "decode_hdr E ?s = (Err RDB_ERR_CRC, s1\<lparr>dec_crc := ?c, dec_ver := 9, dec_tab := tab\<rparr>)"
    using decode_hdr_start [of ?s s1 E] tab s1(3) new by (simp add: s1_def andThen_Err)
  then show ?thesis using s1(5) by (simp add: decode_record_def andThen_Err)
qed

theorem dump_damage_refused_witness:
  "dump_payload plain (ObString (ItStr [0x61])) = [0, 1, 0x61] \<and>
   (\<exists>E s'. decode_record E (dump_decoder ([0, 1, 0x62, 9, 0] @ mem_store 8 (crc_ref 0 [0, 1, 0x61, 9, 0])) 0) = (Err RDB_ERR_CRC, s'))"
proof -
  let ?ob = "ObString (ItStr [0x61])"
  have p: "dump_payload plain ?ob = [0, 1] @ [0x61] @ []"
    by (simp add: dump_payload_def obj_data_def obj_hdr_def hdr_bytes_def str_code_unat plain_def)
  have c: "crc_ref 0 (dump_payload plain ?ob @ [9, 0]) \<noteq> 0"
    by (simp add: p crc_shift_unfold_8 crc_shift_def crc_poly_def)
  show ?thesis
    using dump_damage_refused [OF p, where w = "[0x62]" and a = 0] c
    by (fastforce simp: p dump_bytes_def dump_of_def rdb_magic_def)
qed

section \<open>The entries of a stream\<close>

definition is_entry_call :: "'s RdbEvent \<Rightarrow> bool" where
  "is_entry_call e = (case e of D_stream_entry n i d ps \<Rightarrow> True | _ \<Rightarrow> False)"

lemma is_entry_call_val: "is_entry_call (ev_val e) = is_entry_call e"
  by (cases e) (simp_all add: is_entry_call_def)

lemma filter_numbered: "(\<And>n x. P (ev n x) \<longleftrightarrow> c) \<Longrightarrow> filter P (numbered ev num xs) = (if c then numbered ev num xs else [])"
  by (induction xs arbitrary: num) simp_all

lemma filter_in_part: "\<not> P (D_stream_start p) \<Longrightarrow> \<not> P (D_stream_end p) \<Longrightarrow> filter P (in_part p xs es) = (if xs = [] then [] else filter P es)"
  by (simp add: in_part_def)

lemma no_entry_in_groups:
  assumes "e \<in> set (in_part STREAM_GROUP_LIST gs (concat (numbered (group_calls cnt) 0 gs)))"
  shows "\<not> is_entry_call e"
proof -
  have "\<not> is_entry_call e" if "e \<in> set (consumer_calls k n c)" for k n c e
    using that unfolding consumer_calls_def by (auto dest!: set_in_part set_numbered simp: is_entry_call_def)
  moreover have "\<not> is_entry_call e" if "e \<in> set (pending_calls ps)" for ps e
    using that unfolding pending_calls_def by (auto dest!: set_numbered simp: is_entry_call_def)
  ultimately have "\<not> is_entry_call e" if "e \<in> set (group_calls k n g)" for k n g e
    using that unfolding group_calls_def by (auto dest!: set_in_part set_numbered simp: is_entry_call_def)
  with assms show ?thesis by (auto dest!: set_in_part set_numbered simp: is_entry_call_def)
qed

lemma entry_calls_count: "length (filter is_entry_call (stream_calls st)) = sum_list (map seen_live (st_nodes st))"
proof -
  let ?es = "seen_entries (st_nodes st)"
  have "is_entry_call (case x of (nd, it) \<Rightarrow> entry_call n nd it)" for n x
    by (cases x) (simp add: entry_call_def is_entry_call_def)
  then have "filter is_entry_call (numbered (\<lambda>n (nd, it). entry_call n nd it) 0 ?es) = numbered (\<lambda>n (nd, it). entry_call n nd it) 0 ?es"
    by (subst filter_numbered [where c = True]) simp_all
  then have "length (filter is_entry_call (in_part STREAM_ENTRY_LIST ?es (numbered (\<lambda>n (nd, it). entry_call n nd it) 0 ?es))) = length ?es"
    by (subst filter_in_part) (simp_all add: is_entry_call_def length_numbered)
  moreover have "filter is_entry_call (in_part STREAM_GROUP_LIST (st_groups st) (concat (numbered (group_calls (length (st_groups st))) 0 (st_groups st)))) = []"
    using no_entry_in_groups by (simp add: filter_empty_conv)
  ultimately show ?thesis
    by (simp add: stream_calls_def length_seen_entries is_entry_call_def)
qed

lemma seen_live_le: "seen_live nd \<le> nd_live nd"
  using nd_live_le [of nd] length_filter_le [of "\<lambda>it. \<not> it_deleted it" "seen_items nd"] by (simp add: seen_live_def)

lemma seen_live_all: "seen_live nd = nd_live nd \<longleftrightarrow> (\<forall>it \<in> set (take (nd_live nd) (nd_items nd)). \<not> it_deleted it)"
proof -
  have "seen_live nd = nd_live nd \<longleftrightarrow> length (filter (\<lambda>it. \<not> it_deleted it) (seen_items nd)) = length (seen_items nd)"
    using nd_live_le [of nd] by (simp add: seen_live_def)
  also have "\<dots> \<longleftrightarrow> (\<forall>it \<in> set (seen_items nd). \<not> it_deleted it)"
    by (metis filter_id_conv length_filter_less nat_neq_iff)
  finally show ?thesis by (simp add: seen_items_def)
qed

lemma sum_list_eq_iff: "(\<And>x. f x \<le> g x) \<Longrightarrow> sum_list (map f xs) = sum_list (map g xs) \<longleftrightarrow> (\<forall>x \<in> set xs. f x = (g x :: nat))"
proof (induction xs)
  case (Cons x xs)
  have "sum_list (map f xs) \<le> sum_list (map g xs)" using Cons.prems by (intro sum_list_mono)
  with Cons show ?case by (auto simp: antisym_conv2 dest: add_le_imp_le_left) (metis add_le_cancel_left add_le_mono antisym le_add_diff_inverse)+
qed simp


text \<open>Two entries with the field of their node, the first one deleted.\<close>

definition lossy_node :: stream_node where
  "lossy_node = \<lparr>nd_id = \<lparr>rec_ms = 1, rec_ser = 0\<rparr>, nd_deleted = 1, nd_master = [LpStr [0x66]],
     nd_items = [\<lparr>it_deleted = True, it_diff = \<lparr>rec_ms = 0, rec_ser = 0\<rparr>, it_fields = SameFields [LpStr [0x61]]\<rparr>,
       \<lparr>it_deleted = False, it_diff = \<lparr>rec_ms = 0, rec_ser = 1\<rparr>, it_fields = SameFields [LpStr [0x62]]\<rparr>]\<rparr>"

definition lossy_stream :: stream_obj where
  "lossy_stream = \<lparr>st_second = False, st_nodes = [lossy_node], st_num = 1, st_last = \<lparr>rec_ms = 1, rec_ser = 1\<rparr>,
     st_first = \<lparr>rec_ms = 0, rec_ser = 0\<rparr>, st_max_deleted = \<lparr>rec_ms = 0, rec_ser = 0\<rparr>, st_added = 0, st_groups = []\<rparr>"

lemma lossy_items:
  "node_items lossy_node = [LpInt 1, LpInt 1, LpInt 1, LpStr [0x66], LpInt 0, LpInt 3, LpInt 0, LpInt 0, LpStr [0x61], LpInt 4,
     LpInt 2, LpInt 0, LpInt 1, LpStr [0x62], LpInt 4]"
  by (simp add: node_items_def lossy_node_def nd_live_def entry_items_def item_flags_def)

lemma lossy_length: "length (lp_entries (node_items lossy_node)) = 33"
  unfolding lossy_items
  by (simp add: length_lp_int_entry length_lp_int_bytes lpnext_imm_code_def)
    (simp add: lp_entry_def lp_str_bytes_def length_lp_back lpback_size_def lpback_loop.simps)

lemma lossy_ok: "stream_ok lossy_stream"
proof -
  have "lp_ok (node_items lossy_node)"
    unfolding lp_ok_def lossy_length by (simp add: lossy_items lp_int_ok_def lpnext_imm_code_def)
  then show ?thesis
    by (simp add: stream_ok_def lossy_stream_def node_ok_def TMP_SIZE_def) (simp add: lossy_node_def TMP_SIZE_def)
qed

lemma lossy_size: "length (dump_bytes plain (ObStream lossy_stream)) < 2 ^ 64"
proof -
  have "length (hdr_bytes x) \<le> 9" for x by (rule length_hdr_bytes_le)
  from this [of 1] this [of 16] this [of 40] this [of 0] show ?thesis
    by (simp add: dump_bytes_def dump_of_def dump_payload_def obj_hdr_def obj_data_def stream_bytes_def lossy_stream_def node_bytes_def item_bytes_def
        length_id_bytes length_lp_bytes lossy_length id_lens_def count_bytes_def)
qed


section \<open>Compressed members of sorted sets\<close>

lemma rlen_unpacked:
  assumes K: "compresses E K" and z: "K xs = Some z" and C: "steady C" "C s"
    and s: "wf_bufptr (dec_bptr s)" "has_bytes (dec_bptr s) (item_code K (ItStr xs))"
  obtains x bp where "decode_rlen E s = (Ok x, s\<lparr>dec_bptr := bp\<rparr>)" "avail bp = 0"
proof -
  have has: "has_bytes (dec_bptr s) (lzf_hdr z xs @ z)" using s(2) z by (simp add: item_code_def)
  obtain bp1 where 1: "onb (decode RdbLength_zero) s = (Ok (lzf_len z xs), s\<lparr>dec_bptr := bp1\<rparr>)" "wf_bufptr bp1" "has_bytes bp1 z"
    using decode_len_hdr [OF len_hdr_lzf s(1) has] by blast
  obtain bp2 where 2: "decompress E (word_of_nat (length z)) (word_of_nat (length xs)) bp1 = (Ok True, bp2)" "unpacked xs (length z) bp1 bp2"
    by (rule decompress_runs [OF 1(2,3) K z])
  have bp2: "wf_bufptr bp2" "has_bytes bp2 xs" "avail bp2 = length xs"
    using unpacked_block [OF 1(2) _ 2(2)] 1(3) 2(2) by (auto simp: has_bytes_def unpacked_def)
  have "reads any_state (decode_str (lzf_len z xs)) xs (\<lambda>r. str_val r = Some (StrVal xs)) []"
    by (rule reads_str) (simp_all add: compresses_length [OF K z])
  then obtain x bp where 3: "decode_str (lzf_len z xs) (s\<lparr>dec_bptr := bp2\<rparr>) = (Ok x, s\<lparr>dec_bptr := bp\<rparr>)" "advanced (length xs) bp2 bp"
    by (rule readsD [where s = "s\<lparr>dec_bptr := bp2\<rparr>"]) (use bp2 in auto)
  have "onb (decompress E (word_of_nat (length z)) (word_of_nat (length xs))) (s\<lparr>dec_bptr := bp1\<rparr>) = (Ok True, s\<lparr>dec_bptr := bp2\<rparr>)"
    using 2(1) by (simp add: onb_def zoom_def)
  then have "decode_rlen E s = (Ok x, s\<lparr>dec_bptr := bp\<rparr>)"
    using 3(1) by (simp add: decode_rlen_def andThen_Ok [where m = "onb (decode RdbLength_zero)" and s = s, OF 1(1)] andThen_assoc andThen_Ok andThen_ret)
  then show ?thesis using that 3(2) bp2(3) by (simp add: advanced_def)
qed

lemma zset_score_trunc: "avail (dec_bptr s) = 0 \<Longrightarrow> zset_score s = (Err RDB_ERR_TRUNC, s)"
  by (simp add: zset_score_def incr_or_trunc_def onb_def zoom_def incr_def run_simps andThen_def throw_def gets_def)

lemma zset_loop_add: "zset_loop (m + k) num cnt E = andThen (zset_loop m num cnt E) (\<lambda>_. zset_loop k (num + m) cnt E)"
  by (induction m arbitrary: num) (simp_all add: andThen_ret andThen_assoc)

lemma reads_then_fails:
  assumes "reads C m xs A es" "steady C" "C s" "wf_bufptr (dec_bptr s)" "has_bytes (dec_bptr s) (xs @ ys)"
    and "\<And>x t. A x \<Longrightarrow> C t \<Longrightarrow> wf_bufptr (dec_bptr t) \<Longrightarrow> has_bytes (dec_bptr t) ys \<Longrightarrow> \<exists>u. f x t = (Err e, u)
      \<and> map ev_val (dec_log u) = map ev_val (dec_log t) @ fs"
  shows "\<exists>u. andThen m f s = (Err e, u) \<and> map ev_val (dec_log u) = map ev_val (dec_log s) @ es @ fs"
proof -
  obtain x bp l where 1: "m s = (Ok x, s\<lparr>dec_bptr := bp, dec_log := dec_log s @ l\<rparr>)" "A x"
    "advanced (length xs) (dec_bptr s) bp" "map ev_val l = es"
    using readsD [OF assms(1,3,4) has_bytes_prefix [OF assms(5)]] by blast
  let ?t = "s\<lparr>dec_bptr := bp, dec_log := dec_log s @ l\<rparr>"
  have "C ?t" using assms(2,3) by (simp add: steady_def)
  moreover have "wf_bufptr (dec_bptr ?t)" "has_bytes (dec_bptr ?t) ys" using advanced_steps [OF assms(4,5) 1(3)] by simp_all
  ultimately obtain u where "f x ?t = (Err e, u)" "map ev_val (dec_log u) = map ev_val (dec_log ?t) @ fs"
    using assms(6) [OF 1(2)] by blast
  then show ?thesis using 1(4) by (simp add: andThen_Ok [where m = m and f = f, OF 1(1)])
qed

text \<open>C38: Compressed members end a sorted set. Behind a compressed member \<open>decode_zset\<close> takes the score without looking for it
  in the input, from the block that is used up: a dump of either older format is refused as truncated at
  its first compressed member, after the calls of the members before it, whatever follows.\<close>

theorem zset_compressed_member:
  assumes "t \<in> {RDB_ZSET, RDB_ZSET_2}" "\<forall>(a, x) \<in> set ms. item_ok a \<and> score_ok t x" "compresses E K" "K xs = Some z"
    and "length ms < n" "n < 2 ^ 64"
    and "bs = dump_of (RdbType_val t # hdr_bytes (word_of_nat n) @ concat (map (\<lambda>(a, x). item_bytes a @ score_bytes x) ms)
      @ item_code K (ItStr xs) @ rest)" "length bs < 2 ^ 64"
  shows "\<exists>s'. decode_record E (dump_decoder bs a) = (Err RDB_ERR_TRUNC, s')
    \<and> map ev_val (dec_log s') = D_start_type t 0 # D_start_key t (Some NoVal)
      # numbered (\<lambda>i (a, x). D_zset i n (Some (item_val a)) (Some (score_val x))) 0 ms"
proof -
  let ?L = "RdbLength_zero\<lparr>l_len := word_of_nat n\<rparr>" and ?mb = "concat (map (\<lambda>(a, x). item_bytes a @ score_bytes x) ms)"
  let ?C = "in_ctx t ?L (Some NoVal)" and ?member = "item_code K (ItStr xs) @ rest"
  let ?calls = "numbered (\<lambda>i (a, x). D_zset i n (Some (item_val a)) (Some (score_val x))) 0 ms"
  have t: "t \<noteq> RDB_BAD_TYPE" using assms(1) by auto
  obtain s where s: "decode_record E (dump_decoder bs a) = andThen (hdr_open E) (\<lambda>_. decode_body E) s" "?C s"
    "in_main (dec_bptr s)" "has_bytes (dec_bptr s) (?mb @ ?member)" "dec_log s = [D_start_type t 0]"
    using decode_dump_start [OF t len_hdr_bytes assms(7,8), of E a] by blast
  have wf: "wf_bufptr (dec_bptr s)" using s(3) by (simp add: in_main_def)
  obtain k where k: "n = length ms + Suc k" using assms(5) by (metis add_Suc_right less_iff_Suc_add)
  have u: "unat (word_of_nat n :: u64) = n" using assms(6) by (rule unat_word_of_nat)
  have first: "\<exists>u. zset_loop (Suc k) num n E t' = (Err RDB_ERR_TRUNC, u) \<and> map ev_val (dec_log u) = map ev_val (dec_log t') @ []"
    if "?C t'" "wf_bufptr (dec_bptr t')" "has_bytes (dec_bptr t') ?member" for t' num
  proof -
    note t' = that
    obtain x bp where 1: "decode_rlen E t' = (Ok x, t'\<lparr>dec_bptr := bp\<rparr>)" "avail bp = 0"
      by (rule rlen_unpacked [OF assms(3,4) any_state t'(2) has_bytes_prefix [OF t'(3)]])
    then show ?thesis by (simp add: andThen_Ok [where m = "decode_rlen E", OF 1(1)] andThen_Err [OF zset_score_trunc])
  qed
  have "\<exists>u. andThen start_key (\<lambda>_. andThen (zset_loop n 0 n E) (\<lambda>_. end_key)) s = (Err RDB_ERR_TRUNC, u)
      \<and> map ev_val (dec_log u) = map ev_val (dec_log s) @ [D_start_key t (Some NoVal)] @ ?calls @ []"
  proof (rule reads_then_fails [OF reads_start_key steady_in_ctx s(2) wf])
    show "has_bytes (dec_bptr s) ([] @ ?mb @ ?member)" using s(4) by simp
    fix t' assume t': "?C t'" "wf_bufptr (dec_bptr t')" "has_bytes (dec_bptr t') (?mb @ ?member)"
    show "\<exists>u. andThen (zset_loop n 0 n E) (\<lambda>_. end_key) t' = (Err RDB_ERR_TRUNC, u)
        \<and> map ev_val (dec_log u) = map ev_val (dec_log t') @ ?calls @ []"
    proof -
      have split: "zset_loop n 0 n E = andThen (zset_loop (length ms) 0 n E) (\<lambda>_. zset_loop (Suc k) (length ms) n E)"
        using zset_loop_add [of "length ms" "Suc k" 0 n E] by (simp only: k [symmetric] add_0)
      have "\<exists>u. andThen (zset_loop (length ms) 0 n E) (\<lambda>_. zset_loop (Suc k) (length ms) n E) t' = (Err RDB_ERR_TRUNC, u)
          \<and> map ev_val (dec_log u) = map ev_val (dec_log t') @ ?calls @ []"
        by (rule reads_then_fails [OF reads_zset_loop [OF assms(2)] steady_in_ctx t']) (rule first)
      then show ?thesis unfolding split by (auto simp: andThen_Err)
    qed
  qed
  moreover have "andThen (hdr_open E) (\<lambda>_. decode_body E) s = andThen start_key (\<lambda>_. andThen (zset_loop n 0 n E) (\<lambda>_. end_key)) s"
    using s(2) assms(1) by (auto simp: hdr_open_def decode_body_def decode_zset_def run_andThen(3) in_ctx_def run_ret andThen_Ok u)
  ultimately show ?thesis using s(1,5) by auto
qed

theorem zset_compressed_member_witness:
  "\<exists>rest s'. rest = score_bytes (ScDouble 0) \<and>
     decode_record run_env (dump_decoder (dump_of (RdbType_val RDB_ZSET_2 # hdr_bytes 1 @ item_code run_packer (ItStr (replicate 30 0x66)) @ rest)) 0)
       = (Err RDB_ERR_TRUNC, s')"
proof -
  let ?bs = "dump_of (RdbType_val RDB_ZSET_2 # hdr_bytes (word_of_nat 1) @ concat (map (\<lambda>(a, x). item_bytes a @ score_bytes x) [])
    @ item_code run_packer (ItStr (replicate 30 0x66)) @ score_bytes (ScDouble 0))"
  have "length (item_code run_packer (ItStr (replicate 30 0x66))) \<le> 20"
    using add_mono [OF length_hdr_bytes_le length_hdr_bytes_le, of 1 30] by (simp add: item_code_def run_packer_def lzf_hdr_def)
  moreover have "length (score_bytes (ScDouble 0)) < 100" by simp
  ultimately have "length ?bs < 2 ^ 64"
    using length_hdr_bytes_le [of 1] by (simp add: dump_of_def)
  with zset_compressed_member [where t = RDB_ZSET_2 and ms = "[]" and n = 1 and bs = ?bs, OF _ _ run_compresses] show ?thesis
    by (fastforce simp: run_packer_def)
qed


end
