(* ===== verification/Rdb_Json.thy ===== *)
theory Rdb_Json
  imports Rdb_Elements
begin

text \<open>
  The outputs that print: \<open>JsonOutput\<close> and \<open>print_s\<close> (\<open>src/rdb_json.cpp\<close>) and \<open>ListOutput\<close>
  (\<open>src/rdb_main.cpp\<close>). What they write to \<open>out_bytes\<close> is appended to a list of bytes. The text of
  a floating point number, \<open>printf( "%g" )\<close>, is a parameter.
\<close>

section \<open>Printing\<close>

record out_stream =
  out_bytes :: "u8 list"

definition put_out :: "u8 list \<Rightarrow> ('a out_stream_scheme, unit) prog" where
  "put_out bs = modify (\<lambda>s. s\<lparr>out_bytes := out_bytes s @ bs\<rparr>)"

definition lit :: "string \<Rightarrow> u8 list" where
  "lit cs = map of_char cs"

text \<open>\<open>",\n"\<close>\<close>

definition comma_line :: "u8 list" where
  "comma_line = [0x2c, 0x0a]"

text \<open>\<open>%u\<close>, \<open>PRIu64\<close> and \<open>PRId64\<close>.\<close>

definition fmt_u :: "('a :: len) word \<Rightarrow> u8 list" where
  "fmt_u x = decimal (unat x)"

definition fmt_d :: "u64 \<Rightarrow> u8 list" where
  "fmt_d x = (if sint x < 0 then 0x2d # decimal (nat (- sint x)) else decimal (nat (sint x)))"

text \<open>
  \<open>%.*s\<close> with a length cut to \<open>int\<close>: the bytes up to a zero, at most as many as the length says;
  a negative length is no limit.
\<close>

definition fmt_s :: "RdbString \<Rightarrow> u8 list option" where
  "fmt_s r = (let bs = drop (ppos (str_s r)) (pmem (str_s r)); n = sint (ucast (str_u r) :: u32) in
     if 0 \<in> set (if n < 0 then bs else take (nat n) bs) then Some (takeWhile (\<lambda>c. c \<noteq> 0) bs)
     else if 0 \<le> n \<and> nat n \<le> length bs then Some (take (nat n) bs)
     else None)"

section \<open>print_s\<close>

text \<open>What one character of a string becomes.\<close>

definition print_char :: "u8 \<Rightarrow> u8 list" where
  "print_char c =
     (if 0x20 \<le> c \<and> c \<le> 126 then (if c = 0x27 \<or> c = 0x22 then [0x5c, c] else [c])
      else 0x5c # (if c = 0x08 then [0x62] else if c = 0x0c then [0x66] else if c = 0x0a then [0x6e]
        else if c = 0x0d then [0x72] else if c = 0x09 then [0x74]
        else [0x75, 0x30, 0x30 + (c div 100) mod 10, 0x30 + (c div 10) mod 10, 0x30 + c mod 10]))"

text \<open>
  Characters go through the buffer \<open>out[ 128 ]\<close>, which is written out when more than 120 bytes
  are in it. The list is the first \<open>sz\<close> bytes of the buffer; \<open>None\<close> is a write behind its end.
\<close>

definition buf_put :: "u8 list \<Rightarrow> u8 list \<Rightarrow> u8 list option" where
  "buf_put out xs = (if length out + length xs \<le> 128 then Some (out @ xs) else None)"

fun print_chars :: "u8 list \<Rightarrow> u8 list \<Rightarrow> u8 list \<Rightarrow> (u8 list \<times> u8 list) option" where
  "print_chars [] out sent = Some (out, sent)"
| "print_chars (c # cs) out sent = do {
     out \<leftarrow> buf_put out (print_char c);
     if length out > 120 then print_chars cs [] (sent @ out) else print_chars cs out sent }"

definition print_str :: "u8 list \<Rightarrow> bool \<Rightarrow> u8 list option" where
  "print_str cs quotes = do {
     out \<leftarrow> (if quotes then buf_put [] [0x22] else Some []);
     (out, sent) \<leftarrow> print_chars cs out [];
     out \<leftarrow> (if quotes then buf_put out [0x22] else Some out);
     Some (if length out > 0 then sent @ out else sent) }"

definition print_s :: "(u64 \<Rightarrow> u8 list) \<Rightarrow> RdbString \<Rightarrow> bool \<Rightarrow> ('a out_stream_scheme, unit) prog" where
  "print_s G r quotes = (case coding r of
       RDB_NO_VAL \<Rightarrow> put_out (lit ''\"nil\"'')
     | RDB_INT_VAL \<Rightarrow> put_out (fmt_d (str_u r))
     | RDB_STR_VAL \<Rightarrow> andThen (checked (rdn (pmem (str_s r)) (ppos (str_s r)) (unat (str_u r)))) (\<lambda>cs.
         andThen (checked (print_str cs quotes)) put_out)
     | RDB_DBL_VAL \<Rightarrow> put_out (G (str_u r)))"

section \<open>JsonOutput\<close>

record JsonOutput = out_stream +
  d_cnt :: u64
  show_meta :: bool

definition JsonOutput_new :: JsonOutput where
  "JsonOutput_new = \<lparr>out_bytes = [], d_cnt = 0, show_meta = False\<rparr>"

definition comma_nl :: "(JsonOutput, unit) prog" where
  "comma_nl = andThen (gets d_cnt) (\<lambda>n. andThen (modify (\<lambda>s. s\<lparr>d_cnt := n + 1\<rparr>)) (\<lambda>_.
     if n \<noteq> 0 then put_out comma_line else ret ()))"

text \<open>The functions for meta data return at once unless meta data is shown.\<close>

definition json_meta :: "(JsonOutput, unit) prog \<Rightarrow> (JsonOutput, unit) prog" where
  "json_meta m = andThen (gets show_meta) (\<lambda>b. if \<not> b then ret () else andThen comma_nl (\<lambda>_. m))"

definition json_init :: "(JsonOutput, unit) prog" where
  "json_init = put_out (lit ''{'' @ [0x0a])"

definition json_finish :: "bool \<Rightarrow> (JsonOutput, unit) prog" where
  "json_finish success = put_out (if success then [0x0a] @ lit ''}'' @ [0x0a] else [0x0a])"

text \<open>The text behind a key and the name of the type, for each type.\<close>

fun key_fmt :: "RdbType \<Rightarrow> (u8 list \<times> u8 list) option" where
  "key_fmt RDB_STRING = Some (lit '' : '', lit ''string'')"
| "key_fmt RDB_LIST = Some (lit '' : ['' @ [0x0a], lit ''list'')"
| "key_fmt RDB_LIST_ZIPLIST = Some (lit '' : ['' @ [0x0a], lit ''list'')"
| "key_fmt RDB_LIST_QUICKLIST = Some (lit '' : ['' @ [0x0a], lit ''list'')"
| "key_fmt RDB_LIST_QUICKLIST_2 = Some (lit '' : ['' @ [0x0a], lit ''list'')"
| "key_fmt RDB_SET = Some (lit '' : ['' @ [0x0a], lit ''set'')"
| "key_fmt RDB_SET_INTSET = Some (lit '' : ['' @ [0x0a], lit ''set'')"
| "key_fmt RDB_ZSET = Some (lit '' : {'' @ [0x0a], lit ''zset'')"
| "key_fmt RDB_ZSET_2 = Some (lit '' : {'' @ [0x0a], lit ''zset'')"
| "key_fmt RDB_ZSET_ZIPLIST = Some (lit '' : {'' @ [0x0a], lit ''zset'')"
| "key_fmt RDB_ZSET_LISTPACK = Some (lit '' : {'' @ [0x0a], lit ''zset'')"
| "key_fmt RDB_HASH = Some (lit '' : {'' @ [0x0a], lit ''hash'')"
| "key_fmt RDB_HASH_ZIPMAP = Some (lit '' : {'' @ [0x0a], lit ''hash'')"
| "key_fmt RDB_HASH_ZIPLIST = Some (lit '' : {'' @ [0x0a], lit ''hash'')"
| "key_fmt RDB_HASH_LISTPACK = Some (lit '' : {'' @ [0x0a], lit ''hash'')"
| "key_fmt RDB_STREAM_LISTPACK = Some (lit '' : {'' @ [0x0a], lit ''stream'')"
| "key_fmt RDB_STREAM_LISTPACKS_2 = Some (lit '' : {'' @ [0x0a], lit ''stream'')"
| "key_fmt RDB_MODULE_2 = Some (lit '' : '', lit ''module'')"
| "key_fmt RDB_MODULE = Some (lit '' : '', lit ''module'')"
| "key_fmt RDB_BAD_TYPE = None"

definition json_start_key :: "(u64 \<Rightarrow> u8 list) \<Rightarrow> RdbType \<Rightarrow> RdbString \<Rightarrow> (JsonOutput, unit) prog" where
  "json_start_key G t key = (case key_fmt t of None \<Rightarrow> ret () | Some (fmt, typ) \<Rightarrow>
     andThen comma_nl (\<lambda>_.
     andThen (if coding key \<noteq> RDB_NO_VAL then
         andThen (if coding key \<noteq> RDB_STR_VAL then put_out [0x22] else ret ()) (\<lambda>_.
         andThen (print_s G key True) (\<lambda>_.
         if coding key \<noteq> RDB_STR_VAL then put_out [0x22] else ret ()))
       else put_out ([0x22] @ typ @ [0x22])) (\<lambda>_.
     put_out fmt)))"

fun end_fmt :: "RdbType \<Rightarrow> u8 list" where
  "end_fmt RDB_LIST = [0x0a] @ lit '']''"
| "end_fmt RDB_LIST_ZIPLIST = [0x0a] @ lit '']''"
| "end_fmt RDB_LIST_QUICKLIST = [0x0a] @ lit '']''"
| "end_fmt RDB_LIST_QUICKLIST_2 = [0x0a] @ lit '']''"
| "end_fmt RDB_SET = [0x0a] @ lit '']''"
| "end_fmt RDB_SET_INTSET = [0x0a] @ lit '']''"
| "end_fmt RDB_ZSET = [0x0a] @ lit ''}''"
| "end_fmt RDB_ZSET_2 = [0x0a] @ lit ''}''"
| "end_fmt RDB_ZSET_ZIPLIST = [0x0a] @ lit ''}''"
| "end_fmt RDB_ZSET_LISTPACK = [0x0a] @ lit ''}''"
| "end_fmt RDB_HASH = [0x0a] @ lit ''}''"
| "end_fmt RDB_HASH_ZIPMAP = [0x0a] @ lit ''}''"
| "end_fmt RDB_HASH_ZIPLIST = [0x0a] @ lit ''}''"
| "end_fmt RDB_HASH_LISTPACK = [0x0a] @ lit ''}''"
| "end_fmt RDB_STREAM_LISTPACK = [0x0a] @ lit ''}''"
| "end_fmt RDB_STREAM_LISTPACKS_2 = [0x0a] @ lit ''}''"
| "end_fmt _ = []"

definition json_tab :: "bool \<Rightarrow> u8 list \<Rightarrow> nat \<Rightarrow> u8 list" where
  "json_tab test s n = (if test then s else []) @ concat (replicate n (lit ''  ''))"

definition json_pair :: "(u64 \<Rightarrow> u8 list) \<Rightarrow> nat \<Rightarrow> RdbString \<Rightarrow> RdbString \<Rightarrow> (JsonOutput, unit) prog" where
  "json_pair G num a b = andThen (put_out (json_tab (num \<noteq> 0) comma_line 1)) (\<lambda>_. andThen (print_s G a True) (\<lambda>_.
     andThen (put_out (lit '' : '')) (\<lambda>_. print_s G b True)))"

definition json_elem :: "(u64 \<Rightarrow> u8 list) \<Rightarrow> nat \<Rightarrow> RdbString \<Rightarrow> (JsonOutput, unit) prog" where
  "json_elem G num a = andThen (put_out (json_tab (num \<noteq> 0) comma_line 1)) (\<lambda>_. print_s G a True)"

section \<open>Streams in JSON\<close>

definition fmt_id :: "RdbStreamRecId \<Rightarrow> u8 list" where
  "fmt_id i = fmt_u (rec_ms i) @ lit ''-'' @ fmt_u (rec_ser i)"

definition json_field :: "RdbString \<times> RdbString \<Rightarrow> (JsonOutput, unit) prog" where
  "json_field = (\<lambda>(f, v).
     andThen (if coding f = RDB_STR_VAL then andThen (checked (fmt_s f)) (\<lambda>cs. put_out (lit ''\"'' @ cs @ lit ''\" : ''))
       else put_out (lit ''\"'' @ fmt_d (str_u f) @ lit ''\" : '')) (\<lambda>_.
     if coding v = RDB_STR_VAL then andThen (checked (fmt_s v)) (\<lambda>cs. put_out (lit ''\"'' @ cs @ lit ''\"''))
     else put_out (fmt_d (str_u v))))"

fun json_fields :: "nat \<Rightarrow> (RdbString \<times> RdbString) list \<Rightarrow> (JsonOutput, unit) prog" where
  "json_fields i [] = ret ()"
| "json_fields i (p # ps) = andThen (if i > 0 then put_out (lit '', '') else ret ()) (\<lambda>_.
     andThen (json_field p) (\<lambda>_. json_fields (Suc i) ps))"

definition json_stream_entry ::
  "nat \<Rightarrow> RdbStreamRecId \<Rightarrow> RdbStreamRecId \<Rightarrow> (RdbString \<times> RdbString) list option \<Rightarrow> (JsonOutput, unit) prog" where
  "json_stream_entry num i diff ps =
     andThen (put_out (json_tab (num \<noteq> 0) comma_line 2 @ lit ''{ \"id\" : \"''
       @ fmt_u (rec_ms i + rec_ms diff) @ lit ''-'' @ fmt_u (rec_ser i + rec_ser diff) @ lit ''\", '')) (\<lambda>_.
     andThen (checked ps) (\<lambda>ps. andThen (json_fields 0 ps) (\<lambda>_. put_out (lit '' }''))))"

definition json_stream_info :: "RdbStreamRecId \<Rightarrow> u64 \<Rightarrow> u64 \<Rightarrow> (JsonOutput, unit) prog" where
  "json_stream_info lid num_elems num_cgroups =
     put_out (lit ''  \"last_id\" : \"'' @ fmt_id lid @ lit ''\"'' @ comma_line
       @ lit ''  \"num_elems\" : '' @ fmt_u num_elems @ comma_line
       @ lit ''  \"num_cgroups\" : '' @ fmt_u num_cgroups)"

fun json_stream_start :: "StreamPart \<Rightarrow> u8 list" where
  "json_stream_start STREAM_ENTRY_LIST = json_tab False [] 1 @ lit ''\"entries\" : ['' @ [0x0a]"
| "json_stream_start STREAM_GROUP_LIST = comma_line @ json_tab False [] 1 @ lit ''\"groups\" : ['' @ [0x0a]"
| "json_stream_start STREAM_PENDING_LIST = comma_line @ json_tab False [] 2 @ lit ''\"pel\" : ['' @ [0x0a]"
| "json_stream_start STREAM_CONSUMER_LIST = comma_line @ json_tab False [] 3 @ lit ''\"consumers\" : ['' @ [0x0a]"
| "json_stream_start STREAM_CONSUMER_PENDING_LIST = comma_line @ json_tab False [] 4 @ lit ''\"pel\" : ['' @ [0x0a]"
| "json_stream_start STREAM_CONSUMER = []"
| "json_stream_start STREAM_GROUP = []"

fun json_stream_end :: "StreamPart \<Rightarrow> u8 list" where
  "json_stream_end STREAM_ENTRY_LIST = lit '' ],'' @ [0x0a]"
| "json_stream_end STREAM_GROUP_LIST = lit '' ]''"
| "json_stream_end STREAM_PENDING_LIST = lit '' ]''"
| "json_stream_end STREAM_CONSUMER_LIST = lit '' ]''"
| "json_stream_end STREAM_CONSUMER_PENDING_LIST = lit '' ]''"
| "json_stream_end STREAM_CONSUMER = lit '' }''"
| "json_stream_end STREAM_GROUP = lit '' }''"

definition json_stream_group :: "nat \<Rightarrow> RdbString \<Rightarrow> u64 \<Rightarrow> RdbStreamRecId \<Rightarrow> (JsonOutput, unit) prog" where
  "json_stream_group num gname pending lid = andThen (checked (fmt_s gname)) (\<lambda>cs.
     put_out (json_tab (num \<noteq> 0) comma_line 2 @ lit ''{ \"group\" : \"'' @ cs @ lit ''\",'' @
       lit '' \"pending\" : '' @ fmt_u pending @ lit '','' @
       lit '' \"last_id\" : \"'' @ fmt_id lid @ lit ''\"''))"

definition json_stream_pend :: "nat \<Rightarrow> RdbStreamRecId \<Rightarrow> u64 \<Rightarrow> u64 \<Rightarrow> (JsonOutput, unit) prog" where
  "json_stream_pend num i last_delivery delivery_cnt =
     put_out (json_tab (num \<noteq> 0) comma_line 4 @ lit ''{ \"id\" : \"'' @ fmt_id i @ lit ''\",'' @
       lit '' \"last_d\" : '' @ fmt_u last_delivery @ lit '','' @
       lit '' \"d_cnt\" : '' @ fmt_u delivery_cnt @ lit '' }'')"

definition json_stream_cons :: "nat \<Rightarrow> RdbString \<Rightarrow> u64 \<Rightarrow> u64 \<Rightarrow> (JsonOutput, unit) prog" where
  "json_stream_cons num cname pend_cnt last_seen = andThen (checked (fmt_s cname)) (\<lambda>cs.
     put_out (json_tab (num \<noteq> 0) comma_line 4 @ lit ''{ \"name\" : \"'' @ cs @ lit ''\",'' @
       lit '' \"pending\" : '' @ fmt_u pend_cnt @ lit '','' @
       lit '' \"last_seen\" : '' @ fmt_u last_seen))"

definition json_stream_cons_pend :: "nat \<Rightarrow> RdbStreamRecId \<Rightarrow> (JsonOutput, unit) prog" where
  "json_stream_cons_pend num i = put_out (json_tab (num \<noteq> 0) comma_line 5 @ lit ''\"'' @ fmt_id i @ lit ''\"'')"

section \<open>The calls\<close>

fun json_call :: "(u64 \<Rightarrow> u8 list) \<Rightarrow> RdbString RdbEvent \<Rightarrow> (JsonOutput, unit) prog" where
  "json_call G (D_idle i) = json_meta (put_out (lit ''\"idle\" : '' @ fmt_u i))"
| "json_call G (D_freq f) = json_meta (put_out (lit ''\"freq\" : '' @ fmt_u f))"
| "json_call G (D_aux var val) = json_meta (andThen (print_s G var True) (\<lambda>_. andThen (put_out (lit '' : '')) (\<lambda>_. print_s G val True)))"
| "json_call G (D_dbresize i j) = json_meta (put_out (lit ''\"dbresize\" : ['' @ fmt_u i @ lit '', '' @ fmt_u j @ lit '']''))"
| "json_call G (D_expired_ms ms) = json_meta (put_out (lit ''\"expire_ms\" : '' @ fmt_u ms))"
| "json_call G (D_expired sec) = json_meta (put_out (lit ''\"expire\" : '' @ fmt_u sec))"
| "json_call G (D_dbselect db) = json_meta (put_out (lit ''\"dbselect\" : '' @ fmt_u db))"
| "json_call G (D_start_type t off) = ret ()"
| "json_call G (D_start_key t key) = json_start_key G t key"
| "json_call G (D_end_key t) = put_out (end_fmt t)"
| "json_call G (D_string r) = print_s G r True"
| "json_call G (D_module r) = print_s G r True"
| "json_call G (D_hash num cnt f v) = json_pair G num f v"
| "json_call G (D_list num cnt v) = json_elem G num v"
| "json_call G (D_set num cnt v) = json_elem G num v"
| "json_call G (D_zset num cnt m x) = json_pair G num m x"
| "json_call G (D_stream_start c) = put_out (json_stream_start c)"
| "json_call G (D_stream_end c) = put_out (json_stream_end c)"
| "json_call G (D_stream_entry num i diff ps) = json_stream_entry num i diff ps"
| "json_call G (D_stream_info lid n c) = json_stream_info lid n c"
| "json_call G (D_stream_group num cnt gname pending lid) = json_stream_group num gname pending lid"
| "json_call G (D_stream_pend num cnt i lid deliv) = json_stream_pend num i lid deliv"
| "json_call G (D_stream_cons num cnt cname pend seen) = json_stream_cons num cname pend seen"
| "json_call G (D_stream_cons_pend num cnt i) = json_stream_cons_pend num i"

text \<open>The calls of an output in their order.\<close>

fun calls :: "('e \<Rightarrow> ('o, unit) prog) \<Rightarrow> 'e list \<Rightarrow> ('o, unit) prog" where
  "calls f [] = ret ()"
| "calls f (e # es) = andThen (f e) (\<lambda>_. calls f es)"

section \<open>ListOutput\<close>

record ListOutput = out_stream +
  list_cnt :: u64

definition list_call :: "(u64 \<Rightarrow> u8 list) \<Rightarrow> RdbString RdbEvent \<Rightarrow> (ListOutput, unit) prog" where
  "list_call G e = (case e of
       D_start_key t key \<Rightarrow> andThen (modify (\<lambda>s. s\<lparr>list_cnt := list_cnt s + 1\<rparr>)) (\<lambda>_.
         andThen (print_s G key False) (\<lambda>_. put_out [0x0a]))
     | _ \<Rightarrow> ret ())"

end
