(* ===== verification/Rdb_Print.thy ===== *)
theory Rdb_Print
  imports Rdb_Json
begin

text \<open>
  What the outputs print: \<open>print_s\<close> as the concatenation of its characters, however the buffer of
  128 bytes is emptied in between, and the lines of \<open>ListOutput\<close>.
\<close>

section \<open>Strings through the buffer\<close>

lemma length_print_char: "length (print_char c) \<le> 6"
  by (simp add: print_char_def)

text \<open>The buffer never holds more than 126 bytes before a character.\<close>

lemma print_chars_value:
  "length out \<le> 121 \<Longrightarrow> \<exists>out' sent'. print_chars cs out sent = Some (out', sent') \<and> length out' \<le> 121
     \<and> sent' @ out' = sent @ out @ concat (map print_char cs)"
proof (induction cs arbitrary: out sent)
  case (Cons c cs)
  have put: "buf_put out (print_char c) = Some (out @ print_char c)"
    using length_print_char [of c] Cons.prems by (simp add: buf_put_def)
  show ?case
  proof (cases "length (out @ print_char c) > 120")
    case True
    with put Cons.IH [of "[]" "sent @ out @ print_char c"] show ?thesis by auto
  next
    case False
    with put Cons.IH [of "out @ print_char c" sent] show ?thesis by auto
  qed
qed simp

definition quote :: "bool \<Rightarrow> u8 list" where
  "quote q = (if q then [0x22] else [])"

lemma print_str_value: "print_str cs q = Some (quote q @ concat (map print_char cs) @ quote q)"
proof -
  have "length (quote q) \<le> 121" by (simp add: quote_def)
  from print_chars_value [OF this, of cs "[]"]
  obtain out sent where 1: "print_chars cs (quote q) [] = Some (out, sent)" "length out \<le> 121"
    "sent @ out = quote q @ concat (map print_char cs)"
    by auto
  have "(if q then buf_put [] [0x22] else Some []) = Some (quote q)"
    "(if q then buf_put out [0x22] else Some out) = Some (out @ quote q)"
    using 1(2) by (auto simp: quote_def buf_put_def)
  then show ?thesis
    using 1 by (auto simp: print_str_def simp flip: append_assoc)
qed

text \<open>The text of a value.\<close>

fun val_text :: "(u64 \<Rightarrow> u8 list) \<Rightarrow> bool \<Rightarrow> rdb_val \<Rightarrow> u8 list" where
  "val_text G q NoVal = lit ''\"nil\"''"
| "val_text G q (IntVal x) = fmt_d x"
| "val_text G q (StrVal cs) = quote q @ concat (map print_char cs) @ quote q"
| "val_text G q (DblVal x) = G x"

lemma print_s_value: "str_val r = Some v \<Longrightarrow> print_s G r q s = (Ok (), s\<lparr>out_bytes := out_bytes s @ val_text G q v\<rparr>)"
  by (auto simp: print_s_def str_val_def put_out_def run_simps print_str_value split: RdbValueCoding.splits)


section \<open>ListOutput\<close>

text \<open>A line for each key that is announced.\<close>

fun list_text :: "(u64 \<Rightarrow> u8 list) \<Rightarrow> rdb_val option RdbEvent \<Rightarrow> u8 list" where
  "list_text G (D_start_key t (Some v)) = val_text G False v @ [0x0a]"
| "list_text G _ = []"

definition is_key_call :: "'s RdbEvent \<Rightarrow> bool" where
  "is_key_call e \<longleftrightarrow> (case e of D_start_key t k \<Rightarrow> True | _ \<Rightarrow> False)"

lemma list_call_value:
  assumes "ev_safe e"
  shows "\<exists>n. list_call G e s = (Ok (), s\<lparr>out_bytes := out_bytes s @ list_text G (ev_val e), list_cnt := n\<rparr>)"
proof (cases e)
  case (D_start_key t k)
  with assms obtain v where "str_val k = Some v" by (auto simp: ev_safe_def)
  with D_start_key show ?thesis
    by (intro exI [of _ "list_cnt s + 1"], cases s)
      (simp add: list_call_def run_andThen(4) put_out_def run_modify andThen_Ok [where m = "print_s G k False", OF print_s_value])
qed (auto simp: list_call_def run_ret intro!: exI [of _ "list_cnt s"])

lemma list_calls_value:
  "\<forall>e \<in> set es. ev_safe e \<Longrightarrow> \<exists>n. calls (list_call G) es s
     = (Ok (), s\<lparr>out_bytes := out_bytes s @ concat (map (\<lambda>e. list_text G (ev_val e)) es), list_cnt := n\<rparr>)"
proof (induction es arbitrary: s)
  case Nil
  then show ?case by (auto simp: run_ret intro!: exI [of _ "list_cnt s"])
next
  case (Cons e es)
  obtain n where n: "list_call G e s = (Ok (), s\<lparr>out_bytes := out_bytes s @ list_text G (ev_val e), list_cnt := n\<rparr>)"
    using list_call_value Cons.prems by fastforce
  from Cons.IH [of "s\<lparr>out_bytes := out_bytes s @ list_text G (ev_val e), list_cnt := n\<rparr>"] Cons.prems show ?case
    by (auto simp: andThen_Ok [where m = "list_call G e" and s = s, OF n])
qed

end
