(* ===== verification/Rdb_Orders.thy ===== *)
theory Rdb_Orders
  imports Rdb_Body
begin

text \<open>
  Relations between the state before and after that every body keeps (\<open>decoder_order\<close>): they hold of
  all the decoders of bodies as soon as they hold of the steps of the buffer pointer, of a call of the
  output and of \<open>start_key\<close>. Three of them are used: a record makes calls of its own type only, a body whose
  key the filter rejects is silent, and no body gives input back.
\<close>

section \<open>More programs that keep a relation\<close>

context state_order
begin

lemma keeps_option: "keeps m \<Longrightarrow> (\<And>x. keeps (f x)) \<Longrightarrow> keeps (case v of None \<Rightarrow> m | Some x \<Rightarrow> f x)"
  by (simp split: option.split)

lemma keeps_prod: "(\<And>x y. keeps (f x y)) \<Longrightarrow> keeps (case v of (x, y) \<Rightarrow> f x y)"
  by (simp split: prod.split)

lemma keeps_attempt: "keeps m \<Longrightarrow> keeps (attempt m)"
  unfolding keeps_def attempt_def by (auto split: prod.splits outcome.splits) (metis snd_conv)+

lemmas keeps_rules = keeps_pure keeps_if keeps_option keeps_prod keeps_andThen

end

section \<open>The calls of a type\<close>

text \<open>The calls that the body of a record may make, by the type of the record.\<close>

definition call_fits :: "RdbType \<Rightarrow> 's RdbEvent \<Rightarrow> bool" where
  "call_fits t e \<longleftrightarrow> (case e of
       D_start_key u k \<Rightarrow> u = t
     | D_end_key u \<Rightarrow> u = t
     | D_string v \<Rightarrow> t = RDB_STRING
     | D_module v \<Rightarrow> t \<in> {RDB_MODULE, RDB_MODULE_2}
     | D_hash n c f v \<Rightarrow> t \<in> {RDB_HASH, RDB_HASH_ZIPMAP, RDB_HASH_ZIPLIST, RDB_HASH_LISTPACK}
     | D_list n c v \<Rightarrow> t \<in> {RDB_LIST, RDB_LIST_ZIPLIST, RDB_LIST_QUICKLIST, RDB_LIST_QUICKLIST_2}
     | D_set n c v \<Rightarrow> t \<in> {RDB_SET, RDB_SET_INTSET}
     | D_zset n c m x \<Rightarrow> t \<in> {RDB_ZSET, RDB_ZSET_2, RDB_ZSET_ZIPLIST, RDB_ZSET_LISTPACK}
     | _ \<Rightarrow> stream_event e \<and> t \<in> {RDB_STREAM_LISTPACK, RDB_STREAM_LISTPACKS_2})"

lemma call_fits_simps [simp]:
  "call_fits t (D_start_key u k) \<longleftrightarrow> u = t" "call_fits t (D_end_key u) \<longleftrightarrow> u = t"
  "call_fits t (D_string v) \<longleftrightarrow> t = RDB_STRING" "call_fits t (D_module v) \<longleftrightarrow> t \<in> {RDB_MODULE, RDB_MODULE_2}"
  "call_fits t (D_hash n c f v) \<longleftrightarrow> t \<in> {RDB_HASH, RDB_HASH_ZIPMAP, RDB_HASH_ZIPLIST, RDB_HASH_LISTPACK}"
  "call_fits t (D_list n c v) \<longleftrightarrow> t \<in> {RDB_LIST, RDB_LIST_ZIPLIST, RDB_LIST_QUICKLIST, RDB_LIST_QUICKLIST_2}"
  "call_fits t (D_set n c v) \<longleftrightarrow> t \<in> {RDB_SET, RDB_SET_INTSET}"
  "call_fits t (D_zset n c f v) \<longleftrightarrow> t \<in> {RDB_ZSET, RDB_ZSET_2, RDB_ZSET_ZIPLIST, RDB_ZSET_LISTPACK}"
  by (simp_all add: call_fits_def)

lemma call_fits_stream: "stream_event e \<Longrightarrow> call_fits t e \<longleftrightarrow> t \<in> {RDB_STREAM_LISTPACK, RDB_STREAM_LISTPACKS_2}"
  by (cases e) (simp_all add: call_fits_def)

section \<open>Orders of the decoder\<close>

text \<open>
  \<open>T\<close> is the type of the records that the relation speaks of, or \<open>None\<close> when it speaks of all of them;
  \<open>fits\<close> are the calls it allows, among them those of these types.
\<close>

locale decoder_order = state_order R for R :: "RdbDecode \<Rightarrow> RdbDecode \<Rightarrow> bool" +
  fixes T :: "RdbType option" and fits :: "RdbString RdbEvent \<Rightarrow> bool"
  assumes incr_R: "incr n (dec_bptr s) = (r, bp) \<Longrightarrow> R s (s\<lparr>dec_bptr := bp\<rparr>)"
    and look_R: "look n (dec_bptr s) = (la, bp) \<Longrightarrow> R s (s\<lparr>dec_bptr := bp\<rparr>)"
    and decompress_R: "decompress E z l (dec_bptr s) = (ok, bp) \<Longrightarrow> R s (s\<lparr>dec_bptr := bp\<rparr>)"
    and log_R: "dec_out s = DataOut \<Longrightarrow> fits e \<Longrightarrow> R s (s\<lparr>dec_log := dec_log s @ [e]\<rparr>)"
    and start_key_R: "start_key s = (u, t) \<Longrightarrow> R s t"
    and other_type: "T = Some ty \<Longrightarrow> dec_type s \<noteq> ty \<Longrightarrow> R s t"
    and fits_type: "T = None \<or> T = Some ty \<Longrightarrow> call_fits ty e \<Longrightarrow> fits e"
begin

text \<open>What is done for a type needs to keep the relation for the types it speaks of only.\<close>

lemma keeps_gets_type:
  assumes "\<And>ty. T = None \<or> T = Some ty \<Longrightarrow> keeps (f ty)"
  shows "keeps (andThen (gets dec_type) f)"
  unfolding keeps_def
proof
  fix s
  show "R s (snd (andThen (gets dec_type) f s))"
  proof (cases "T = None \<or> T = Some (dec_type s)")
    case True
    then show ?thesis using assms by (simp add: run_andThen keeps_def)
  next
    case False
    then obtain ty where "T = Some ty" "dec_type s \<noteq> ty" by (cases T) auto
    then show ?thesis by (rule other_type)
  qed
qed

lemma keeps_onb: "(\<And>s r bp. m (dec_bptr s) = (r, bp) \<Longrightarrow> R s (s\<lparr>dec_bptr := bp\<rparr>)) \<Longrightarrow> keeps (onb m)"
  by (simp add: keeps_def onb_def zoom_def split: prod.split)

lemma keeps_bufptr: "keeps (onb (incr n))" "keeps (onb (look n))" "keeps (onb (decompress E z l))"
  by (rule keeps_onb, erule incr_R look_R decompress_R)+

lemma keeps_decode: "keeps (onb (decode L))"
  unfolding decode_def onb_rules by (intro keeps_rules keeps_bufptr)

lemma keeps_consume: "keeps (onb (consume E L))"
  unfolding consume_def onb_rules by (intro keeps_rules keeps_bufptr)

lemma keeps_start_key: "keeps start_key"
  unfolding keeps_def using start_key_R by (metis prod.collapse)

lemma keeps_emit: "fits e \<Longrightarrow> keeps (emit e)"
  using log_R refl_R
  by (auto simp: keeps_def emit_def call_out_def run_simps split: out_ptr.split)

lemma keeps_incr_or_trunc: "keeps (incr_or_trunc n)"
  unfolding incr_or_trunc_def by (intro keeps_rules keeps_bufptr)

lemma keeps_end_key: "keeps end_key"
  unfolding end_key_def by (rule keeps_gets_type, rule keeps_emit) (simp add: fits_type)

lemmas keeps_steps = keeps_rules keeps_bufptr keeps_decode keeps_consume keeps_start_key keeps_emit
  keeps_incr_or_trunc keeps_end_key

lemma keeps_decode_str: "keeps (decode_str L)"
  unfolding decode_str_def by (intro keeps_steps)

lemma keeps_decode_rlen: "keeps (decode_rlen E)"
  unfolding decode_rlen_def by (intro keeps_steps keeps_decode_str)

lemma keeps_string_loops:
  "(\<And>n c f v. fits (D_hash n c f v)) \<Longrightarrow> keeps (hash_loop k num cnt E)"
  "(\<And>n c v. fits (D_set n c v)) \<Longrightarrow> keeps (set_loop k num cnt E)"
  "(\<And>n c v. fits (D_list n c v)) \<Longrightarrow> keeps (list_loop k num cnt E)"
  by (induction k arbitrary: num) (auto intro!: keeps_steps keeps_decode_rlen)

lemma keeps_zset: "(\<And>n c m x. fits (D_zset n c m x)) \<Longrightarrow> keeps (zset_loop k num cnt E)"
proof (induction k arbitrary: num)
  case (Suc k)
  have "keeps zset_score" unfolding zset_score_def Let_def by (intro keeps_steps)
  with Suc show ?case by (auto intro!: keeps_steps keeps_decode_rlen)
qed (simp add: keeps_pure)

lemma keeps_intset_loop: "(\<And>n c v. fits (D_set n c v)) \<Longrightarrow> keeps (intset_loop k num cnt nbyte b)"
  by (induction k arbitrary: num b) (auto intro!: keeps_steps)

lemma keeps_module_skip: "keeps (module_skip k)"
  by (induction k) (auto intro!: keeps_steps split: option.split)

lemma keeps_elem_loop: "(\<And>n v. fits (ev n v)) \<Longrightarrow> keeps (elem_loop k nxt b ev num lv)"
  by (induction k arbitrary: num lv) (auto intro!: keeps_steps)

lemma keeps_pair_loop: "(\<And>n u v. fits (ev n u v)) \<Longrightarrow> keeps (pair_loop k nxt b ev num lv)"
  by (induction k arbitrary: num lv) (auto intro!: keeps_steps)

lemma keeps_each:
  "(\<And>n u v. fits (ev2 n u v)) \<Longrightarrow> keeps (each_pair f nxt k b ev2)"
  "(\<And>n v. fits (ev n v)) \<Longrightarrow> keeps (each_elem f nxt k b ev num)"
  unfolding each_pair_def each_elem_def by (auto intro!: keeps_steps keeps_elem_loop keeps_pair_loop)

lemma keeps_packed:
  "(\<And>n u v. fits (ev2 n u v)) \<Longrightarrow> keeps (zip_pairs z b ev2)" "(\<And>n v. fits (ev n v)) \<Longrightarrow> keeps (zip_elems z b ev num)"
  "(\<And>n u v. fits (ev2 n u v)) \<Longrightarrow> keeps (lp_pairs p b ev2)" "(\<And>n v. fits (ev n v)) \<Longrightarrow> keeps (lp_elems p b ev num)"
  unfolding zip_pairs_def zip_elems_def lp_pairs_def lp_elems_def by (auto intro!: keeps_each)

lemma keeps_quicklist_loops:
  assumes "\<And>n c v. fits (D_list n c v)"
  shows "keeps (quicklist_loop k num E)" "keeps (quicklist_2_loop k num E)"
  by (induction k arbitrary: num) (auto intro!: keeps_steps keeps_packed simp: assms)

text \<open>The bodies that keep a second variable next to the decoder.\<close>

sublocale pair: state_order "\<lambda>s t. R (snd s) (snd t)"
  by unfold_locales (auto intro: refl_R trans_R)

lemma map_keeps: "pair.keeps (onh m)" "keeps m' \<Longrightarrow> pair.keeps (ond m')"
  by (auto simp: pair.keeps_def keeps_def onh_def ond_def zoom_def refl_R split: prod.split) (metis snd_conv)

lemma entry_keeps: "pair.keeps (on_entry m)" "keeps m' \<Longrightarrow> pair.keeps (on_dec m')"
  by (auto simp: pair.keeps_def keeps_def on_entry_def on_dec_def zoom_def refl_R split: prod.split) (metis snd_conv)

lemmas pair_steps = pair.keeps_pure pair.keeps_if pair.keeps_option pair.keeps_prod pair.keeps_andThen map_keeps entry_keeps

lemma keeps_hptr: "pair.keeps (hptr_incr n)" "pair.keeps (zipmap_len c)"
  unfolding hptr_incr_def zipmap_len_def by (intro pair_steps)+

lemma keeps_zipmap_count: "pair.keeps zipmap_count"
  unfolding zipmap_count_def by (intro pair_steps keeps_hptr)

lemma keeps_zipmap:
  assumes "\<And>n c f v. fits (D_hash n c f v)"
  shows "pair.keeps (zipmap_loop k num cnt)"
proof -
  have "pair.keeps (zipmap_entry num cnt c)" for num c
    unfolding zipmap_entry_def by (intro pair_steps keeps_hptr keeps_emit assms)
  then show "pair.keeps (zipmap_loop k num cnt)"
    by (induction k arbitrary: num) (auto intro!: pair_steps keeps_hptr)
qed

lemma keeps_with_map: "pair.keeps m \<Longrightarrow> keeps (zoom (\<lambda>s. (h, s)) (\<lambda>t s. snd t) m)"
  unfolding keeps_def pair.keeps_def zoom_def by (auto split: prod.split) (metis snd_conv)

lemma keeps_decode_hash_zipmap:
  assumes "\<And>n c f v. fits (D_hash n c f v)"
  shows "keeps decode_hash_zipmap"
  unfolding decode_hash_zipmap_def
  by (intro keeps_steps keeps_with_map pair_steps keeps_zipmap_count keeps_zipmap assms)

lemma keeps_entries: "(\<And>e. stream_event e \<Longrightarrow> fits e) \<Longrightarrow> pair.keeps (entries_loop k E b z lv)"
  by (induction k arbitrary: lv) (auto intro!: pair_steps keeps_emit)

lemma keeps_stream_packs:
  assumes "\<And>e. stream_event e \<Longrightarrow> fits e"
  shows "pair.keeps (stream_packs k E)"
proof -
  have "pair.keeps (stream_pack E)"
    unfolding stream_pack_def by (intro pair_steps keeps_entries keeps_decode keeps_consume assms)
  then show ?thesis by (induction k) (auto intro!: pair_steps)
qed

lemma keeps_stream_reads: "keeps raw_len" "keeps read_rec_id" "keeps read_u64" "keeps (read_name E)"
  unfolding raw_len_def read_rec_id_def read_u64_def read_name_def
  by (intro keeps_steps keeps_attempt)+

lemma keeps_emit_if: "fits e \<Longrightarrow> keeps (emit_if c e)"
  unfolding emit_if_def by (intro keeps_steps)

lemma keeps_pend_loops:
  assumes "\<And>e. stream_event e \<Longrightarrow> fits e"
  shows "keeps (pend_loop k num cnt)" "keeps (cons_pend_loop k num cnt)"
  by (induction k arbitrary: num) (auto intro!: keeps_steps keeps_stream_reads assms)

lemma keeps_group_consumers:
  assumes "\<And>e. stream_event e \<Longrightarrow> fits e"
  shows "keeps (group_consumers E)"
proof -
  have "keeps (cons_loop k num cnt E)" for k num cnt
    by (induction k arbitrary: num) (auto intro!: keeps_steps keeps_stream_reads keeps_emit_if keeps_pend_loops assms)
  then show ?thesis unfolding group_consumers_def by (auto intro!: keeps_steps keeps_stream_reads keeps_emit_if assms)
qed

lemma keeps_stream_rest:
  assumes "\<And>e. stream_event e \<Longrightarrow> fits e"
  shows "keeps (stream_rest E)"
proof -
  have "keeps (group_loop k num cnt off E)" for k num cnt off
    by (induction k arbitrary: num off)
      (auto intro!: keeps_steps keeps_stream_reads keeps_emit_if keeps_pend_loops keeps_group_consumers assms)
  moreover have "keeps stream_ids" unfolding stream_ids_def by (intro keeps_steps keeps_stream_reads)
  ultimately show ?thesis unfolding stream_rest_def by (auto intro!: keeps_steps keeps_stream_reads keeps_emit_if assms)
qed

lemma keeps_decode_stream:
  assumes "\<And>e. stream_event e \<Longrightarrow> fits e"
  shows "keeps (decode_stream E)"
proof -
  have "pair.keeps (stream_body E)"
    unfolding stream_body_def
    by (auto intro!: pair_steps keeps_stream_packs keeps_stream_rest keeps_start_key keeps_emit_if assms)
  then show ?thesis
    by (auto simp: keeps_def pair.keeps_def decode_stream_def split: prod.split outcome.split) (metis snd_conv)+
qed

text \<open>The decoders that look at the type once more.\<close>

lemma keeps_decode_ziplist:
  assumes "T = None \<or> T = Some t" "t \<in> {RDB_HASH_ZIPLIST, RDB_ZSET_ZIPLIST, RDB_LIST_ZIPLIST}"
  shows "keeps decode_ziplist"
proof -
  have "keeps (case ty of
         RDB_ZSET_ZIPLIST \<Rightarrow> zip_pairs z b (\<lambda>num. D_zset num (unat (zllen z) div 2))
       | RDB_LIST_ZIPLIST \<Rightarrow> andThen (zip_elems z b (\<lambda>num. D_list num (unat (zllen z))) 0) (\<lambda>_. ret ())
       | _ \<Rightarrow> zip_pairs z b (\<lambda>num. D_hash num (unat (zllen z) div 2)))" if ty: "T = None \<or> T = Some ty" for ty z b
  proof (cases "T = None")
    case True
    then have "fits (D_zset n c u v)" "fits (D_list n c v)" "fits (D_hash n c u v)" for n c u v
      using fits_type [of RDB_ZSET] fits_type [of RDB_LIST] fits_type [of RDB_HASH] by simp_all
    then show ?thesis by (auto split: RdbType.split intro!: keeps_rules keeps_packed)
  next
    case False
    then have "ty = t" "T = Some t" using ty assms(1) by auto
    then show ?thesis using assms(2) fits_type [of t] by (auto intro!: keeps_rules keeps_packed)
  qed
  then show ?thesis unfolding decode_ziplist_def by (auto intro!: keeps_steps keeps_gets_type)
qed

lemma keeps_decode_listpack:
  assumes "T = None \<or> T = Some t" "t \<in> {RDB_HASH_LISTPACK, RDB_ZSET_LISTPACK}"
  shows "keeps decode_listpack"
  unfolding decode_listpack_def
  by (auto split: RdbType.split intro!: keeps_steps keeps_gets_type keeps_packed fits_type)

theorem keeps_decode_body: "keeps (decode_body E)"
  unfolding decode_body_def
proof (rule keeps_gets_type)
  fix ty assume ty: "T = None \<or> T = Some ty"
  note fit = fits_type [OF ty]
  have stream: "keeps (decode_stream E)" if "ty \<in> {RDB_STREAM_LISTPACK, RDB_STREAM_LISTPACKS_2}"
    by (rule keeps_decode_stream, rule fit) (use that in \<open>simp add: call_fits_stream\<close>)
  show "keeps (case ty of
       RDB_STRING \<Rightarrow> decode_string
     | RDB_HASH \<Rightarrow> decode_hash E
     | RDB_HASH_ZIPMAP \<Rightarrow> decode_hash_zipmap
     | RDB_SET \<Rightarrow> decode_set E
     | RDB_LIST \<Rightarrow> decode_list E
     | RDB_SET_INTSET \<Rightarrow> decode_set_intset
     | RDB_HASH_ZIPLIST \<Rightarrow> decode_ziplist
     | RDB_ZSET_ZIPLIST \<Rightarrow> decode_ziplist
     | RDB_LIST_ZIPLIST \<Rightarrow> decode_ziplist
     | RDB_LIST_QUICKLIST \<Rightarrow> decode_quicklist E
     | RDB_ZSET \<Rightarrow> decode_zset E
     | RDB_ZSET_2 \<Rightarrow> decode_zset E
     | RDB_STREAM_LISTPACK \<Rightarrow> decode_stream E
     | RDB_HASH_LISTPACK \<Rightarrow> decode_listpack
     | RDB_ZSET_LISTPACK \<Rightarrow> decode_listpack
     | RDB_LIST_QUICKLIST_2 \<Rightarrow> decode_quicklist_2 E
     | RDB_STREAM_LISTPACKS_2 \<Rightarrow> decode_stream E
     | RDB_MODULE_2 \<Rightarrow> decode_module
     | RDB_MODULE \<Rightarrow> decode_module
     | RDB_BAD_TYPE \<Rightarrow> throw RDB_ERR_NOTSUP)"
    using ty fit
    by (cases ty; auto simp: decode_string_def decode_hash_def decode_set_def decode_list_def decode_set_intset_def decode_quicklist_def decode_zset_def decode_quicklist_2_def decode_module_def
        intro!: keeps_steps keeps_decode_str keeps_string_loops keeps_decode_hash_zipmap
          keeps_intset_loop keeps_quicklist_loops keeps_zset keeps_module_skip keeps_decode_ziplist [OF ty] keeps_decode_listpack [OF ty] stream)
qed

end

text \<open>The version of a file or dump: only the position and \<open>avail\<close> change.\<close>

locale version_order = state_order R for R :: "RdbDecode \<Rightarrow> RdbDecode \<Rightarrow> bool" +
  assumes advance_R: "incr n (dec_bptr s) = (r, bp) \<Longrightarrow> R s (s\<lparr>dec_bptr := bp\<rparr>)"
    and buffer_R: "dec_bptr t = (dec_bptr s)\<lparr>avail := n\<rparr> \<Longrightarrow> R s t"
begin

lemma same_R: "dec_bptr t = dec_bptr s \<Longrightarrow> R s t"
  by (rule buffer_R [where n = "avail (dec_bptr s)"]) simp

lemma keeps_fields: "(\<And>s. dec_bptr (h s) = dec_bptr s) \<Longrightarrow> keeps (modify h)"
  by (rule keeps_modify) (rule same_R)

lemma keeps_peeks: "keeps (peek i)" "keeps (peek_back i)" "keeps (emit_data e)" "keeps (emit e)"
  unfolding peek_def peek_back_def emit_data_def emit_def call_out_def
  by (auto intro!: keeps_rules keeps_fields split: out_ptr.split)

lemma keeps_hdr_version: "keeps hdr_version"
proof -
  have digits: "keeps (hdr_digits is)" for "is"
    by (induction "is") (auto intro!: keeps_rules keeps_peeks keeps_fields)
  have "keeps (onb (modify (\<lambda>bp. bp\<lparr>avail := h bp\<rparr>)))" for h
    by (auto simp: keeps_def onb_def zoom_def modify_def intro: buffer_R)
  moreover have "keeps (onb (incr n))" for n
    by (auto simp: keeps_def onb_def zoom_def intro: advance_R split: prod.split)
  ultimately show ?thesis
    unfolding hdr_version_def hdr_file_def hdr_dump_def hdr_check_crc_def
    by (intro keeps_rules keeps_peeks keeps_fields digits) auto
qed

end

text \<open>The whole header: only the buffer pointer matters.\<close>

locale header_order = decoder_order R T fits + version_order R
  for R :: "RdbDecode \<Rightarrow> RdbDecode \<Rightarrow> bool" and T fits
begin

lemmas header_steps = keeps_peeks keeps_steps keeps_fields

lemma keeps_hdr_metas: "keeps (hdr_meta E m)" "keeps (hdr_metas k E)"
proof -
  have s: "keeps plain_len" "keeps (aux_string E)"
    unfolding plain_len_def aux_string_def by (intro header_steps)+
  show m: "keeps (hdr_meta E m)" for m
    by (cases m) (auto intro!: header_steps s)
  show "keeps (hdr_metas k E)"
    by (induction k) (auto intro!: header_steps m split: option.split)
qed

lemma keeps_hdr_record: "keeps (hdr_record E)"
  unfolding hdr_record_def hdr_key_def by (intro header_steps) auto

lemma keeps_decode_hdr: "keeps (decode_hdr E)"
  unfolding decode_hdr_def by (intro header_steps keeps_hdr_version keeps_hdr_metas keeps_hdr_record) auto

end

section \<open>The calls of a record fit its type\<close>

text \<open>A record of type \<open>t\<close> stays one, and adds calls of its type only.\<close>

definition typed_step :: "RdbType \<Rightarrow> RdbDecode \<Rightarrow> RdbDecode \<Rightarrow> bool" where
  "typed_step t s s' \<longleftrightarrow> (dec_type s = t \<longrightarrow> dec_type s' = t
     \<and> (\<exists>es. dec_log s' = dec_log s @ es \<and> (\<forall>e \<in> set es. call_fits t e)))"

lemma typed_step_frame: "dec_type s' = dec_type s \<Longrightarrow> dec_log s' = dec_log s \<Longrightarrow> typed_step t s s'"
  by (simp add: typed_step_def)

interpretation typed: decoder_order "typed_step t" "Some t" "call_fits t" for t
proof
  show "typed_step t s1 s3" if "typed_step t s1 s2" "typed_step t s2 s3" for s1 s2 s3
    using that by (fastforce simp: typed_step_def)
  show "typed_step t s s'" if "start_key s = (u, s')" for s u s'
    using that by (auto simp: typed_step_def start_key_def emit_def call_out_def run_simps andThen_def checked_def
        split: option.splits out_ptr.splits if_splits)
qed (auto simp: typed_step_def)

text \<open>A header ends with the type of the record, which it has announced.\<close>

interpretation quiet: state_order "\<lambda>s s'. dec_type s' = dec_type s \<and> dec_log s' = dec_log s \<and> dec_data_out s' = dec_data_out s"
  by unfold_locales auto

lemma quiet_onb: "quiet.keeps (onb m)"
  by (auto simp: quiet.keeps_def onb_def zoom_def split: prod.split)

lemma hdr_record_type:
  assumes "hdr_record E s = (Ok (), s')" "dec_data_out s' = DataOut"
  shows "dec_type s' \<noteq> RDB_BAD_TYPE \<and> (\<exists>off. dec_log s' = dec_log s @ [D_start_type (dec_type s') off])"
proof -
  have key: "quiet.keeps (hdr_key E)"
    unfolding hdr_key_def by (intro quiet.keeps_rules quiet.keeps_modify quiet_onb) simp_all
  define k where "k = andThen (onb (incr 1)) (\<lambda>_.
     andThen (modify (\<lambda>s. s\<lparr>dec_rlen := RdbLength_zero\<rparr>)) (\<lambda>_.
     andThen (onb (decode RdbLength_zero)) (\<lambda>L.
     andThen (modify (\<lambda>s. s\<lparr>dec_rlen := L\<rparr>)) (\<lambda>_.
     andThen (gets dec_is_rdb_file) (\<lambda>file.
     andThen (if file then hdr_key E else ret ()) (\<lambda>_.
     andThen (gets dec_rlen) (\<lambda>L.
     if l_is_lzf L then andThen (onb (decompress E (l_zlen L) (l_len L)))
       (\<lambda>ok. if ok then ret () else throw RDB_ERR_LZF)
     else ret ())))))))"
  have tail: "quiet.keeps k"
    unfolding k_def by (intro quiet.keeps_rules quiet.keeps_modify quiet_onb key) simp_all
  have peek: "quiet.keeps (peek 0)"
    unfolding peek_def by (intro quiet.keeps_rules)
  have rec: "hdr_record E s = andThen (gets dec_bptr) (\<lambda>bp.
     if avail bp = 0 then throw RDB_ERR_TRUNC
     else andThen (peek 0) (\<lambda>b.
     andThen (modify (\<lambda>s. s\<lparr>dec_type := get_rdb_type b\<rparr>)) (\<lambda>_.
     if get_rdb_type b = RDB_BAD_TYPE then throw RDB_ERR_TYPE
     else andThen (emit_data (D_start_type (get_rdb_type b) (offset bp))) (\<lambda>_. k)))) s"
    by (simp only: hdr_record_def k_def)
  obtain b s1 where 1: "peek 0 s = (Ok b, s1)" "get_rdb_type b \<noteq> RDB_BAD_TYPE"
    "andThen (emit_data (D_start_type (get_rdb_type b) (offset (dec_bptr s)))) (\<lambda>_. k) (s1\<lparr>dec_type := get_rdb_type b\<rparr>) = (Ok (), s')"
    using assms(1) unfolding rec run_andThen(3)
    by (auto simp: run_simps andThen_Ok_iff [where m = "peek 0"] split: if_splits)
  let ?s2 = "s1\<lparr>dec_type := get_rdb_type b\<rparr>" and ?e = "D_start_type (get_rdb_type b) (offset (dec_bptr s))"
  obtain s3 where 2: "emit_data ?e ?s2 = (Ok (), s3)" "k s3 = (Ok (), s')"
    using 1(3) by (auto simp: andThen_Ok_iff)
  from quiet.keepsD [OF tail 2(2)] have 3: "dec_type s' = dec_type s3" "dec_log s' = dec_log s3" "dec_data_out s3 = DataOut"
    using assms(2) by auto
  have "s3 = ?s2\<lparr>dec_log := dec_log ?s2 @ [?e]\<rparr>"
    using 2(1) 3(3) by (auto simp: emit_data_def call_out_def run_simps split: out_ptr.splits)
  then show ?thesis
    using 3(1,2) 1(2) quiet.keepsD [OF peek 1(1)] by auto
qed

text \<open>C7: Records are typed. A header that is accepted ends with a known type, which was announced last; and whatever the
  bytes of the body are and however it ends, the type stays, and every call the body makes is one of that
  type: hash entries for hashes only, elements for lists, the parts of streams for streams, with the same type
  at the start and at the end of the key.\<close>

theorem record_calls_typed:
  assumes "decode_hdr E s = (Ok (), s1)" "dec_data_out s1 = DataOut" "decode_body E s1 = (r, s2)"
  shows "dec_type s1 \<noteq> RDB_BAD_TYPE \<and> (\<exists>l off. dec_log s1 = l @ [D_start_type (dec_type s1) off])
    \<and> dec_type s2 = dec_type s1
    \<and> (\<exists>es. dec_log s2 = dec_log s1 @ es \<and> (\<forall>e \<in> set es. call_fits (dec_type s1) e))"
proof -
  obtain s0 where "hdr_record E s0 = (Ok (), s1)"
    using assms(1) unfolding decode_hdr_def by (auto simp: run_andThen(3,4) andThen_Ok_iff run_simps split: if_splits)
  from hdr_record_type [OF this assms(2)] typed.keepsD [OF typed.keeps_decode_body [of "dec_type s1" E] assms(3)]
  show ?thesis by (auto simp: typed_step_def)
qed

theorem record_calls_typed_witness:
  "\<exists>s1 r s2. decode_hdr \<lparr>lzf_decompress = (\<lambda>_ _. []), malloc_ok = (\<lambda>_. True), uninit = (\<lambda>_. 0)\<rparr>
      ((RdbDecode_new (RdbBufptr_init (Ptr False [0, 1, 0x61] 0) 3))\<lparr>dec_data_out := DataOut, dec_ver := 9\<rparr>) = (Ok (), s1)
    \<and> dec_data_out s1 = DataOut \<and> decode_body \<lparr>lzf_decompress = (\<lambda>_ _. []), malloc_ok = (\<lambda>_. True), uninit = (\<lambda>_. 0)\<rparr> s1 = (r, s2)
    \<and> dec_type s2 = dec_type s1"
proof -
  let ?E = "\<lparr>lzf_decompress = (\<lambda>_ _. []), malloc_ok = (\<lambda>_. True), uninit = (\<lambda>_. 0)\<rparr>"
  let ?s = "(RdbDecode_new (RdbBufptr_init (Ptr False [0, 1, 0x61] 0) 3))\<lparr>dec_data_out := DataOut, dec_ver := 9\<rparr>"
  have "case decode_hdr ?E ?s of (Ok u, s1) \<Rightarrow> dec_data_out s1 = DataOut | _ \<Rightarrow> False"
    by code_simp
  then obtain s1 where s1: "decode_hdr ?E ?s = (Ok (), s1)" "dec_data_out s1 = DataOut"
    by (auto split: prod.splits outcome.splits)
  obtain r s2 where "decode_body ?E s1 = (r, s2)" by fastforce
  with record_calls_typed [OF s1 this] s1 show ?thesis by blast
qed

section \<open>A filtered key is silent\<close>

text \<open>The filter refuses the key.\<close>

definition rejected :: "RdbDecode \<Rightarrow> bool" where
  "rejected s \<longleftrightarrow> (\<exists>f. dec_filter s = Some f \<and> f (dec_key s) = Some False)"

definition silent_step :: "RdbDecode \<Rightarrow> RdbDecode \<Rightarrow> bool" where
  "silent_step s t \<longleftrightarrow> dec_filter t = dec_filter s \<and> dec_key t = dec_key s
     \<and> (rejected s \<and> dec_out s = NullOut \<longrightarrow> dec_out t = NullOut \<and> dec_log t = dec_log s)"

lemma start_key_rejected: "rejected s \<Longrightarrow> start_key s = (Ok (), s\<lparr>dec_out := NullOut\<rparr>)"
  by (auto simp: rejected_def start_key_def emit_def call_out_def run_simps)

lemma start_key_frame: "start_key s = (u, t) \<Longrightarrow> dec_filter t = dec_filter s \<and> dec_key t = dec_key s \<and> dec_bptr t = dec_bptr s"
  by (auto simp: start_key_def emit_def call_out_def run_simps andThen_def checked_def
      split: option.splits out_ptr.splits if_splits)

interpretation silent: decoder_order silent_step None "\<lambda>_. True"
proof
  show "silent_step s t" if "start_key s = (u, t)" for s u t
    using that start_key_frame [OF that] start_key_rejected [of s] by (auto simp: silent_step_def)
qed (auto simp: silent_step_def rejected_def)

text \<open>Every body starts its key before it calls the output, so what the output was does not matter.\<close>

lemma start_key_out: "rejected s \<Longrightarrow> start_key (s\<lparr>dec_out := q\<rparr>) = start_key s"
  using start_key_rejected [of s] start_key_rejected [of "s\<lparr>dec_out := q\<rparr>"] by (simp add: rejected_def)

lemma decode_body_out:
  assumes "rejected s"
  shows "dec_log (snd (decode_body E (s\<lparr>dec_out := NullOut\<rparr>))) = dec_log (snd (decode_body E s))"
  using start_key_out [OF assms] start_key_rejected [OF assms]
  by (auto simp: decode_body_def run_simps andThen_def decode_string_def decode_hash_def decode_hash_zipmap_def decode_set_def decode_list_def
    decode_set_intset_def decode_ziplist_def decode_quicklist_def decode_zset_def decode_listpack_def
    decode_quicklist_2_def decode_module_def decode_stream_def stream_body_def on_dec_def zoom_def split: RdbType.split)

text \<open>C8: A key that the filter refuses produces no output: whatever the type of the object and the bytes of
  its body, and however the decoding ends, \<open>decode_body\<close> makes no call to the output, not even when the
  record before was shown.\<close>

theorem filtered_key_silent:
  assumes "dec_filter s = Some f" "f (dec_key s) = Some False"
  shows "dec_log (snd (decode_body E s)) = dec_log s"
proof -
  let ?s = "s\<lparr>dec_out := NullOut\<rparr>"
  have r: "rejected s" using assms by (auto simp: rejected_def)
  have "silent_step ?s (snd (decode_body E ?s))"
    using silent.keeps_decode_body by (simp add: silent.keeps_def)
  then show ?thesis using r decode_body_out [OF r] by (auto simp: silent_step_def rejected_def)
qed

theorem filtered_key_silent_witness:
  "dec_log (snd (decode_body \<lparr>lzf_decompress = (\<lambda>_ _. []), malloc_ok = (\<lambda>_. True), uninit = (\<lambda>_. 0)\<rparr>
     ((RdbDecode_new (RdbBufptr_init (Ptr False [1, 0x61] 0) 2))\<lparr>dec_filter := Some (\<lambda>_. Some False),
        dec_out := DataOut, dec_data_out := DataOut, dec_type := RDB_LIST\<rparr>))) = []"
  using filtered_key_silent [of "(RdbDecode_new (RdbBufptr_init (Ptr False [1, 0x61] 0) 2))\<lparr>dec_filter := Some (\<lambda>_. Some False),
        dec_out := DataOut, dec_data_out := DataOut, dec_type := RDB_LIST\<rparr>" "\<lambda>_. Some False"]
  by (simp add: RdbDecode_new_def)

section \<open>Input is used up\<close>

text \<open>
  The bytes behind the read position, in the buffer and in the one decompression has put aside; the
  blocks that decompression allocates do not count. Such blocks are only in use when
  \<open>alloced_mem\<close> has them. Since \<open>avail\<close> may be wrong (\<open>hdr_version\<close> can make it wrap), the
  measure is on the block and the position.
\<close>

fun input_len :: "ptr \<Rightarrow> nat" where
  "input_len (Ptr h m i) = (if h then 0 else length m - i)"
| "input_len Null = 0"
| "input_len Freed = 0"

definition input_left :: "RdbBufptr \<Rightarrow> nat" where
  "input_left bp = input_len (buf bp) + input_len (sav bp)"

fun in_heap :: "ptr \<Rightarrow> bool" where
  "in_heap (Ptr h m i) = h"
| "in_heap Null = False"
| "in_heap Freed = False"

definition tidy :: "RdbBufptr \<Rightarrow> bool" where
  "tidy bp \<longleftrightarrow> (alloced_mem bp = [] \<longrightarrow> \<not> in_heap (buf bp) \<and> \<not> in_heap (sav bp))"

definition uses_up :: "RdbBufptr \<Rightarrow> RdbBufptr \<Rightarrow> bool" where
  "uses_up bp bp' \<longleftrightarrow> input_left bp' \<le> input_left bp \<and> (tidy bp \<longrightarrow> tidy bp')"

lemma in_heap_padd: "in_heap (padd p n) = in_heap p"
  by (cases p) auto

lemma input_len_padd: "input_len (padd p n) \<le> input_len p"
  by (cases p) auto

lemma input_len_heap [simp]: "in_heap p \<Longrightarrow> input_len p = 0"
  by (cases p; simp)

lemma in_heap_pfree: "\<not> in_heap (pfree p)"
  by (cases p) auto

lemma input_len_pfree: "input_len (pfree p) \<le> input_len p"
  by (cases p) auto

lemma uses_up_refl: "uses_up bp bp"
  by (simp add: uses_up_def)

lemma uses_up_trans: "uses_up a b \<Longrightarrow> uses_up b c \<Longrightarrow> uses_up a c"
  by (auto simp: uses_up_def)

lemma uses_up_frame: "uses_up bp (bp\<lparr>lookahead := la\<rparr>)" "uses_up bp (bp\<lparr>avail := n\<rparr>)"
  by (simp_all add: uses_up_def input_left_def tidy_def)

lemma incr_uses_up: "incr n bp = (r, bp') \<Longrightarrow> uses_up bp bp'"
  by (auto simp: incr_def uses_up_def input_left_def tidy_def in_heap_padd intro: input_len_padd split: if_splits intro!: add_mono)

lemma pop_sav_uses_up: "uses_up bp (pop_sav bp)"
  by (auto simp: uses_up_def pop_sav_def input_left_def tidy_def)

lemma look_uses_up:
  assumes "look n bp = (r, bp')"
  shows "uses_up bp bp'"
proof -
  define bp1 where "bp1 = (if avail bp = 0 \<and> sav_avail bp > 0 then pop_sav bp else bp)"
  have 1: "uses_up bp bp1" by (simp add: bp1_def pop_sav_uses_up uses_up_refl)
  have "bp' = bp1 \<or> (\<exists>la. bp' = bp1\<lparr>lookahead := la\<rparr>)"
    using assms unfolding look_def bp1_def [symmetric] by (auto simp: Let_def split: option.splits)
  with 1 show ?thesis using uses_up_trans uses_up_frame(1) by blast
qed

lemma decompress_uses_up:
  assumes "decompress E z n bp = (r, bp')"
  shows "uses_up bp bp'"
proof -
  obtain b bp1 where i: "incr (unat z) bp = (b, bp1)" by fastforce
  have "uses_up bp1 bp'"
    using assms i
    by (auto simp: decompress_def andThen_def run_simps Let_def checked_def uses_up_def input_left_def tidy_def
        split: outcome.splits option.splits if_splits)
  then show ?thesis using uses_up_trans incr_uses_up [OF i] by blast
qed

lemma free_alloced_uses_up: "uses_up bp (free_alloced bp)" "alloced_mem (free_alloced bp) = []"
  by (auto simp: free_alloced_def Let_def uses_up_def input_left_def tidy_def pop_sav_def in_heap_pfree
      intro: add_mono trans_le_add2 input_len_pfree)

interpretation used: header_order "\<lambda>s t. uses_up (dec_bptr s) (dec_bptr t)" None "\<lambda>_. True"
proof
  show "uses_up (dec_bptr s) (dec_bptr t)" if "start_key s = (u, t)" for s u t
    using start_key_frame [OF that] by (simp add: uses_up_refl)
qed (auto intro: uses_up_refl uses_up_trans incr_uses_up look_uses_up decompress_uses_up uses_up_frame)

section \<open>The header takes input\<close>

text \<open>The version keeps the block the input is in.\<close>

interpretation same_block: version_order "\<lambda>s t. in_heap (buf (dec_bptr t)) = in_heap (buf (dec_bptr s))"
  by unfold_locales (auto simp: incr_def in_heap_padd split: if_splits)

text \<open>A byte that was looked at and is then taken.\<close>

lemma take_byte:
  assumes "peek 0 s = (Ok b, s')" "\<not> in_heap (buf (dec_bptr s))"
  shows "s' = s" "incr 1 (dec_bptr s) = (Ok (Some p), bp) \<Longrightarrow> input_left bp < input_left (dec_bptr s)"
  using assms
  by (cases "buf (dec_bptr s)"; auto simp: peek_def run_simps checked_def rd8_def incr_def input_left_def
      split: option.splits if_splits)+

lemma used_onb:
  assumes "used.keeps m" "m s = (r, t)"
  shows "input_left (dec_bptr t) \<le> input_left (dec_bptr s)"
  using used.keepsD [OF assms] by (simp add: uses_up_def)

lemma hdr_metas_takes:
  assumes "hdr_metas k E s = (Ok u, t)" "\<not> in_heap (buf (dec_bptr s))"
  shows "dec_bptr t = dec_bptr s \<or> input_left (dec_bptr t) < input_left (dec_bptr s)"
proof (cases k)
  case 0
  with assms show ?thesis by (simp add: run_simps)
next
  case (Suc k')
  show ?thesis
  proof (cases "avail (dec_bptr s) = 0")
    case True
    with assms Suc show ?thesis by (simp add: run_simps)
  next
    case False
    with assms(1) Suc obtain b s1 where p: "peek 0 s = (Ok b, s1)" "(case meta_of b of None \<Rightarrow> ret ()
       | Some m \<Rightarrow> andThen (onb (incr 1)) (\<lambda>_. andThen (hdr_meta E m) (\<lambda>_. hdr_metas k' E))) s1 = (Ok u, t)"
      by (auto simp: run_simps andThen_Ok_iff)
    note s1 = take_byte [OF p(1) assms(2)]
    show ?thesis
    proof (cases "meta_of b")
      case None
      with p(2) s1(1) show ?thesis by (simp add: run_simps)
    next
      case (Some m)
      with p(2) s1(1) obtain x s2 where i: "onb (incr 1) s = (Ok x, s2)"
        "andThen (hdr_meta E m) (\<lambda>_. hdr_metas k' E) s2 = (Ok u, t)"
        by (auto simp: andThen_Ok_iff)
      have "input_left (dec_bptr t) \<le> input_left (dec_bptr s2)"
        using i(2) by (rule used_onb [rotated]) (intro used.keeps_rules used.keeps_hdr_metas)
      moreover have "input_left (dec_bptr s2) < input_left (dec_bptr s)"
        using i(1) s1(2) [of "buf (dec_bptr s)"] False
        by (auto simp: onb_def zoom_def incr_def split: prod.splits if_splits)
      ultimately show ?thesis by simp
    qed
  qed
qed

lemma hdr_record_takes:
  assumes "hdr_record E s = (Ok u, t)" "\<not> in_heap (buf (dec_bptr s))"
  shows "input_left (dec_bptr t) < input_left (dec_bptr s)"
proof -
  have avail: "avail (dec_bptr s) \<noteq> 0"
    using assms(1) by (auto simp: hdr_record_def run_simps split: if_splits)
  with assms(1) obtain b where p: "peek 0 s = (Ok b, s)"
    using take_byte(1) [OF _ assms(2)] by (auto simp: hdr_record_def run_simps andThen_Ok_iff)
  define s1 where "s1 = s\<lparr>dec_type := get_rdb_type b\<rparr>"
  define k where "k = (\<lambda>_ :: ptr option.
       andThen (modify (\<lambda>s. s\<lparr>dec_rlen := RdbLength_zero\<rparr>)) (\<lambda>_.
       andThen (onb (decode RdbLength_zero)) (\<lambda>L.
       andThen (modify (\<lambda>s. s\<lparr>dec_rlen := L\<rparr>)) (\<lambda>_.
       andThen (gets dec_is_rdb_file) (\<lambda>file.
       andThen (if file then hdr_key E else ret ()) (\<lambda>_.
       andThen (gets dec_rlen) (\<lambda>L.
       if l_is_lzf L then andThen (onb (decompress E (l_zlen L) (l_len L)))
         (\<lambda>ok. if ok then ret () else throw RDB_ERR_LZF)
       else ret ())))))))"
  have k: "used.keeps (k x)" for x
    unfolding k_def hdr_key_def by (intro used.header_steps) auto
  have hdr: "hdr_record E = andThen (gets dec_bptr) (\<lambda>bp.
     if avail bp = 0 then throw RDB_ERR_TRUNC
     else andThen (peek 0) (\<lambda>b.
     andThen (modify (\<lambda>s. s\<lparr>dec_type := get_rdb_type b\<rparr>)) (\<lambda>_.
     if get_rdb_type b = RDB_BAD_TYPE then throw RDB_ERR_TYPE
     else andThen (emit_data (D_start_type (get_rdb_type b) (offset bp))) (\<lambda>_. andThen (onb (incr 1)) k))))"
    unfolding hdr_record_def k_def ..
  from assms(1) avail obtain s2 where e: "emit_data (D_start_type (get_rdb_type b) (offset (dec_bptr s))) s1 = (Ok (), s2)"
    "andThen (onb (incr 1)) k s2 = (Ok u, t)"
    unfolding hdr s1_def
    by (auto simp: run_simps andThen_Ok [where m = "peek 0", OF p] andThen_Ok_iff split: if_splits)
  have s2: "dec_bptr s2 = dec_bptr s"
    using e(1) by (auto simp: s1_def emit_data_def call_out_def run_simps split: out_ptr.splits)
  from e(2) obtain x s3 where i: "onb (incr 1) s2 = (Ok x, s3)" "k x s3 = (Ok u, t)"
    by (auto simp: andThen_Ok_iff)
  have "input_left (dec_bptr s3) < input_left (dec_bptr s)"
    using i(1) take_byte(2) [OF p assms(2), of "buf (dec_bptr s)"] avail s2
    by (auto simp: onb_def zoom_def incr_def split: prod.splits if_splits)
  then show ?thesis using used_onb [where m = "k x", OF k i(2)] by simp
qed

text \<open>A header that is accepted has used up input.\<close>

lemma decode_hdr_takes:
  assumes "decode_hdr E s = (Ok u, t)" "\<not> in_heap (buf (dec_bptr s))"
  shows "input_left (dec_bptr t) < input_left (dec_bptr s)"
proof -
  define s0 where "s0 = (if dec_out s = NoOut then s\<lparr>dec_out := dec_data_out s\<rparr> else s)"
  have s0: "dec_bptr s0 = dec_bptr s" by (simp add: s0_def)
  from assms(1) obtain x s1 where v: "(if dec_ver s0 = 0 then hdr_version else ret ()) s0 = (Ok x, s1)"
    and rest: "andThen (gets id) (\<lambda>s.
     andThen (if dec_is_rdb_file s then hdr_metas (Suc (avail (dec_bptr s) + sav_avail (dec_bptr s))) E else ret ()) (\<lambda>_.
     hdr_record E)) s1 = (Ok u, t)"
    by (auto simp: decode_hdr_def run_simps andThen_Ok_iff s0_def simp del: hdr_metas.simps split: if_splits)
  have 1: "input_left (dec_bptr s1) \<le> input_left (dec_bptr s)"
    using used_onb [where m = hdr_version and s = s0, OF used.keeps_hdr_version] v s0 by (auto simp: run_ret split: if_splits)
  have heap: "\<not> in_heap (buf (dec_bptr s1))"
    using same_block.keepsD [where m = hdr_version and s = s0, OF same_block.keeps_hdr_version] v assms(2) s0
    by (auto simp: run_ret split: if_splits)
  from rest obtain y s2 where m: "(if dec_is_rdb_file s1 then hdr_metas (Suc (avail (dec_bptr s1) + sav_avail (dec_bptr s1))) E else ret ()) s1 = (Ok y, s2)"
    and r: "hdr_record E s2 = (Ok u, t)"
    by (cases "dec_is_rdb_file s1") (auto simp: run_simps andThen_Ok_iff simp del: hdr_metas.simps)
  from m consider "dec_bptr s2 = dec_bptr s1" | "input_left (dec_bptr s2) < input_left (dec_bptr s1)"
    using hdr_metas_takes [OF _ heap] by (auto simp: run_ret simp del: hdr_metas.simps split: if_splits)
  then show ?thesis
  proof cases
    case 1
    with hdr_record_takes [OF r] heap 1 \<open>input_left (dec_bptr s1) \<le> _\<close> show ?thesis by simp
  next
    case 2
    with used_onb [where m = "hdr_record E", OF used.keeps_hdr_record r] 1 show ?thesis by simp
  qed
qed

end
