(* ===== verification/Rdb_Restore.thy ===== *)
theory Rdb_Restore
  imports Rdb_Json
begin

text \<open>
  \<open>RestoreOutput\<close> (\<open>src/rdb_restore.cpp\<close>, \<open>include/rdbparser/rdb_restore.h\<close>): the RESTORE command
  for each key of a file, cut out of the input.
\<close>

record RestoreOutput = out_stream +
  ttl_ms :: u64
  ro_idle :: u64
  type_offset :: u64
  use_replace :: bool
  is_matched :: bool
  ro_freq :: u8

definition RestoreOutput_new :: "bool \<Rightarrow> RestoreOutput" where
  "RestoreOutput_new repl = \<lparr>out_bytes = [], ttl_ms = 0, ro_idle = 0, type_offset = 0, use_replace = repl,
     is_matched = False, ro_freq = 0\<rparr>"

definition reset_state :: "RestoreOutput \<Rightarrow> RestoreOutput" where
  "reset_state r = r\<lparr>is_matched := False, ttl_ms := 0, ro_idle := 0, ro_freq := 0\<rparr>"

text \<open>The calls it implements; \<open>d_expired\<close> of \<open>RdbOutput\<close> forwards to \<open>d_expired_ms\<close>.\<close>

fun restore_update :: "'s RdbEvent \<Rightarrow> RestoreOutput \<Rightarrow> RestoreOutput" where
  "restore_update (D_expired_ms ms) r = r\<lparr>ttl_ms := ms\<rparr>"
| "restore_update (D_expired sec) r = r\<lparr>ttl_ms := ucast sec * 1000\<rparr>"
| "restore_update (D_idle i) r = r\<lparr>ro_idle := i\<rparr>"
| "restore_update (D_freq f) r = r\<lparr>ro_freq := f\<rparr>"
| "restore_update (D_start_key t key) r = r\<lparr>is_matched := True\<rparr>"
| "restore_update (D_start_type t off) r = r\<lparr>is_matched := False, type_offset := word_of_nat off\<rparr>"
| "restore_update _ r = r"

definition restore_call :: "'s RdbEvent \<Rightarrow> (RestoreOutput, unit) prog" where
  "restore_call e = modify (restore_update e)"

section \<open>write_restore_cmd\<close>

text \<open>\<open>"\r\n"\<close>\<close>

definition crlf :: "u8 list" where
  "crlf = [0x0d, 0x0a]"

text \<open>
  \<open>snprintf\<close> of \<open>"$%ld\r\n"\<close> into 16 bytes; the number of bytes it would take is written out, so
  beyond 16 something behind the buffer would be.
\<close>

definition bulk_len :: "u64 \<Rightarrow> u8 list option" where
  "bulk_len n = (let t = lit ''$'' @ fmt_d n @ crlf in
     if length t < 16 then Some t else if length t = 16 then Some (take 15 t @ [0]) else None)"

definition restore_head :: "bool \<Rightarrow> u8 list" where
  "restore_head repl = lit (if repl then ''*5'' else ''*4'') @ crlf @ lit ''$7'' @ crlf @ lit ''RESTORE'' @ crlf"

definition restore_tail :: "bool \<Rightarrow> u8 list" where
  "restore_tail repl = crlf @ (if repl then lit ''$7'' @ crlf @ lit ''REPLACE'' @ crlf else [])"

text \<open>
  Bytes of the input at an offset: \<open>buf\<close> is \<open>bptr.buf\<close> moved back by \<open>bptr.offset\<close>.
\<close>

definition input_at :: "RdbBufptr \<Rightarrow> u64 \<Rightarrow> u64 \<Rightarrow> u8 list option" where
  "input_at bp off n = (if ppos (buf bp) < offset bp then None
     else rdn (pmem (buf bp)) (ppos (buf bp) - offset bp + unat off) (unat n))"

text \<open>
  Where the data starts behind type and key, relative to \<open>start_offset\<close>. The key is measured by
  the length in its header and by \<open>key.s_len\<close>, which for an integer key is the integer.
\<close>

definition restore_start :: "RdbDecode \<Rightarrow> u64 \<Rightarrow> u64 option" where
  "restore_start d start =
     (let bp = dec_bptr d in
      if dec_is_rdb_file d then
        if ppos (buf bp) < offset bp then None
        else do {
          (sz, L) \<leftarrow> decode_buf (pmem (buf bp)) (ppos (buf bp) - offset bp + unat (start + 1)) RdbLength_zero;
          Some (start + (1 + word_of_int sz + str_u (dec_key d))) }
      else Some (start + 1))"

text \<open>\<open>fwrite( key.s, 1, key.s_len, stdout )\<close>\<close>

definition restore_key :: "RdbString \<Rightarrow> u8 list option" where
  "restore_key key = (if str_u key = 0 then Some [] else rdn (pmem (str_s key)) (ppos (str_s key)) (unat (str_u key)))"

text \<open>The command for the data from \<open>start\<close> to \<open>end\<close>, and the checksum table.\<close>

definition restore_payload :: "RdbDecode \<Rightarrow> u64 \<Rightarrow> u64 \<Rightarrow> u64 \<Rightarrow> (u8 list \<times> u64 list list) option" where
  "restore_payload d toff start end = (let bp = dec_bptr d; base = dec_addr d + word_of_nat (ppos (buf bp) - offset bp) in do {
     t \<leftarrow> input_at bp toff 1;
     let (crc, tab) = jones_crc64 (dec_tab d) (base + toff) 0 t;
     body \<leftarrow> input_at bp start (end - start);
     let (crc, tab) = jones_crc64 tab (base + start) crc body;
     let (crc, tab) = jones_crc64 tab 0 crc [9, 0];
     Some (t @ body @ [9, 0] @ mem_store 8 crc, tab) })"

definition write_restore_cmd :: "RdbDecode \<Rightarrow> (RestoreOutput, u64 list list) prog" where
  "write_restore_cmd d = andThen (gets id) (\<lambda>r.
     if \<not> is_matched r then andThen (modify reset_state) (\<lambda>_. ret (dec_tab d))
     else
       let bp = dec_bptr d;
           off = word_of_nat (offset bp); start_off = word_of_nat (start_offset bp);
           end = off - start_off; start = type_offset r - start_off in
       if type_offset r < start_off \<or> off < start_off \<or> start \<ge> end then
         andThen (modify reset_state) (\<lambda>_. ret (dec_tab d))
       else andThen (checked (restore_start d start)) (\<lambda>start.
         andThen (put_out (restore_head (use_replace r))) (\<lambda>_.
         andThen (checked (bulk_len (str_u (dec_key d)))) (\<lambda>klen. andThen (put_out klen) (\<lambda>_.
         andThen (checked (restore_key (dec_key d))) (\<lambda>k. andThen (put_out k) (\<lambda>_.
         andThen (put_out (crlf @ lit ''$1'' @ crlf @ lit ''0'' @ crlf)) (\<lambda>_.
         andThen (checked (bulk_len (end - start + 1 + 10))) (\<lambda>dlen. andThen (put_out dlen) (\<lambda>_.
         andThen (checked (restore_payload d (type_offset r) start end)) (\<lambda>(p, tab).
         andThen (put_out p) (\<lambda>_.
         andThen (put_out (restore_tail (use_replace r))) (\<lambda>_.
         andThen (modify reset_state) (\<lambda>_. ret tab))))))))))))))"

end
