(* ===== verification/Rdb_Filter.thy ===== *)
theory Rdb_Filter
  imports Rdb_Types
begin

text \<open>
  Key filters: the conversion of glob patterns (\<open>include/rdbparser/glob_cvt.h\<close>) and \<open>PcreFilter\<close>
  (\<open>src/rdb_pcre.cpp\<close>, \<open>include/rdbparser/rdb_pcre.h\<close>). The regular expression library is a parameter.
\<close>

section \<open>GlobCvt\<close>

text \<open>
  The buffer \<open>out\<close> of \<open>maxlen\<close> bytes; \<open>off\<close> goes on counting when it is full. There is no buffer any more
  once a byte was written outside of it.
\<close>

record GlobCvt =
  gl_out :: "u8 list option"
  gl_off :: nat
  gl_maxlen :: nat

definition GlobCvt_new :: "u8 list \<Rightarrow> GlobCvt" where
  "GlobCvt_new out = \<lparr>gl_out = Some out, gl_off = 0, gl_maxlen = length out\<rparr>"

definition glob_write :: "nat \<Rightarrow> u8 list \<Rightarrow> u8 list option \<Rightarrow> u8 list option" where
  "glob_write i cs b = (case b of None \<Rightarrow> None | Some xs \<Rightarrow> wrn xs i cs)"

definition char_out :: "u8 \<Rightarrow> GlobCvt \<Rightarrow> GlobCvt" where
  "char_out c g = (let g = g\<lparr>gl_off := gl_off g + 1\<rparr> in
     if gl_off g \<le> gl_maxlen g then g\<lparr>gl_out := glob_write (gl_off g - 1) [c] (gl_out g)\<rparr> else g)"

definition str_out :: "u8 list \<Rightarrow> GlobCvt \<Rightarrow> GlobCvt" where
  "str_out cs g = (let i = gl_off g; g = g\<lparr>gl_off := i + length cs\<rparr> in
     if gl_off g \<le> gl_maxlen g then g\<lparr>gl_out := glob_write i cs (gl_out g)\<rparr> else g)"

definition chr_star :: u8 where "chr_star = 0x2a"
definition chr_quest :: u8 where "chr_quest = 0x3f"
definition chr_backslash :: u8 where "chr_backslash = 0x5c"
definition chr_open :: u8 where "chr_open = 0x5b"
definition chr_close :: u8 where "chr_close = 0x5d"
definition chr_dot :: u8 where "chr_dot = 0x2e"

text \<open>The strings \<open>(?i)\<close>, \<open>(?s)\<close>, \<open>\A\<close>, \<open>\z\<close> and \<open>(*COMMIT).*?\<close>.\<close>

definition re_caseless :: "u8 list" where "re_caseless = [0x28, 0x3f, 0x69, 0x29]"
definition re_dotall :: "u8 list" where "re_dotall = [0x28, 0x3f, 0x73, 0x29]"
definition re_start :: "u8 list" where "re_start = [0x5c, 0x41]"
definition re_end :: "u8 list" where "re_end = [0x5c, 0x7a]"
definition re_star :: "u8 list" where
  "re_star = [0x28, 0x2a, 0x43, 0x4f, 0x4d, 0x4d, 0x49, 0x54, 0x29, 0x2e, 0x2a, 0x3f]"

text \<open>One round of the loop at index \<open>k\<close>: the index after it, before \<open>k++\<close>.\<close>

definition glob_escape :: "u8 \<Rightarrow> GlobCvt \<Rightarrow> GlobCvt" where
  "glob_escape c g =
     char_out c (if c = chr_backslash \<or> c = chr_quest \<or> c = chr_star then char_out chr_backslash g else g)"

definition glob_round :: "u8 list \<Rightarrow> nat \<Rightarrow> nat \<Rightarrow> bool \<Rightarrow> GlobCvt \<Rightarrow> nat \<times> bool \<times> GlobCvt" where
  "glob_round pat patlen k inside g =
     (if pat ! k = chr_backslash then
        (if k + 1 < patlen then (k + 1, inside, glob_escape (pat ! (k + 1)) g) else (k, inside, g))
      else if \<not> inside then
        (if pat ! k = chr_star then
           (if k > 0 \<and> pat ! (k - 1) = chr_star then (k + 1, inside, g) else (k, inside, str_out re_star g))
         else if pat ! k = chr_quest then (k, inside, char_out chr_dot g)
         else if pat ! k = chr_dot then (k, inside, char_out chr_dot (char_out chr_backslash g))
         else (k, pat ! k = chr_open, char_out (pat ! k) g))
      else (k, pat ! k \<noteq> chr_close, char_out (pat ! k) g))"

lemma glob_round_index: "k \<le> fst (glob_round pat patlen k inside g)"
  by (simp add: glob_round_def)

function glob_loop :: "u8 list \<Rightarrow> nat \<Rightarrow> nat \<Rightarrow> bool \<Rightarrow> GlobCvt \<Rightarrow> GlobCvt" where
  "glob_loop pat patlen k inside g =
     (if k < patlen then case glob_round pat patlen k inside g of (k', inside', g') \<Rightarrow>
        glob_loop pat patlen (k' + 1) inside' g'
      else g)"
  by pat_completeness auto
termination glob_loop
  by (relation "measure (\<lambda>(pat, patlen, k, inside, g). patlen - k)")
    (use glob_round_index in \<open>auto dest: arg_cong [of _ _ fst] simp: less_Suc_eq_le intro!: diff_less_mono2\<close>)

declare glob_loop.simps [simp del]

definition convert_glob :: "u8 list \<Rightarrow> bool \<Rightarrow> bool \<Rightarrow> GlobCvt \<Rightarrow> int \<times> GlobCvt" where
  "convert_glob pat anchor_start caseins g0 = (
     let g1 = (if caseins then str_out re_caseless g0 else g0);
         g2 = str_out re_dotall g1;
         g5 = (if length pat > 0 then
           let (k, g3) = (if pat ! 0 \<noteq> chr_star then (0, if anchor_start then str_out re_start g2 else g2) else (1, g2));
               cut = (length pat > k \<and> pat ! (length pat - 1) = chr_star
                  \<and> (length pat = 1 \<or> pat ! (length pat - 2) \<noteq> chr_backslash));
               patlen = (if cut then length pat - 1 else length pat);
               g4 = glob_loop pat patlen k False g3
           in if \<not> cut then str_out re_end g4 else g4
         else g2)
     in (if gl_off g5 > gl_maxlen g5 then -1 else 0, g5))"

section \<open>PcreFilter\<close>

text \<open>
  The library: whether a pattern compiles (and its match data can be allocated), and the result of
  \<open>pcre2_match\<close> for a compiled pattern, or none, and a subject.
\<close>

record pcre_env =
  pcre_compiles :: "u8 list \<Rightarrow> bool"
  pcre_match :: "u8 list option \<Rightarrow> u8 list \<Rightarrow> int"

record PcreFilter =
  pf_name :: "u8 list"
  pf_name_len :: nat
  pf_re :: "u8 list option"
  pf_ignore_case :: bool
  pf_invert :: bool

definition PcreFilter_new :: PcreFilter where
  "PcreFilter_new = \<lparr>pf_name = replicate 40 0, pf_name_len = 0, pf_re = None, pf_ignore_case = False, pf_invert = False\<rparr>"

text \<open>\<open>sizeof( name )\<close> and \<open>sizeof( patbuf )\<close>\<close>

definition NAME_SIZE :: nat where "NAME_SIZE = 40"
definition PATBUF_SIZE :: nat where "PATBUF_SIZE = 1024"

definition is_glob :: "u8 list \<Rightarrow> bool" where
  "is_glob expr \<longleftrightarrow> length expr > NAME_SIZE \<or> chr_star \<in> set expr \<or> chr_quest \<in> set expr
     \<or> chr_open \<in> set expr \<or> 0x7c \<in> set expr"

text \<open>The bytes of \<open>patbuf\<close>, which \<open>convert_glob\<close> does not leave (\<open>convert_glob_inside\<close>).\<close>

definition set_filter_expr :: "pcre_env \<Rightarrow> u8 list \<Rightarrow> bool \<Rightarrow> bool \<Rightarrow> PcreFilter \<Rightarrow> bool \<times> PcreFilter" where
  "set_filter_expr P expr ign_case invt f = (
     let f1 = f\<lparr>pf_invert := invt, pf_ignore_case := ign_case\<rparr> in
     if is_glob expr then
       (case convert_glob expr True ign_case (GlobCvt_new (replicate PATBUF_SIZE 0)) of (err, gl) \<Rightarrow>
          if err \<noteq> 0 then (False, f1)
          else let re = (case gl_out gl of Some out \<Rightarrow> take (gl_off gl) out | None \<Rightarrow> []) in
            if \<not> pcre_compiles P re then (False, f1)
            else (True, f1\<lparr>pf_re := Some re, pf_name_len := 0\<rparr>))
     else (let f2 = f1\<lparr>pf_name := expr @ drop (length expr) (pf_name f1), pf_name_len := length expr\<rparr> in
       (True, if length expr < NAME_SIZE then f2\<lparr>pf_name := (pf_name f2)[length expr := 0]\<rparr> else f2)))"

definition tolower :: "u8 \<Rightarrow> u8" where
  "tolower c = (if 0x41 \<le> c \<and> c \<le> 0x5a then c + 0x20 else c)"

text \<open>\<open>strncasecmp( s, t, n ) == 0\<close> for strings that both have \<open>n\<close> bytes.\<close>

fun strncaseeq :: "u8 list \<Rightarrow> u8 list \<Rightarrow> bool" where
  "strncaseeq (a # as) (b # bs) \<longleftrightarrow> tolower a = tolower b \<and> (a = 0 \<or> strncaseeq as bs)"
| "strncaseeq _ _ \<longleftrightarrow> True"

definition match_key :: "pcre_env \<Rightarrow> PcreFilter \<Rightarrow> RdbString \<Rightarrow> bool option" where
  "match_key P f key =
     map_option (\<lambda>matched. if pf_invert f then \<not> matched else matched)
     (case str_val key of
        Some (StrVal cs) \<Rightarrow>
          Some (if pf_name_len f \<noteq> 0 then
              length cs = pf_name_len f
              \<and> (if \<not> pf_ignore_case f then cs = take (pf_name_len f) (pf_name f)
                 else strncaseeq cs (take (pf_name_len f) (pf_name f)))
            else pcre_match P (pf_re f) cs > 0)
      | Some _ \<Rightarrow> Some False
      | None \<Rightarrow> None)"

end
