(* ===== verification/Rdb_Hex.thy ===== *)
theory Rdb_Hex
  imports Rdb_Buf
begin

text \<open>
  The hex dump around an error: \<open>HexDump\<close> and \<open>print_hex\<close> (\<open>src/rdb_decode.cpp\<close>).
\<close>

definition hex_chars :: "u8 list" where
  "hex_chars = map word_of_nat ([48..<58] @ [97..<103])"

record HexDump =
  hd_line :: "u8 list"
  hd_boff :: nat
  hd_hex :: nat
  hd_ascii :: nat
  hd_stream_off :: u64

text \<open>The hexadecimal digits of a number, as \<open>printf\<close> writes them.\<close>

fun fmt_x :: "nat \<Rightarrow> u8 list" where
  "fmt_x n = (if n < 16 then [hex_chars ! n] else fmt_x (n div 16) @ [hex_chars ! (n mod 16)])"

declare fmt_x.simps [simp del]

text \<open>\<open>None\<close> is a write behind the 80 bytes of the line.\<close>

definition line_put :: "nat \<Rightarrow> u8 \<Rightarrow> u8 list \<Rightarrow> u8 list option" where
  "line_put i c l = wrn l i [c]"

text \<open>The digits of the offset, from column 4 on to the left, at most five of them.\<close>

fun offset_digits :: "nat \<Rightarrow> u64 \<Rightarrow> u8 list \<Rightarrow> u8 list option" where
  "offset_digits j k l =
     (if k > 0 then do {
        l \<leftarrow> line_put j (hex_chars ! unat (k AND 0xf)) l;
        case j of 0 \<Rightarrow> Some l | Suc j' \<Rightarrow> offset_digits j' (drop_bit 4 k) l }
      else Some l)"

declare offset_digits.simps [simp del]

definition init_line :: "HexDump \<Rightarrow> HexDump option" where
  "init_line h = do {
     l \<leftarrow> line_put 79 0 (replicate 79 0x20 @ drop 79 (hd_line h));
     l \<leftarrow> line_put 5 (hex_chars ! unat (hd_stream_off h AND 0xf)) l;
     l \<leftarrow> offset_digits 4 (drop_bit 4 (hd_stream_off h)) l;
     Some (h\<lparr>hd_line := l\<rparr>) }"

definition flush_line :: "HexDump \<Rightarrow> HexDump option" where
  "flush_line h = init_line (h\<lparr>hd_stream_off := hd_stream_off h + word_of_nat (hd_boff h), hd_boff := 0, hd_hex := 9, hd_ascii := 61\<rparr>)"

definition HexDump_new :: "u8 list \<Rightarrow> u64 \<Rightarrow> HexDump option" where
  "HexDump_new l off = flush_line \<lparr>hd_line = l, hd_boff = 0, hd_hex = 0, hd_ascii = 0, hd_stream_off = off\<rparr>"

definition hex_reset :: "HexDump \<Rightarrow> HexDump option" where
  "hex_reset h = flush_line (h\<lparr>hd_boff := 0, hd_stream_off := 0\<rparr>)"

definition fill_byte :: "u8 \<Rightarrow> HexDump \<Rightarrow> HexDump option" where
  "fill_byte b h = do {
     l \<leftarrow> line_put (hd_hex h) (hex_chars ! unat (drop_bit 4 b)) (hd_line h);
     l \<leftarrow> line_put (hd_hex h + 1) (hex_chars ! unat (b AND 0xf)) l;
     l \<leftarrow> (if 0x20 \<le> b \<and> b \<le> 127 then line_put (hd_ascii h) b l else Some l);
     Some (h\<lparr>hd_line := l, hd_boff := hd_boff h + 1, hd_ascii := hd_ascii h + 1,
        hd_hex := hd_hex h + 3 + (if (hd_boff h + 1) mod 4 = 0 then 1 else 0)\<rparr>) }"

text \<open>The loop of \<open>fill_line\<close> takes from the bytes \<open>off\<close> to \<open>len\<close> until the line has 16.\<close>

function fill_line :: "u8 list \<Rightarrow> nat \<Rightarrow> nat \<Rightarrow> HexDump \<Rightarrow> (nat \<times> HexDump) option" where
  "fill_line m off len h =
     (if off < len \<and> hd_boff h < 16 then do {
        b \<leftarrow> rd8 m off;
        h \<leftarrow> fill_byte b h;
        fill_line m (off + 1) len h }
      else Some (off, h))"
  by pat_completeness auto
termination fill_line
  by (relation "measure (\<lambda>(m, off, len, h). len - off)") auto

declare fill_line.simps [simp del]

text \<open>The lines printed, without the name before them; a line ends at its zero.\<close>

fun hex_lines :: "nat \<Rightarrow> u8 list \<Rightarrow> nat \<Rightarrow> nat \<Rightarrow> HexDump \<Rightarrow> (u8 list list) option" where
  "hex_lines 0 m off end h = None"
| "hex_lines (Suc k) m off end h =
     (if off < end then do {
        (off, h) \<leftarrow> fill_line m off end h;
        h' \<leftarrow> flush_line h;
        ls \<leftarrow> hex_lines k m off end h';
        Some (takeWhile (\<lambda>c. c \<noteq> 0) (hd_line h) # ls) }
      else Some [])"

definition print_hex :: "nat \<Rightarrow> nat \<Rightarrow> u8 list \<Rightarrow> (u8 list list) option" where
  "print_hex off end m = do {
     h \<leftarrow> HexDump_new (replicate 80 0) (word_of_nat off);
     hex_lines (Suc (end - off)) m off end h }"

end
