(* ===== verification/Rdb_Main.thy ===== *)
theory Rdb_Main
  imports Rdb_Body Rdb_Restore Rdb_Filter Rdb_Hex
begin

text \<open>
  The program (\<open>src/rdb_main.cpp\<close>): arguments, the input buffer that is filled from the standard
  input, and the loop over the records, as a step relation.
\<close>

section \<open>Messages and arguments\<close>

fun get_err_description :: "RdbErrCode \<Rightarrow> string" where
  "get_err_description RDB_OK = ''ok''"
| "get_err_description RDB_EOF_MARK = ''eof''"
| "get_err_description RDB_ERR_OUTPUT = ''No output''"
| "get_err_description RDB_ERR_TRUNC = ''Input truncated''"
| "get_err_description RDB_ERR_VERSION = ''Rdb version too old''"
| "get_err_description RDB_ERR_CRC = ''Crc does not match''"
| "get_err_description RDB_ERR_TYPE = ''Error unknown type''"
| "get_err_description RDB_ERR_HDR = ''Error parsing header''"
| "get_err_description RDB_ERR_LZF = ''Bad LZF compression''"
| "get_err_description RDB_ERR_NOTSUP = ''Object type not supported''"
| "get_err_description RDB_ERR_ZLEN = ''Zip list len mismatch''"

text \<open>The loop over \<open>argv\<close> from index \<open>i\<close>: \<open>i < argc - b\<close>.\<close>

function get_arg_from :: "nat \<Rightarrow> string list \<Rightarrow> nat \<Rightarrow> string \<Rightarrow> string option \<Rightarrow> string option" where
  "get_arg_from i argv b f def =
     (if i + b < length argv then
        if f = argv ! i then Some (argv ! (i + b)) else get_arg_from (Suc i) argv b f def
      else def)"
  by pat_completeness auto
termination get_arg_from
  by (relation "measure (\<lambda>(i, argv, b, f, def). length argv - i)") auto

declare get_arg_from.simps [simp del]

definition get_arg :: "string list \<Rightarrow> nat \<Rightarrow> string \<Rightarrow> string option \<Rightarrow> string option" where
  "get_arg argv b f def = get_arg_from 1 argv b f def"

record main_args =
  ma_glob :: "string option"
  ma_invert :: "string option"
  ma_ign_case :: "string option"
  ma_fn :: "string option"
  ma_meta :: "string option"
  ma_list :: "string option"
  ma_restore :: "string option"
  ma_help :: "string option"

definition main_get_args :: "string list \<Rightarrow> main_args" where
  "main_get_args argv = \<lparr>ma_glob = get_arg argv 1 ''-e'' None, ma_invert = get_arg argv 1 ''-v'' None,
     ma_ign_case = get_arg argv 0 ''-i'' None, ma_fn = get_arg argv 1 ''-f'' None,
     ma_meta = get_arg argv 0 ''-m'' None, ma_list = get_arg argv 0 ''-l'' None,
     ma_restore = get_arg argv 0 ''-r'' None, ma_help = get_arg argv 0 ''-h'' None\<rparr>"

section \<open>The input buffer\<close>

text \<open>
  The bytes of \<open>input_buf\<close> up to \<open>input_off\<close>, the size of the buffer and the end-of-file flag;
  what is behind \<open>input_off\<close> is not part of the modelled block. The standard input still to come
  is a list. Doubling the buffer fails when \<open>malloc\<close> does; the program exits then (\<open>None\<close>).
\<close>

record input_state =
  input_bytes :: "u8 list"
  input_buf_size :: nat
  input_eof :: bool
  std_in :: "u8 list"

text \<open>
  Rounds left: each round but the last two reads at least a byte, see \<open>fill_buf_stdin_ends\<close>.
\<close>

fun fill_buf_loop :: "nat \<Rightarrow> rdb_env \<Rightarrow> input_state \<Rightarrow> input_state option" where
  "fill_buf_loop 0 E s = None"
| "fill_buf_loop (Suc k) E s =
     (let room = input_buf_size s - length (input_bytes s);
          got = take room (std_in s);
          s1 = s\<lparr>input_bytes := input_bytes s @ got, std_in := drop room (std_in s)\<rparr>
      in if got = [] then Some (s\<lparr>input_eof := True\<rparr>)
      else if length (input_bytes s1) = input_buf_size s1 then
        if input_eof s1 \<and> take 7 (input_bytes s1) \<noteq> rdb_magic then
          if malloc_ok E (word_of_nat (2 * input_buf_size s1)) then
            fill_buf_loop k E (s1\<lparr>input_buf_size := 2 * input_buf_size s1\<rparr>)
          else None
        else Some (s1\<lparr>input_eof := False\<rparr>)
      else fill_buf_loop k E s1)"

definition fill_buf_stdin :: "rdb_env \<Rightarrow> input_state \<Rightarrow> input_state option" where
  "fill_buf_stdin E s = fill_buf_loop (Suc (Suc (length (std_in s)))) E s"

section \<open>The program state\<close>

datatype main_out = Json JsonOutput | Lst ListOutput | Rest RestoreOutput

record main_state =
  m_dec :: RdbDecode
  m_out :: main_out
  m_in :: input_state

text \<open>The calls the decoder made since a state, given to the output.\<close>

fun output_calls :: "(u64 \<Rightarrow> u8 list) \<Rightarrow> RdbString RdbEvent list \<Rightarrow> main_out \<Rightarrow> main_out option" where
  "output_calls G es (Json o1) = (case calls (json_call G) es o1 of (Ok _, o2) \<Rightarrow> Some (Json o2) | _ \<Rightarrow> None)"
| "output_calls G es (Lst o1) = (case calls (list_call G) es o1 of (Ok _, o2) \<Rightarrow> Some (Lst o2) | _ \<Rightarrow> None)"
| "output_calls G es (Rest o1) = (case calls restore_call es o1 of (Ok _, o2) \<Rightarrow> Some (Rest o2) | _ \<Rightarrow> None)"

definition new_calls :: "RdbDecode \<Rightarrow> RdbDecode \<Rightarrow> RdbString RdbEvent list" where
  "new_calls d d' = drop (length (dec_log d)) (dec_log d')"

definition out_init :: "main_out \<Rightarrow> main_out" where
  "out_init w = (case w of Json o1 \<Rightarrow> Json (snd (json_init o1)) | _ \<Rightarrow> w)"

definition out_finish :: "bool \<Rightarrow> main_out \<Rightarrow> main_out" where
  "out_finish success w = (case w of Json o1 \<Rightarrow> Json (snd (json_finish success o1)) | _ \<Rightarrow> w)"

text \<open>
  The end of a record: the blocks of the decompression go, and with them what the key may point to.
\<close>

definition release_alloced :: "RdbDecode \<Rightarrow> RdbDecode" where
  "release_alloced d = (if alloced_mem (dec_bptr d) \<noteq> []
     then d\<lparr>dec_bptr := free_alloced (dec_bptr d), dec_key := (dec_key d)\<lparr>str_s := pfree (str_s (dec_key d))\<rparr>\<rparr>
     else d)"

text \<open>The command of the restore output is written after each record.\<close>

definition after_record :: "RdbDecode \<Rightarrow> main_out \<Rightarrow> (RdbDecode \<times> main_out) option" where
  "after_record d w = (case w of
       Rest r \<Rightarrow> (case write_restore_cmd d r of (Ok tab, r') \<Rightarrow> Some (d\<lparr>dec_tab := tab\<rparr>, Rest r') | _ \<Rightarrow> None)
     | _ \<Rightarrow> Some (d, w))"

text \<open>
  The remaining input moves to the front of the buffer when more than half is used up. A pointer of the key into the
  buffer stays where it is, and sees the new bytes.
\<close>

definition pmoved :: "u8 list \<Rightarrow> ptr \<Rightarrow> ptr" where
  "pmoved m p = (case p of Ptr h _ i \<Rightarrow> if h then p else Ptr False m i | _ \<Rightarrow> p)"

definition refill :: "rdb_env \<Rightarrow> RdbDecode \<Rightarrow> input_state \<Rightarrow> (RdbDecode \<times> input_state) option" where
  "refill E d i =
     (let bp = dec_bptr d in
      if \<not> input_eof i \<and> offset bp > input_buf_size i div 2 then do {
        rest \<leftarrow> rdn (pmem (buf bp)) (ppos (buf bp)) (avail bp);
        i' \<leftarrow> fill_buf_stdin E (i\<lparr>input_bytes := rest\<rparr>);
        Some (d\<lparr>dec_bptr := bp\<lparr>buf := Ptr False (input_bytes i') 0, start_offset := start_offset bp + offset bp,
          offset := 0, avail := length (input_bytes i')\<rparr>,
          dec_key := (dec_key d)\<lparr>str_s := pmoved (input_bytes i') (str_s (dec_key d))\<rparr>\<rparr>, i') }
      else Some (d, i))"

section \<open>The bytes around an error\<close>

text \<open>The part of the buffer that \<open>show_error\<close> prints: the bytes around an offset.\<close>

definition error_window :: "nat \<Rightarrow> nat \<Rightarrow> nat \<times> nat" where
  "error_window off end_off =
     (let off = (if off < 256 then 0 else off - 256);
          off = off - off mod 16
      in (off, if end_off > off + 512 then off + 512 else end_off))"

text \<open>
  The block that \<open>show_error\<close> prints from, the offset of the error and the end: the \<open>n\<close> bytes of the input
  buffer, or the last block of the decompression when the buffer pointer is outside of the input buffer;
  nothing when it is null. \<open>None\<close> is a pointer that was freed or one into another block.
\<close>

definition error_base :: "RdbBufptr \<Rightarrow> nat \<Rightarrow> (u8 list \<times> nat \<times> nat) option" where
  "error_base bp n = (case buf bp of
       Null \<Rightarrow> Some ([], 0, 0)
     | Freed \<Rightarrow> if avail bp = 0 then Some ([], 0, 0) else None
     | Ptr h m off \<Rightarrow>
         if \<not> h \<and> off \<le> n then Some (m, off, n)
         else if h \<and> alloced_mem bp \<noteq> [] \<and> m = hd (alloced_mem bp) then Some (m, off, off + avail bp)
         else None)"

text \<open>What it prints on the standard output, and the lines on the error stream.\<close>

definition show_error :: "RdbBufptr \<Rightarrow> nat \<Rightarrow> (u8 list \<times> u8 list list) option" where
  "show_error bp n = do {
     (m, off, end_off) \<leftarrow> error_base bp n;
     if off < end_off then
       let (lo, hi) = error_window off end_off in do {
         ls \<leftarrow> print_hex lo hi m;
         Some (fmt_x lo @ lit '' -> '' @ fmt_x hi @ [0x0a],
           (lit ''offset '' @ decimal off @ lit '' (0x'' @ fmt_x off @ lit ''):'') # ls) }
     else Some ([], []) }"

definition print_out :: "u8 list \<Rightarrow> main_out \<Rightarrow> main_out" where
  "print_out xs w = (case w of
       Json o1 \<Rightarrow> Json (o1\<lparr>out_bytes := out_bytes o1 @ xs\<rparr>)
     | Lst o1 \<Rightarrow> Lst (o1\<lparr>out_bytes := out_bytes o1 @ xs\<rparr>)
     | Rest o1 \<Rightarrow> Rest (o1\<lparr>out_bytes := out_bytes o1 @ xs\<rparr>))"

section \<open>The loop over the records\<close>

text \<open>A round goes on with a new state, or the program ends with an exit code; \<open>None\<close> is a fault.\<close>

datatype main_result = Going main_state | Exit nat main_state

definition main_round :: "rdb_env \<Rightarrow> (u64 \<Rightarrow> u8 list) \<Rightarrow> main_state \<Rightarrow> main_result option" where
  "main_round E G s =
     (case andThen (decode_hdr E) (\<lambda>_. decode_body E) (m_dec s) of
        (Fault, _) \<Rightarrow> None
      | (Err e, d) \<Rightarrow> do {
          w \<leftarrow> output_calls G (new_calls (m_dec s) d) (m_out s);
          if e = RDB_EOF_MARK then Some (Exit 0 (s\<lparr>m_dec := d, m_out := out_finish True w\<rparr>))
          else do {
            (shown, _) \<leftarrow> show_error (dec_bptr d) (length (input_bytes (m_in s)));
            Some (Exit 1 (s\<lparr>m_dec := d, m_out := print_out shown (out_finish False w)\<rparr>)) } }
      | (Ok _, d) \<Rightarrow> do {
          w \<leftarrow> output_calls G (new_calls (m_dec s) d) (m_out s);
          (d, w) \<leftarrow> after_record (release_alloced (d\<lparr>dec_key_cnt := dec_key_cnt d + 1\<rparr>)) w;
          (d, i) \<leftarrow> refill E d (m_in s);
          if avail (dec_bptr d) = 0 then Some (Exit 0 \<lparr>m_dec = d, m_out = out_finish True w, m_in = i\<rparr>)
          else Some (Going \<lparr>m_dec = d, m_out = w, m_in = i\<rparr>) })"

inductive main_step :: "rdb_env \<Rightarrow> (u64 \<Rightarrow> u8 list) \<Rightarrow> main_state \<Rightarrow> main_state \<Rightarrow> bool" for E G where
  round: "main_round E G s = Some (Going t) \<Longrightarrow> main_step E G s t"

inductive main_runs :: "rdb_env \<Rightarrow> (u64 \<Rightarrow> u8 list) \<Rightarrow> main_state \<Rightarrow> nat \<Rightarrow> main_state \<Rightarrow> bool" for E G where
  exit: "main_round E G s = Some (Exit c t) \<Longrightarrow> main_runs E G s c t"
| going: "main_step E G s t \<Longrightarrow> main_runs E G t c u \<Longrightarrow> main_runs E G s c u"

inductive_simps main_step_iff: "main_step E G s t"

text \<open>
  The state before the first round: the buffer filled, the output chosen by the arguments, the
  filter set when there is a pattern.
\<close>

definition main_output :: "main_args \<Rightarrow> main_out" where
  "main_output a = (if ma_list a \<noteq> None then Lst \<lparr>out_bytes = [], list_cnt = 0\<rparr>
     else if ma_restore a \<noteq> None then Rest (RestoreOutput_new True)
     else Json (JsonOutput_new\<lparr>show_meta := (ma_meta a \<noteq> None)\<rparr>))"

definition main_filter :: "pcre_env \<Rightarrow> main_args \<Rightarrow> (RdbString \<Rightarrow> bool option) option option" where
  "main_filter P a = (case ma_glob a of
       None \<Rightarrow> Some None
     | Some g \<Rightarrow> (case set_filter_expr P (lit g) (ma_ign_case a \<noteq> None) (ma_invert a \<noteq> None) PcreFilter_new of
         (False, f) \<Rightarrow> None
       | (True, f) \<Rightarrow> Some (Some (match_key P f))))"

text \<open>\<open>None\<close>: the filter expression was refused, exit code 1.\<close>

definition main_start :: "pcre_env \<Rightarrow> main_args \<Rightarrow> input_state \<Rightarrow> main_state option" where
  "main_start P a i = (case main_filter P a of
       None \<Rightarrow> None
     | Some flt \<Rightarrow> Some \<lparr>m_dec = (RdbDecode_new (RdbBufptr_init (Ptr False (input_bytes i) 0) (length (input_bytes i))))
           \<lparr>dec_filter := flt, dec_data_out := DataOut\<rparr>,
         m_out = out_init (main_output a), m_in = i\<rparr>)"

section \<open>The program\<close>

definition main_usage :: "string \<Rightarrow> u8 list" where
  "main_usage prog = lit prog @ lit '' [-e pat] [-v] [-i] [-f file]'' @ [0x0a]
     @ lit ''   -e pat  : match key with glob pattern'' @ [0x0a]
     @ lit ''   -v      : invert key match'' @ [0x0a]
     @ lit ''   -i      : ignore key match case'' @ [0x0a]
     @ lit ''   -f file : dump rdb file to read'' @ [0x0a]
     @ lit ''   -m      : show meta data in json output'' @ [0x0a]
     @ lit ''   -l      : list keys which match'' @ [0x0a]
     @ lit ''   -r      : write restore commands | redis-cli --pipe'' @ [0x0a]
     @ lit ''default is to print json of matching data'' @ [0x0a]
     @ lit ''if no file is given, will read data from stdin'' @ [0x0a]"

definition big_buf_size :: nat where
  "big_buf_size = 10 * 1024 * 1024"

text \<open>
  The input: a file is mapped as a whole, \<open>files\<close> has its bytes or is \<open>None\<close> when \<open>open\<close>, \<open>fstat\<close> or \<open>mmap\<close>
  fails, which \<open>mmap\<close> does for an empty file; without a file the buffer is filled from the standard input. \<open>None\<close>: exit code 1.
\<close>

definition main_input :: "rdb_env \<Rightarrow> (string \<Rightarrow> u8 list option) \<Rightarrow> main_args \<Rightarrow> u8 list \<Rightarrow> input_state option" where
  "main_input E files a std = (case ma_fn a of
       Some fn \<Rightarrow> (case files fn of
           None \<Rightarrow> None
         | Some bs \<Rightarrow> if bs = [] then None
             else Some \<lparr>input_bytes = bs, input_buf_size = big_buf_size, input_eof = True, std_in = std\<rparr>)
     | None \<Rightarrow> fill_buf_stdin E \<lparr>input_bytes = [], input_buf_size = big_buf_size, input_eof = True, std_in = std\<rparr>)"

text \<open>What happens before the loop: the program gets to its first round, or ends with an exit code and what it has printed.\<close>

datatype main_begin = Begin main_state | Ended nat "u8 list"

definition main_setup :: "pcre_env \<Rightarrow> rdb_env \<Rightarrow> (string \<Rightarrow> u8 list option) \<Rightarrow> string list \<Rightarrow> u8 list \<Rightarrow> main_begin" where
  "main_setup P E files argv std = (let a = main_get_args argv in
     if ma_help a \<noteq> None then Ended 0 (main_usage (argv ! 0))
     else (case main_filter P a of
         None \<Rightarrow> Ended 1 []
       | Some _ \<Rightarrow> (case main_input E files a std of
           None \<Rightarrow> Ended 1 []
         | Some i \<Rightarrow> (case main_start P a i of None \<Rightarrow> Ended 1 [] | Some s \<Rightarrow> Begin s))))"

fun main_text :: "main_out \<Rightarrow> u8 list" where
  "main_text (Json w) = out_bytes w"
| "main_text (Lst w) = out_bytes w"
| "main_text (Rest w) = out_bytes w"

text \<open>The exit code and the standard output of the program for its arguments and its standard input.\<close>

inductive program_ends :: "pcre_env \<Rightarrow> rdb_env \<Rightarrow> (u64 \<Rightarrow> u8 list) \<Rightarrow> (string \<Rightarrow> u8 list option) \<Rightarrow> string list \<Rightarrow> u8 list \<Rightarrow> nat \<Rightarrow> u8 list \<Rightarrow> bool"
  for P E G files argv std where
  before: "main_setup P E files argv std = Ended c out \<Longrightarrow> program_ends P E G files argv std c out"
| after: "main_setup P E files argv std = Begin s \<Longrightarrow> main_runs E G s c t \<Longrightarrow> program_ends P E G files argv std c (main_text (m_out t))"

inductive_simps program_ends_iff: "program_ends P E G files argv std c out"

end
