(* ===== verification/Rdb_Ends.thy ===== *)
theory Rdb_Ends
  imports Rdb_Orders Rdb_Main
begin

text \<open>
  The program ends: reading the standard input takes finitely many rounds, and so does the loop over the
  records, whatever the input is.
\<close>

section \<open>The input buffer\<close>

text \<open>No byte is lost, and the rounds of \<open>fill_buf_loop\<close> are enough: it only fails when \<open>malloc\<close> does.\<close>

definition filled :: "input_state \<Rightarrow> input_state \<Rightarrow> bool" where
  "filled s s' \<longleftrightarrow> input_bytes s' @ std_in s' = input_bytes s @ std_in s \<and> length (input_bytes s') \<le> input_buf_size s'
     \<and> (if input_eof s' then std_in s' = [] else length (input_bytes s') = input_buf_size s')"

lemma fill_buf_loop_filled:
  assumes "fill_buf_loop k E s = Some s'" "length (input_bytes s) < input_buf_size s"
  shows "filled s s'"
  using assms
proof (induction k arbitrary: s)
  case (Suc k)
  define room where "room = input_buf_size s - length (input_bytes s)"
  define s1 where "s1 = s\<lparr>input_bytes := input_bytes s @ take room (std_in s), std_in := drop room (std_in s)\<rparr>"
  have s1: "input_bytes s1 @ std_in s1 = input_bytes s @ std_in s" "length (input_bytes s1) \<le> input_buf_size s1"
    "input_buf_size s1 = input_buf_size s"
    using Suc.prems(2) by (auto simp: s1_def room_def)
  have loop: "fill_buf_loop (Suc k) E s = (if take room (std_in s) = [] then Some (s\<lparr>input_eof := True\<rparr>)
      else if length (input_bytes s1) = input_buf_size s1 then
        if input_eof s1 \<and> take 7 (input_bytes s1) \<noteq> rdb_magic then
          if malloc_ok E (word_of_nat (2 * input_buf_size s1)) then
            fill_buf_loop k E (s1\<lparr>input_buf_size := 2 * input_buf_size s1\<rparr>)
          else None
        else Some (s1\<lparr>input_eof := False\<rparr>)
      else fill_buf_loop k E s1)"
    by (simp add: s1_def room_def Let_def)
  show ?case
  proof (cases "take room (std_in s) = []")
    case True
    with Suc.prems loop show ?thesis by (auto simp: filled_def room_def)
  next
    case False
    show ?thesis
    proof (cases "length (input_bytes s1) = input_buf_size s1")
      case True
      with False Suc.IH [of "s1\<lparr>input_buf_size := 2 * input_buf_size s1\<rparr>"] Suc.prems loop s1 show ?thesis
        by (auto simp: filled_def split: if_splits)
    next
      case neq: False
      with False Suc.IH [of s1] Suc.prems loop s1 show ?thesis by (auto simp: filled_def)
    qed
  qed
qed simp

lemma fill_buf_loop_enough:
  assumes "length (std_in s) + 2 \<le> k" "\<forall>sz. malloc_ok E sz"
  shows "fill_buf_loop k E s \<noteq> None"
  using assms(1)
proof (induction k arbitrary: s)
  case (Suc k)
  define got where "got = take (input_buf_size s - length (input_bytes s)) (std_in s)"
  show ?case
  proof (cases "got = []")
    case False
    then have "length (drop (input_buf_size s - length (input_bytes s)) (std_in s)) + 2 \<le> k"
      using Suc.prems by (cases "std_in s") (auto simp: got_def)
    with False assms(2) Suc.IH show ?thesis by (auto simp: Let_def got_def)
  qed (simp add: Let_def got_def)
qed simp

lemma fill_buf_stdin_filled:
  "fill_buf_stdin E s = Some s' \<Longrightarrow> length (input_bytes s) < input_buf_size s \<Longrightarrow> filled s s'"
  unfolding fill_buf_stdin_def by (rule fill_buf_loop_filled)

text \<open>C25: Reading the standard input returns and loses nothing. With room in the buffer and memory to be had,
  \<open>fill_buf_stdin\<close> ends, what is in the buffer and what is still to come are the same bytes in the
  same order, and either the input is used up or the buffer is full and the end-of-file flag is off.\<close>

theorem fill_buf_stdin_ends:
  assumes "length (input_bytes s) < input_buf_size s" "\<forall>sz. malloc_ok E sz"
  shows "\<exists>s'. fill_buf_stdin E s = Some s' \<and> input_bytes s' @ std_in s' = input_bytes s @ std_in s
    \<and> length (input_bytes s') \<le> input_buf_size s'
    \<and> (if input_eof s' then std_in s' = [] else length (input_bytes s') = input_buf_size s')"
proof -
  obtain s' where "fill_buf_stdin E s = Some s'"
    using fill_buf_loop_enough [of s "Suc (Suc (length (std_in s)))"] assms(2) by (auto simp: fill_buf_stdin_def)
  with fill_buf_stdin_filled [OF this assms(1)] show ?thesis by (auto simp: filled_def)
qed

theorem fill_buf_stdin_ends_witness:
  "\<exists>s'. fill_buf_stdin \<lparr>lzf_decompress = (\<lambda>_ _. []), malloc_ok = (\<lambda>_. True), uninit = (\<lambda>_. 0)\<rparr>
     \<lparr>input_bytes = [], input_buf_size = 2, input_eof = True, std_in = [1, 2, 3]\<rparr> = Some s' \<and> input_bytes s' @ std_in s' = [1, 2, 3]"
  using fill_buf_stdin_ends [of "\<lparr>input_bytes = [], input_buf_size = 2, input_eof = True, std_in = [1, 2, 3]\<rparr>"
    "\<lparr>lzf_decompress = (\<lambda>_ _. []), malloc_ok = (\<lambda>_. True), uninit = (\<lambda>_. 0)\<rparr>"] by auto

section \<open>The loop over the records\<close>

definition main_left :: "main_state \<Rightarrow> nat" where
  "main_left s = input_left (dec_bptr (m_dec s)) + length (std_in (m_in s))"

text \<open>Between two records no decompressed block is in use, and the buffer has room.\<close>

definition between :: "main_state \<Rightarrow> bool" where
  "between s \<longleftrightarrow> tidy (dec_bptr (m_dec s)) \<and> alloced_mem (dec_bptr (m_dec s)) = []"

lemma release_alloced_frees:
  "uses_up (dec_bptr d) (dec_bptr (release_alloced d))" "alloced_mem (dec_bptr (release_alloced d)) = []"
  using free_alloced_uses_up [of "dec_bptr d"] by (auto simp: release_alloced_def uses_up_refl)

lemma after_record_bptr: "after_record d w = Some (d', w') \<Longrightarrow> dec_bptr d' = dec_bptr d"
  by (auto simp: after_record_def split: main_out.splits prod.splits outcome.splits)

lemma fill_buf_loop_length:
  "fill_buf_loop k E s = Some s' \<Longrightarrow> length (input_bytes s') + length (std_in s') \<le> length (input_bytes s) + length (std_in s)"
  by (induction k arbitrary: s) (fastforce simp: Let_def split: if_splits)+

lemma refill_left:
  assumes "refill E d i = Some (d', i')" "tidy (dec_bptr d)" "alloced_mem (dec_bptr d) = []"
  shows "input_left (dec_bptr d') + length (std_in i') \<le> input_left (dec_bptr d) + length (std_in i)"
    "tidy (dec_bptr d')" "alloced_mem (dec_bptr d') = []"
proof -
  let ?bp = "dec_bptr d"
  have "input_left (dec_bptr d') + length (std_in i') \<le> input_left ?bp + length (std_in i)
    \<and> tidy (dec_bptr d') \<and> alloced_mem (dec_bptr d') = []"
  proof (cases "\<not> input_eof i \<and> offset ?bp > input_buf_size i div 2")
    case True
    with assms(1) obtain rest where r: "rdn (pmem (buf ?bp)) (ppos (buf ?bp)) (avail ?bp) = Some rest"
      "fill_buf_stdin E (i\<lparr>input_bytes := rest\<rparr>) = Some i'"
      "d' = d\<lparr>dec_bptr := ?bp\<lparr>buf := Ptr False (input_bytes i') 0, start_offset := start_offset ?bp + offset ?bp,
          offset := 0, avail := length (input_bytes i')\<rparr>,
          dec_key := (dec_key d)\<lparr>str_s := pmoved (input_bytes i') (str_s (dec_key d))\<rparr>\<rparr>"
      by (auto simp: refill_def Let_def bind_Some_iff)
    have "length rest \<le> input_len (buf ?bp)"
      using r(1) assms(2,3) by (cases "buf ?bp") (auto simp: tidy_def rdn_def split: if_splits)
    moreover have "length (input_bytes i') + length (std_in i') \<le> length rest + length (std_in i)"
      using fill_buf_loop_length [OF r(2) [unfolded fill_buf_stdin_def]] by simp
    ultimately show ?thesis
      using assms(2,3) r(3) by (auto simp: input_left_def tidy_def)
  next
    case False
    with assms show ?thesis by (auto simp: refill_def Let_def)
  qed
  then show "input_left (dec_bptr d') + length (std_in i') \<le> input_left ?bp + length (std_in i)"
    "tidy (dec_bptr d')" "alloced_mem (dec_bptr d') = []" by auto
qed

lemma main_round_takes:
  assumes "main_round E G s = Some (Going t)" "between s"
  shows "between t" "main_left t < main_left s"
proof -
  obtain r d where m: "andThen (decode_hdr E) (\<lambda>_. decode_body E) (m_dec s) = (r, d)" by fastforce
  with assms(1) have "r = Ok ()"
    by (cases r) (auto simp: main_round_def bind_Some_iff split: if_splits)
  with m obtain u d1 where h: "decode_hdr E (m_dec s) = (Ok u, d1)" "decode_body E d1 = (Ok (), d)"
    by (auto simp: andThen_Ok_iff)
  from m \<open>r = Ok ()\<close> assms(1) obtain w d2 w2 d3 i3 where o:
    "after_record (release_alloced (d\<lparr>dec_key_cnt := dec_key_cnt d + 1\<rparr>)) w = Some (d2, w2)"
    "refill E d2 (m_in s) = Some (d3, i3)" "t = \<lparr>m_dec = d3, m_out = w2, m_in = i3\<rparr>"
    by (auto simp: main_round_def bind_Some_iff split: if_splits)
  have heap: "\<not> in_heap (buf (dec_bptr (m_dec s)))"
    using assms(2) by (simp add: between_def tidy_def)
  have "tidy (dec_bptr d1)"
    using used.keepsD [where m = "decode_hdr E", OF used.keeps_decode_hdr h(1)] assms(2) by (simp add: uses_up_def between_def)
  then have 1: "tidy (dec_bptr d)" "input_left (dec_bptr d) < input_left (dec_bptr (m_dec s))"
    using used.keepsD [where m = "decode_body E", OF used.keeps_decode_body h(2)] decode_hdr_takes [OF h(1) heap]
    by (auto simp: uses_up_def)
  then have 2: "tidy (dec_bptr d2)" "alloced_mem (dec_bptr d2) = []" "input_left (dec_bptr d2) < input_left (dec_bptr (m_dec s))"
    using release_alloced_frees [of "d\<lparr>dec_key_cnt := dec_key_cnt d + 1\<rparr>"] by (auto simp: uses_up_def after_record_bptr [OF o(1)])
  show "between t" "main_left t < main_left s"
    using refill_left [OF o(2) 2(1,2)] 2(3) by (auto simp: o(3) between_def main_left_def)
qed

lemma main_stops:
  assumes "between s"
  shows "\<exists>n t. n \<le> main_left s \<and> (main_step E G ^^ n) s t \<and> (\<nexists>u. main_round E G t = Some (Going u))"
  using assms
proof (induction "main_left s" arbitrary: s rule: less_induct)
  case less
  show ?case
  proof (cases "\<exists>u. main_round E G s = Some (Going u)")
    case True
    then obtain u where u: "main_round E G s = Some (Going u)" ..
    note takes = main_round_takes [OF u less.prems]
    obtain n t where "n \<le> main_left u" "(main_step E G ^^ n) u t" "\<nexists>u. main_round E G t = Some (Going u)"
      using less.hyps [OF takes(2,1)] by blast
    moreover have "main_step E G s u" using u by (simp add: main_step_iff)
    ultimately show ?thesis
      using takes(2) by (intro exI [of _ "Suc n"] exI [of _ t]) (auto simp: relpowp_commute simp del: relpowp.simps intro: relpowp_Suc_I2)
  next
    case False
    then show ?thesis by (intro exI [of _ 0] exI [of _ s]) simp
  qed
qed

lemma runs_steps: "(main_step E G ^^ n) s t \<Longrightarrow> main_round E G t = Some (Exit c u) \<Longrightarrow> main_runs E G s c u"
proof (induction n arbitrary: s)
  case (Suc n)
  from Suc.prems(1) obtain s' where "main_step E G s s'" "(main_step E G ^^ n) s' t" by (rule relpowp_Suc_E2)
  with Suc show ?case by (blast intro: main_runs.going)
qed (auto intro: main_runs.exit)

text \<open>The program always ends. Whatever the input, the arguments, the decompression library and the
  allocator are, a run started on an input goes through at most as many rounds as the input has
  bytes, the buffer and the standard input together; it then has an exit code, or stops in a
  round that leaves the memory of the program. There is no input on which it loops forever.\<close>

theorem main_ends:
  assumes "main_start P a i = Some s"
  shows "\<exists>n t. n \<le> length (input_bytes i) + length (std_in i) \<and> (main_step E G ^^ n) s t
    \<and> (main_round E G t = None \<or> (\<exists>c u. main_round E G t = Some (Exit c u) \<and> main_runs E G s c u))"
proof -
  have s: "dec_bptr (m_dec s) = RdbBufptr_init (Ptr False (input_bytes i) 0) (length (input_bytes i))" "m_in s = i"
    using assms by (auto simp: main_start_def RdbDecode_new_def split: option.splits)
  then have "between s" "main_left s = length (input_bytes i) + length (std_in i)"
    by (auto simp: between_def tidy_def main_left_def input_left_def RdbBufptr_init_def)
  with main_stops [of s E G] obtain n t where t: "n \<le> length (input_bytes i) + length (std_in i)" "(main_step E G ^^ n) s t"
    "\<nexists>u. main_round E G t = Some (Going u)" by auto
  moreover have "main_round E G t = None \<or> (\<exists>c u. main_round E G t = Some (Exit c u))"
    using t(3) by (metis main_result.exhaust not_None_eq)
  ultimately show ?thesis using runs_steps [OF t(2)] by blast
qed

theorem main_ends_witness:
  "\<exists>P s. main_start P (main_get_args [''rdbparser'']) \<lparr>input_bytes = [1, 2], input_buf_size = 4, input_eof = True, std_in = []\<rparr> = Some s
    \<and> (\<exists>n t. n \<le> 2 \<and> (main_step \<lparr>lzf_decompress = (\<lambda>_ _. []), malloc_ok = (\<lambda>_. True), uninit = (\<lambda>_. 0)\<rparr> (\<lambda>_. []) ^^ n) s t)"
proof -
  let ?i = "\<lparr>input_bytes = [1, 2], input_buf_size = 4, input_eof = True, std_in = []\<rparr>"
  have "\<exists>s. main_start P (main_get_args [''rdbparser'']) ?i = Some s" for P
    by (simp add: main_start_def main_filter_def main_get_args_def get_arg_def get_arg_from.simps)
  then show ?thesis using main_ends [of _ "main_get_args [''rdbparser'']" ?i] by fastforce
qed

section \<open>The loops over packed lists\<close>

text \<open>A bound on the rounds that decreases: more rounds change nothing.\<close>

lemma elem_loop_enough:
  assumes "\<And>lv lv'. nxt lv = Some (True, lv') \<Longrightarrow> measure_of lv' < (measure_of lv :: nat)" "measure_of lv < k" "measure_of lv < k'"
  shows "elem_loop k nxt b ev num lv = elem_loop k' nxt b ev num lv"
  using assms(2,3)
proof (induction k arbitrary: k' num lv)
  case (Suc k)
  then obtain j where k': "k' = Suc j" by (cases k') auto
  have "elem_loop k nxt b ev (Suc num) lv' = elem_loop j nxt b ev (Suc num) lv'" if "nxt lv = Some (True, lv')" for lv'
    using assms(1) [OF that] Suc.prems k' by (intro Suc.IH) linarith+
  then show ?case
    by (cases "nxt lv") (auto simp: k' fun_eq_iff run_simps andThen_def split: prod.split outcome.split)
qed simp

lemma pair_loop_enough:
  assumes "\<And>lv lv'. nxt lv = Some (True, lv') \<Longrightarrow> measure_of lv' < (measure_of lv :: nat)" "measure_of lv < k" "measure_of lv < k'"
  shows "pair_loop k nxt b ev num lv = pair_loop k' nxt b ev num lv"
  using assms(2,3)
proof (induction k arbitrary: k' num lv)
  case (Suc k)
  then obtain j where k': "k' = Suc j" by (cases k') auto
  have "pair_loop k nxt b ev (Suc num) lv2 = pair_loop j nxt b ev (Suc num) lv2"
    if "nxt lv = Some (True, lv1)" "nxt lv1 = Some (True, lv2)" for lv1 lv2
    using assms(1) [OF that(1)] assms(1) [OF that(2)] Suc.prems k' by (intro Suc.IH) linarith+
  then have "andThen (checked (nxt lv1)) (\<lambda>(more, lv2). if \<not> more then ret () else pair_loop k nxt b ev (Suc num) lv2) s
      = andThen (checked (nxt lv1)) (\<lambda>(more, lv2). if \<not> more then ret () else pair_loop j nxt b ev (Suc num) lv2) s"
    if "nxt lv = Some (True, lv1)" for lv1 s
    using that by (cases "nxt lv1") (auto simp: run_simps)
  then show ?case
    by (cases "nxt lv") (auto simp: k' fun_eq_iff run_simps andThen_def split: prod.split outcome.split)
qed simp

lemma pos_decreases:
  assumes "lv_next_pos lv < lv_next_pos lv' \<and> lv_next_pos lv' \<le> n \<and> Q"
  shows "n - lv_next_pos lv' < n - lv_next_pos lv"
  using assms by linarith

text \<open>C26: The loops over ziplists and listpacks end by themselves. For any content of the list, a bound on the rounds
  above the end of the list does not change what a loop does: the bound in the model cuts nothing off.\<close>

theorem packed_loops_end:
  assumes "zip_init m p sz z0 = Some (True, z)" "lp_init m' p' sz' l0 = Some (True, l)" "zl_end z < k" "lp_end l < k'"
  shows "elem_loop k (zip_next m z) b ev num lv = elem_loop (Suc (zl_end z)) (zip_next m z) b ev num lv
    \<and> pair_loop k (zip_next m z) b ev2 num lv = pair_loop (Suc (zl_end z)) (zip_next m z) b ev2 num lv
    \<and> elem_loop k' (lp_next m' l) b ev num lv = elem_loop (Suc (lp_end l)) (lp_next m' l) b ev num lv
    \<and> pair_loop k' (lp_next m' l) b ev2 num lv = pair_loop (Suc (lp_end l)) (lp_next m' l) b ev2 num lv"
proof -
  have z: "zlbytes z \<noteq> 0" and l: "lpbytes l \<noteq> 0"
    using assms(1,2) by (auto simp: zip_init_def lp_init_def Let_def bind_Some_iff word_less_nat_alt split: if_splits)
  have d: "zip_next m z lv = Some (True, lv') \<Longrightarrow> zl_end z - lv_next_pos lv' < zl_end z - lv_next_pos lv"
    "lp_next m' l lv = Some (True, lv') \<Longrightarrow> lp_end l - lv_next_pos lv' < lp_end l - lv_next_pos lv" for lv lv'
    using pos_decreases [OF zip_next_True [OF _ z]] pos_decreases [OF lp_next_True [OF _ l]] by blast+
  show ?thesis
    using assms(3,4)
    by (intro conjI elem_loop_enough [where measure_of = "\<lambda>lv. zl_end z - lv_next_pos lv", OF d(1)]
        pair_loop_enough [where measure_of = "\<lambda>lv. zl_end z - lv_next_pos lv", OF d(1)]
        elem_loop_enough [where measure_of = "\<lambda>lv. lp_end l - lv_next_pos lv", OF d(2)]
        pair_loop_enough [where measure_of = "\<lambda>lv. lp_end l - lv_next_pos lv", OF d(2)]) auto
qed

theorem packed_loops_end_witness:
  "\<exists>z l. zip_init [11, 0, 0, 0, 10, 0, 0, 0, 0, 0, 255] 0 11 RdbZipList_new = Some (True, z) \<and> lp_init [7, 0, 0, 0, 0, 0, 255] 0 7 RdbListPack_new = Some (True, l)
    \<and> elem_loop 100 (zip_next [11, 0, 0, 0, 10, 0, 0, 0, 0, 0, 255] z) Null (\<lambda>n r. D_list n 0 r) 0 RdbListValue_new
      = elem_loop (Suc (zl_end z)) (zip_next [11, 0, 0, 0, 10, 0, 0, 0, 0, 0, 255] z) Null (\<lambda>n r. D_list n 0 r) 0 RdbListValue_new"
proof -
  obtain z l where "zip_init [11, 0, 0, 0, 10, 0, 0, 0, 0, 0, 255] 0 11 RdbZipList_new = Some (True, z)" "zl_end z < 100"
    "lp_init [7, 0, 0, 0, 0, 0, 255] 0 7 RdbListPack_new = Some (True, l)" "lp_end l < 100"
    by (simp add: zip_init_def lp_init_def endian_read_bytes rdn_def mem_load_def RdbZipList_new_def RdbListPack_new_def)
  then show ?thesis using packed_loops_end by blast
qed

end
