(* ===== verification/Rdb_Safety.thy ===== *)
theory Rdb_Safety
  imports Rdb_Body
begin

text \<open>
  Memory safety of the decoder: whatever the bytes are, the header of a record and the bodies made
  of strings read only memory they may read, leave the state sound, and pass only readable strings
  to the output.
\<close>

section \<open>Progress of the meta data loop\<close>

text \<open>The bytes still to be read, of the current buffer and of the one under it.\<close>

definition left :: "RdbBufptr \<Rightarrow> nat" where
  "left bp = avail bp + sav_avail bp"

lemma left_incr:
  "incr n bp = (Ok (Some b), bp') \<Longrightarrow> left bp' + n = left bp"
  "incr n bp = (Ok None, bp') \<Longrightarrow> bp' = bp"
  "incr n bp \<noteq> (Err e, bp')" "incr n bp \<noteq> (Fault, bp')"
  by (auto simp: incr_def left_def split: if_splits)

lemma left_look: "look n bp = (r, bp') \<Longrightarrow> left bp' = left bp"
  by (auto simp: look_def left_def pop_sav_def Let_def split: option.splits if_splits)

lemma decode_left:
  assumes "decode L bp = (r, bp')" "wf_bufptr bp"
  shows "left bp' \<le> left bp" "r = Ok x \<Longrightarrow> left bp' < left bp"
proof -
  let ?rest = "\<lambda>(sz, L'). if sz < 0 then throw RDB_ERR_HDR
     else andThen (incr (nat sz)) (\<lambda>r. case r of None \<Rightarrow> throw RDB_ERR_TRUNC | Some _ \<Rightarrow> ret L')"
  have rest: "left bp' \<le> left bp \<and> (\<forall>x. r = Ok x \<longrightarrow> left bp' < left bp)"
    if "?rest (sz, L') bp1 = (r, bp')" "left bp1 = left bp" "sz = -1 \<or> 1 \<le> sz" for sz L' bp1
  proof (cases "sz < 0")
    case True
    with that show ?thesis by (auto simp: run_simps)
  next
    case False
    obtain o1 bp2 where i: "incr (nat sz) bp1 = (o1, bp2)" by fastforce
    with False that have "(case o1 of Ok None \<Rightarrow> left bp2 = left bp1 | Ok (Some _) \<Rightarrow> left bp2 < left bp1 | _ \<Rightarrow> False)"
      using left_incr [of "nat sz" bp1] by (fastforce split: outcome.splits option.splits)
    with False that i show ?thesis
      by (auto simp: andThen_def run_simps split: outcome.splits option.splits)
  qed
  have "left bp' \<le> left bp \<and> (\<forall>x. r = Ok x \<longrightarrow> left bp' < left bp)"
  proof (cases "avail bp \<ge> MAX_RDB_HDRLEN")
    case True
    then obtain n L' where d: "decode_buf (pmem (buf bp)) (ppos (buf bp)) L = Some (n, L')" "n = -1 \<or> 1 \<le> n"
      using decode_buf_bounded [of "ppos (buf bp)" "pmem (buf bp)" L] assms(2)
      by (auto simp: wf_bufptr_def readable_def)
    with True assms(1) have "?rest (n, L') bp = (r, bp')"
      by (simp add: decode_def run_simps)
    from rest [OF this refl d(2)] show ?thesis .
  next
    case False
    have "fst (look MAX_RDB_HDRLEN bp) \<noteq> Fault" "\<And>la bp1. look MAX_RDB_HDRLEN bp = (Ok la, bp1) \<Longrightarrow> length la = 32"
      using triple_no_fault [OF look_wf assms(2), of MAX_RDB_HDRLEN] triple_Ok [OF look_wf assms(2), of MAX_RDB_HDRLEN]
      by (auto simp: MAX_RDB_HDRLEN_def)
    then obtain la bp1 where l: "look MAX_RDB_HDRLEN bp = (Ok la, bp1)" "length la = 32"
      by (cases "look MAX_RDB_HDRLEN bp"; cases "fst (look MAX_RDB_HDRLEN bp)")
        (auto simp: look_def Let_def split: option.splits if_splits)
    then obtain n L' where d: "decode_buf la 0 L = Some (n, L')" "n = -1 \<or> 1 \<le> n"
      using decode_buf_bounded [of 0 la L] by (auto simp: MAX_RDB_HDRLEN_def)
    with False assms(1) l have "?rest (n, L') bp1 = (r, bp')"
      by (simp add: decode_def run_simps andThen_Ok)
    from rest [OF this left_look [OF l(1)] d(2)] show ?thesis .
  qed
  then show "left bp' \<le> left bp" "r = Ok x \<Longrightarrow> left bp' < left bp" by auto
qed

lemma decompress_left:
  assumes "decompress E z n bp = (r, bp')"
  shows "r \<noteq> Ok True \<Longrightarrow> left bp' \<le> left bp" "r = Ok True \<Longrightarrow> avail bp' = unat n \<and> sav_avail bp' \<le> left bp"
  using assms
  by (auto simp: decompress_def andThen_def incr_def ret_def checked_def modify_def Let_def left_def
      split: if_splits option.splits)

lemma consume_left:
  assumes "consume E L bp = (r, bp')"
  shows "left bp' \<le> left bp"
proof -
  have inc: "left bp2 \<le> left bp1"
    if "andThen (incr n) (\<lambda>r. case r of None \<Rightarrow> throw RDB_ERR_TRUNC | Some b \<Rightarrow> ret b) bp1 = (r, bp2)" for n bp1 bp2
    using that by (auto simp: andThen_def incr_def left_def run_simps split: if_splits)
  show ?thesis
  proof (cases "l_is_enc L = 0 \<and> l_is_lzf L")
    case True
    obtain o1 bp1 where d: "decompress E (l_zlen L) (l_len L) bp = (o1, bp1)" by fastforce
    show ?thesis
    proof (cases "o1 = Ok True")
      case ok: True
      with True d assms have "andThen (incr (unat (l_len L))) (\<lambda>r. case r of None \<Rightarrow> throw RDB_ERR_TRUNC | Some b \<Rightarrow> ret b) bp1 = (r, bp')"
        by (simp add: consume_def run_simps andThen_def [of "decompress _ _ _"])
      then show ?thesis
        using decompress_left(2) [OF d ok] by (auto simp: andThen_def incr_def left_def run_simps)
    next
      case False
      with True d assms have "bp' = bp1"
        by (auto simp: consume_def run_simps andThen_def [of "decompress _ _ _"] split: outcome.splits)
      with decompress_left(1) [OF d False] show ?thesis by simp
    qed
  next
    case False
    then consider "l_is_enc L \<noteq> 0" | "l_is_enc L = 0" "\<not> l_is_lzf L" by auto
    then show ?thesis
      using assms inc [of "unat (l_len L)" bp bp'] by cases (auto simp: consume_def run_simps)
  qed
qed

text \<open>The invariant with a bound on the bytes still to be read.\<close>

definition dec_at :: "nat \<Rightarrow> RdbDecode \<Rightarrow> bool" where
  "dec_at n s \<longleftrightarrow> dec_ok s \<and> left (dec_bptr s) \<le> n"

interpretation hdr: state_invariant "dec_at n" for n
proof
  have "dec_at n ((RdbDecode_new (RdbBufptr_init Null 0))\<lparr>dec_out := DataOut, dec_data_out := DataOut\<rparr>)"
    by (simp add: dec_at_def dec_ok_def left_def RdbDecode_new_def wf_bufptr_def RdbBufptr_init_def)
  then show "\<exists>s. dec_at n s" ..
qed

lemma hdr_safe:
  assumes "dec.safe m A" "\<And>s r s'. dec_ok s \<Longrightarrow> m s = (r, s') \<Longrightarrow> left (dec_bptr s') \<le> left (dec_bptr s)"
  shows "hdr.safe n m A"
  using assms unfolding dec.safe_iff hdr.safe_iff dec_at_def
  by (metis le_trans prod.collapse)

lemma hdr_onb:
  assumes "dec.safe (onb m) A" "\<And>bp r bp'. wf_bufptr bp \<Longrightarrow> m bp = (r, bp') \<Longrightarrow> left bp' \<le> left bp"
  shows "hdr.safe n (onb m) A"
  by (rule hdr_safe [OF assms(1)]) (auto simp: onb_def zoom_def dec_ok_def split: prod.splits dest: assms(2))

lemma hdr_emit: "ev_safe e \<Longrightarrow> hdr.safe n (emit e) (\<lambda>_. True)"
  by (rule hdr_safe [OF safe_emit])
    (auto simp: emit_def call_out_def run_simps split: out_ptr.splits)

lemma hdr_decode: "hdr.safe n (onb (decode L)) (\<lambda>_. True)"
  by (rule hdr_onb [OF safe_onb_decode decode_left(1)])

lemma hdr_incr_or_trunc: "hdr.safe n (incr_or_trunc k) (\<lambda>b. readable b k)"
  by (rule hdr_safe [OF safe_incr_or_trunc])
    (auto simp: incr_or_trunc_def onb_def zoom_def andThen_def incr_def left_def run_simps split: if_splits option.splits)

lemma hdr_plain_len: "hdr.safe n plain_len (\<lambda>_. True)"
  unfolding plain_len_def
  by (intro hdr.safe_andThen [OF hdr_decode] hdr.safe_if hdr.safe_ret hdr.safe_throw) auto

lemma hdr_aux_string:
  assumes "bounded_lzf E" "no_wrap E"
  shows "hdr.safe n (aux_string E) (\<lambda>r. str_val r \<noteq> None)"
proof -
  have "hdr.safe n (onb (consume E L)) (\<lambda>b. readable b (unat (l_len L)))" for L
    by (rule hdr_onb [OF safe_consume [OF assms] consume_left])
  then show ?thesis
    unfolding aux_string_def
    by (intro hdr.safe_andThen [OF hdr_decode] hdr.safe_if hdr.safe_ret)
      (auto intro!: hdr.safe_andThen hdr.safe_ret simp: readable_def rdn_def)
qed

lemma hdr_read:
  assumes "readable b n" "0 < n"
  shows "rd8 (pmem b) (ppos b) \<noteq> None"
  using assms by (auto simp: readable_def rd8_def)

lemma hdr_read_n:
  "readable b 8 \<Longrightarrow> le64 (pmem b) (ppos b) \<noteq> None"
  "readable b 4 \<Longrightarrow> le32 (pmem b) (ppos b) \<noteq> None"
  by (auto simp: readable_def endian_read_bytes rdn_def)

lemma hdr_meta_safe:
  assumes "bounded_lzf E" "no_wrap E"
  shows "hdr.safe n (hdr_meta E m) (\<lambda>_. True)"
proof (cases m)
  case RDB_AUX
  then show ?thesis
    by (auto intro!: hdr.safe_andThen [OF hdr_aux_string [OF assms]] hdr_emit simp: ev_safe_def)
qed (auto intro!: hdr.safe_throw hdr.safe_andThen [OF hdr_plain_len] hdr_emit
    hdr.safe_andThen [OF hdr_incr_or_trunc] hdr.safe_andThen [OF hdr.safe_checked [where A = "\<lambda>_. True"]]
    dest: hdr_read hdr_read_n simp: ev_safe_def)

text \<open>As many rounds as there are bytes, and one, are enough, and no byte outside is read.\<close>

lemma hdr_metas_safe:
  assumes "bounded_lzf E" "no_wrap E" "dec_at n s" "n < k"
  shows "fst (hdr_metas k E s) \<noteq> Fault \<and> dec_at n (snd (hdr_metas k E s))"
  using assms(3,4)
proof (induction k arbitrary: n s)
  case (Suc k)
  let ?bp = "dec_bptr s"
  show ?case
  proof (cases "avail ?bp = 0")
    case True
    with Suc.prems show ?thesis by (simp add: run_simps)
  next
    case False
    with Suc.prems obtain b where b: "peek 0 s = (Ok b, s)"
      by (auto simp: peek_def run_simps dec_at_def dec_ok_def wf_bufptr_def readable_def rd8_def)
    show ?thesis
    proof (cases "meta_of b")
      case None
      with False b Suc.prems show ?thesis by (simp add: run_simps andThen_Ok)
    next
      case (Some m)
      let ?s1 = "s\<lparr>dec_bptr := ?bp\<lparr>avail := avail ?bp - 1, offset := offset ?bp + 1, buf := padd (buf ?bp) 1\<rparr>\<rparr>"
      have i: "onb (incr 1) s = (Ok (Some (buf ?bp)), ?s1)"
        using False by (simp add: onb_def zoom_def incr_def)
      have n: "n > 0" and s1: "dec_at (n - 1) ?s1"
        using False Suc.prems by (auto simp: dec_at_def dec_ok_def wf_bufptr_def left_def intro!: readable_padd)
      obtain r s2 where m: "hdr_meta E m ?s1 = (r, s2)" by fastforce
      with hdr.safeD [OF hdr_meta_safe [OF assms(1,2)] s1, of m] have s2: "dec_at (n - 1) s2" "r \<noteq> Fault" by auto
      then have "dec_at n s2" by (auto simp: dec_at_def)
      moreover have "n - 1 < k" using n Suc.prems(2) by simp
      from Suc.IH [OF s2(1) this] have "dec_at n (snd (hdr_metas k E s2))" "fst (hdr_metas k E s2) \<noteq> Fault"
        by (auto simp: dec_at_def)
      ultimately show ?thesis
        using False b Some i m s2(2)
        by (cases r) (simp_all add: run_simps andThen_Ok andThen_Err)
    qed
  qed
qed simp

section \<open>Safety of the version and the record header\<close>

text \<open>A record has at least one byte more than the version and the checksum.\<close>

definition dec_long :: "RdbDecode \<Rightarrow> bool" where
  "dec_long s \<longleftrightarrow> dec_ok s \<and> 11 \<le> avail (dec_bptr s)"

interpretation ver: state_invariant dec_long
proof
  have "dec_long ((RdbDecode_new (RdbBufptr_init (Ptr False (replicate 11 0) 0) 11))\<lparr>dec_out := DataOut, dec_data_out := DataOut\<rparr>)"
    by (simp add: dec_long_def dec_ok_def RdbDecode_new_def wf_bufptr_def RdbBufptr_init_def readable_def)
  then show "\<exists>s. dec_long s" ..
qed

lemma ver_peek: "i < 11 \<Longrightarrow> ver.safe (peek i) (\<lambda>_. True)"
  unfolding ver.safe_iff
  by (auto simp: peek_def run_simps dec_long_def dec_ok_def wf_bufptr_def readable_def rd8_def)

lemma ver_peek_back: "0 < k \<Longrightarrow> k \<le> 11 \<Longrightarrow> ver.safe (peek_back k) (\<lambda>_. True)"
  unfolding ver.safe_iff
  by (auto simp: peek_back_def run_simps dec_long_def dec_ok_def wf_bufptr_def readable_def rd8_def)

lemma ver_modify: "(\<And>s. dec_long s \<Longrightarrow> dec_long (h s)) \<Longrightarrow> ver.safe (modify h) (\<lambda>_. True)"
  by (rule ver.safe_modify) auto

lemma dec_long_updates [simp]:
  "dec_long (s\<lparr>dec_ver := v\<rparr>) = dec_long s" "dec_long (s\<lparr>dec_crc := c\<rparr>) = dec_long s"
  "dec_long (s\<lparr>dec_tab := t\<rparr>) = dec_long s" "dec_long (s\<lparr>dec_is_rdb_file := b\<rparr>) = dec_long s"
  "dec_long (s\<lparr>dec_is_rdb_file := b, dec_ver := v\<rparr>) = dec_long s"
  by (simp_all add: dec_long_def dec_ok_def)

lemma ver_digits: "\<forall>i \<in> set is. i < 11 \<Longrightarrow> ver.safe (hdr_digits is) (\<lambda>_. True)"
proof (induction "is")
  case Nil
  then show ?case by (auto intro: ver.safe_ret)
next
  case (Cons i "is")
  then show ?case
    by (auto intro!: ver.safe_andThen [OF ver_peek] ver.safe_if ver.safe_throw ver.safe_andThen [OF ver_modify])
qed

lemma ver_crc_bytes:
  assumes "8 \<le> off" "off \<le> 9"
  shows "ver.safe (andThen (gets dec_bptr) (\<lambda>bp. andThen (checked (le64 (pmem (buf bp)) (ppos (buf bp) + avail bp - off)))
    (\<lambda>c. andThen (modify (\<lambda>s. s\<lparr>dec_crc := c\<rparr>)) (\<lambda>_. ret off)))) (\<lambda>off. 8 \<le> off \<and> off \<le> 9)"
proof (rule ver.safe_andThen [OF ver.safe_gets [where A = "\<lambda>bp. wf_bufptr bp \<and> 11 \<le> avail bp"]])
  fix bp assume bp: "wf_bufptr bp \<and> 11 \<le> avail bp"
  with assms have "le64 (pmem (buf bp)) (ppos (buf bp) + avail bp - off) \<noteq> None"
    by (auto simp: wf_bufptr_def readable_def endian_read_bytes rdn_def)
  with assms show "ver.safe (andThen (checked (le64 (pmem (buf bp)) (ppos (buf bp) + avail bp - off)))
    (\<lambda>c. andThen (modify (\<lambda>s. s\<lparr>dec_crc := c\<rparr>)) (\<lambda>_. ret off))) (\<lambda>off. 8 \<le> off \<and> off \<le> 9)"
    by (auto intro!: ver.safe_andThen [OF ver.safe_checked [where A = "\<lambda>_. True"]] ver.safe_andThen [OF ver_modify] ver.safe_ret)
qed (auto simp: dec_long_def dec_ok_def)

lemma ver_file: "ver.safe hdr_file (\<lambda>off. 8 \<le> off \<and> off \<le> 9)"
  unfolding hdr_file_def
  by (auto intro!: ver.safe_andThen [OF ver_modify] ver.safe_andThen [OF ver_digits]
      ver.safe_andThen [OF ver_peek_back] ver.safe_if ver.safe_ret ver_crc_bytes simp del: hdr_digits.simps)

lemma ver_dump: "ver.safe hdr_dump (\<lambda>off. 8 \<le> off \<and> off \<le> 9)"
proof -
  have gets: "ver.safe (gets dec_ver) (\<lambda>_. True)" by (rule ver.safe_gets) simp
  have off: "ver.safe (if c then andThen (peek_back 10) (\<lambda>v. andThen (peek_back 11) (\<lambda>w.
         andThen (modify (\<lambda>s. s\<lparr>dec_ver := ucast w OR push_bit 8 (ucast v)\<rparr>)) (\<lambda>_. ret 9)))
       else ret 8) (\<lambda>off. 8 \<le> off \<and> off \<le> (9 :: nat))" for c
    by (auto intro!: ver.safe_if ver.safe_andThen [OF ver_peek_back] ver.safe_andThen [OF ver_modify] ver.safe_ret)
  show ?thesis
    unfolding hdr_dump_def
    by (auto intro!: ver.safe_andThen [OF ver_modify] ver.safe_andThen [OF ver_peek_back]
        ver.safe_andThen [OF gets] ver.safe_andThen [OF off] ver_crc_bytes)
qed

lemma ver_check_crc: "ver.safe (hdr_check_crc off) (\<lambda>_. True)"
proof -
  have "ver.safe (andThen (checked (rdn (pmem (buf (dec_bptr s))) (ppos (buf (dec_bptr s))) (avail (dec_bptr s) - off))) (\<lambda>bs.
         case jones_crc64 (dec_tab s) (dec_addr s + word_of_nat (ppos (buf (dec_bptr s)))) 0 bs of (calc, tab) \<Rightarrow>
         andThen (modify (\<lambda>s. s\<lparr>dec_tab := tab\<rparr>)) (\<lambda>_.
         if calc \<noteq> dec_crc s \<and> \<not> dec_is_rdb_file s then throw RDB_ERR_CRC else ret ()))) (\<lambda>_. True)"
    if "dec_long s" for s
  proof -
    have "rdn (pmem (buf (dec_bptr s))) (ppos (buf (dec_bptr s))) (avail (dec_bptr s) - off) \<noteq> None"
      using that by (auto simp: dec_long_def dec_ok_def wf_bufptr_def readable_def rdn_def)
    then show ?thesis
      by (auto intro!: ver.safe_andThen [OF ver.safe_checked [where A = "\<lambda>_. True"]] ver.safe_andThen [OF ver_modify]
          ver.safe_if ver.safe_throw ver.safe_ret split: prod.splits)
  qed
  then show ?thesis
    unfolding hdr_check_crc_def
    by (auto intro!: ver.safe_andThen [OF ver.safe_gets [where A = dec_long]] ver.safe_if ver.safe_ret)
qed

lemma avail_cut: "9 \<le> k \<Longrightarrow> k \<le> 11 \<Longrightarrow> 11 \<le> n \<Longrightarrow> unat (word_of_nat n - word_of_nat k :: u64) \<le> n"
  by (metis le_trans of_nat_diff unat_of_nat mod_less_eq_dividend diff_le_self)

lemma hdr_version_safe:
  assumes "dec_long s"
  shows "fst (hdr_version s) \<noteq> Fault \<and> dec_ok (snd (hdr_version s))"
proof -
  let ?rest = "\<lambda>bp. andThen (checked (rdn (pmem (buf bp)) (ppos (buf bp)) 7)) (\<lambda>magic.
     andThen (if magic = rdb_magic then hdr_file else hdr_dump) (\<lambda>off.
     andThen (hdr_check_crc off) (\<lambda>_. ret off)))"
  let ?fin = "\<lambda>off. andThen (gets dec_is_rdb_file) (\<lambda>file.
     if \<not> file then onb (modify (\<lambda>bp. bp\<lparr>avail := unat (word_of_nat (avail bp) - word_of_nat (off + 2) :: u64)\<rparr>))
     else andThen (onb (incr (5 + 4))) (\<lambda>_. ret ()))"
  let ?s = "s\<lparr>dec_crc := 0\<rparr>" and ?bp = "dec_bptr s"
  have "rdn (pmem (buf ?bp)) (ppos (buf ?bp)) 7 \<noteq> None"
    using assms by (auto simp: dec_long_def dec_ok_def wf_bufptr_def readable_def rdn_def)
  then have rest: "ver.safe (?rest ?bp) (\<lambda>off. 8 \<le> off \<and> off \<le> 9)"
    by (auto intro!: ver.safe_andThen [OF ver.safe_checked [where A = "\<lambda>_. True"]] ver.safe_andThen [OF ver.safe_if [OF ver_file ver_dump]]
        ver.safe_andThen [OF ver_check_crc] ver.safe_ret)
  have eq: "hdr_version s = andThen (?rest ?bp) ?fin ?s"
    unfolding hdr_version_def andThen_assoc andThen_ret
    using assms by (simp add: run_andThen(3) [where g = dec_bptr] run_andThen(4) run_if dec_long_def)
  obtain r t where rt: "?rest ?bp ?s = (r, t)" by fastforce
  have t: "dec_long t" "r \<noteq> Fault" "\<And>off. r = Ok off \<Longrightarrow> 8 \<le> off \<and> off \<le> 9"
    using ver.safeD [OF rest, of ?s] assms rt by auto
  show ?thesis
  proof (cases r)
    case (Ok off)
    have "readable (buf (dec_bptr t)) (unat (word_of_nat (avail (dec_bptr t)) - word_of_nat (off + 2) :: u64))"
      by (rule readable_le [OF _ avail_cut]) (use t Ok in \<open>auto simp: dec_long_def dec_ok_def wf_bufptr_def\<close>)
    with Ok rt t show ?thesis
      by (auto simp: eq andThen_Ok [of "?rest ?bp"] run_simps onb_def zoom_def incr_def andThen_def dec_long_def dec_ok_def wf_bufptr_def
          intro!: readable_padd)
  next
    case (Err e)
    with rt t show ?thesis by (simp add: eq andThen_Err [of "?rest ?bp"] dec_long_def)
  qed (use t in simp)
qed

lemma rdn_readable: "rdn (pmem b) (ppos b) n = None \<longleftrightarrow> \<not> readable b n"
  by (auto simp: readable_def rdn_def)

lemma ver_bytes: "unat (ucast (a :: u8) OR push_bit 8 (ucast (b :: u8)) :: u16) = unat a + 256 * unat b"
proof -
  have "unat (ucast a :: u16) = unat a" "unat (ucast b :: u16) = unat b"
    by (simp_all add: unat_u8_up)
  then show ?thesis
    using unat_push_or [of "ucast a :: u16" 8 "ucast b"] unat_lt_256 [of a] unat_lt_256 [of b]
    by (simp add: or.commute)
qed

lemma safe_peek: "dec_ok s \<Longrightarrow> avail (dec_bptr s) \<noteq> 0 \<Longrightarrow> \<exists>b. peek 0 s = (Ok b, s)"
  by (auto simp: peek_def run_simps dec_ok_def wf_bufptr_def readable_def rd8_def)

lemma safe_onb_incr: "dec.safe (onb (incr n)) (\<lambda>r. \<forall>b. r = Some b \<longrightarrow> readable b n)"
  by (rule triple_onb [OF incr_wf])

lemma safe_modify_rlen: "dec.safe (modify (\<lambda>s. s\<lparr>dec_rlen := L\<rparr>)) (\<lambda>_. True)"
  by (rule dec.safe_modify) (auto simp: dec_ok_def)

lemma safe_gets_any: "dec.safe (gets g) (\<lambda>_. True)"
  by (rule dec.safe_gets) simp

lemma safe_unpack:
  assumes "bounded_lzf E" "no_wrap E"
  shows "dec.safe (if l_is_lzf L then andThen (onb (decompress E (l_zlen L) (l_len L)))
       (\<lambda>ok. if ok then ret () else throw RDB_ERR_LZF) else ret ()) (\<lambda>_. True)"
  by (auto intro!: dec.safe_if dec.safe_andThen [OF safe_decompress [OF assms]] dec.safe_ret dec.safe_throw)

lemma hdr_key_safe:
  assumes "bounded_lzf E" "no_wrap E"
  shows "dec.safe (hdr_key E) (\<lambda>_. True)"
proof -
  have k: "dec.safe (modify (\<lambda>s. s\<lparr>dec_key := f (dec_key s)\<rparr>)) (\<lambda>_. True)" if "\<And>r. str_val (f r) \<noteq> None" for f
    by (rule dec.safe_modify) (use that in \<open>auto simp: dec_ok_def\<close>)
  show ?thesis
    unfolding hdr_key_def
    by (intro dec.safe_andThen [OF safe_gets_any] dec.safe_andThen [OF dec.safe_if [where A = "\<lambda>_. True"]]
        dec.safe_andThen [OF safe_consume [OF assms]]
        k dec.safe_andThen [OF safe_modify_rlen] dec.safe_andThen [OF safe_onb_decode] safe_modify_rlen)
      (auto simp: rdn_readable)
qed

lemma hdr_record_safe:
  assumes "bounded_lzf E" "no_wrap E" "dec_ok s"
  shows "fst (hdr_record E s) \<noteq> Fault \<and> dec_ok (snd (hdr_record E s))"
proof (cases "avail (dec_bptr s) = 0")
  case True
  with assms show ?thesis by (simp add: hdr_record_def run_simps)
next
  case False
  let ?rest = "\<lambda>t off. andThen (emit_data (D_start_type t off)) (\<lambda>_.
     andThen (onb (incr 1)) (\<lambda>_.
     andThen (modify (\<lambda>s. s\<lparr>dec_rlen := RdbLength_zero\<rparr>)) (\<lambda>_.
     andThen (onb (decode RdbLength_zero)) (\<lambda>L.
     andThen (modify (\<lambda>s. s\<lparr>dec_rlen := L\<rparr>)) (\<lambda>_.
     andThen (gets dec_is_rdb_file) (\<lambda>file.
     andThen (if file then hdr_key E else ret ()) (\<lambda>_.
     andThen (gets dec_rlen) (\<lambda>L.
     if l_is_lzf L then andThen (onb (decompress E (l_zlen L) (l_len L)))
       (\<lambda>ok. if ok then ret () else throw RDB_ERR_LZF)
     else ret ()))))))))"
  have safe: "dec.safe (?rest t off) (\<lambda>_. True)" for t off
    by (intro dec.safe_andThen [OF safe_emit_data] dec.safe_andThen [OF safe_onb_incr]
        dec.safe_andThen [OF safe_modify_rlen] dec.safe_andThen [OF safe_onb_decode] dec.safe_andThen [OF safe_gets_any]
        dec.safe_andThen [OF dec.safe_if [OF hdr_key_safe [OF assms(1,2)]]] dec.safe_ret safe_unpack [OF assms(1,2)])
      (auto simp: ev_safe_def)
  obtain b where b: "peek 0 s = (Ok b, s)"
    using safe_peek [OF assms(3) False] by blast
  have t: "dec_ok (s\<lparr>dec_type := t\<rparr>)" for t
    using assms(3) by (simp add: dec_ok_def)
  show ?thesis
  proof (cases "get_rdb_type b = RDB_BAD_TYPE")
    case True
    with False b t show ?thesis by (simp add: hdr_record_def run_andThen andThen_Ok run_throw)
  next
    case bad: False
    have "hdr_record E s = ?rest (get_rdb_type b) (offset (dec_bptr s)) (s\<lparr>dec_type := get_rdb_type b\<rparr>)"
      using False b bad by (simp add: hdr_record_def run_andThen(3) [where g = dec_bptr] andThen_Ok run_andThen(4))
    with dec.safeD(1,2) [OF safe t] show ?thesis by simp
  qed
qed

text \<open>Before the first record the output need not have been chosen.\<close>

definition dec_ready :: "RdbDecode \<Rightarrow> bool" where
  "dec_ready s \<longleftrightarrow> dec_ok (if dec_out s = NoOut then s\<lparr>dec_out := dec_data_out s\<rparr> else s)"

lemma dec_ok_ready: "dec_ok s \<Longrightarrow> dec_ready s"
  by (simp add: dec_ready_def dec_ok_def)

lemma decode_hdr_safe:
  assumes "bounded_lzf E" "no_wrap E" "dec_ready s" "dec_ver s = 0 \<Longrightarrow> avail (dec_bptr s) \<noteq> 10"
  shows "fst (decode_hdr E s) \<noteq> Fault \<and> dec_ok (snd (decode_hdr E s))"
proof -
  let ?s = "if dec_out s = NoOut then s\<lparr>dec_out := dec_data_out s\<rparr> else s"
  let ?ver = "if dec_ver s = 0 then hdr_version else ret ()"
  let ?metas = "andThen (gets id) (\<lambda>s.
     andThen (if dec_is_rdb_file s then hdr_metas (Suc (avail (dec_bptr s) + sav_avail (dec_bptr s))) E else ret ()) (\<lambda>_.
     hdr_record E))"
  have s: "dec_ok ?s" "dec_bptr ?s = dec_bptr s" using assms(3) by (simp_all add: dec_ready_def)
  then have "\<not> (dec_out s = NoOut \<and> dec_data_out s = NoOut)" by (auto simp: dec_ok_def)
  then have eq: "decode_hdr E s = andThen ?ver (\<lambda>_. ?metas) ?s"
    by (cases "dec_out s = NoOut") (simp_all add: decode_hdr_def run_andThen(3) [where g = id and s = s] run_andThen(4) run_if)
  have ver: "fst (?ver ?s) \<noteq> Fault \<and> dec_ok (snd (?ver ?s))"
  proof (cases "dec_ver s = 0")
    case True
    with assms(4) s(1) consider "avail (dec_bptr s) < 10" | "dec_long ?s"
      unfolding dec_long_def s(2) by linarith
    then show ?thesis
    proof cases
      case 1
      with s True show ?thesis by (auto simp: hdr_version_def run_simps dec_ok_def)
    next
      case 2
      from hdr_version_safe [OF this] True show ?thesis by simp
    qed
  next
    case False
    with s show ?thesis by (simp add: run_ret)
  qed
  have metas: "fst (?metas t) \<noteq> Fault \<and> dec_ok (snd (?metas t))" if t: "dec_ok t" for t
  proof -
    let ?m = "if dec_is_rdb_file t then hdr_metas (Suc (avail (dec_bptr t) + sav_avail (dec_bptr t))) E else ret ()"
    have m: "fst (?m t) \<noteq> Fault \<and> dec_ok (snd (?m t))"
      using hdr_metas_safe [OF assms(1,2), of "left (dec_bptr t)" t "Suc (left (dec_bptr t))"] t
      by (auto simp: dec_at_def left_def run_ret simp del: hdr_metas.simps)
    have eq: "?metas t = andThen ?m (\<lambda>_. hdr_record E) t"
      by (simp add: run_andThen(3) del: hdr_metas.simps)
    show ?thesis
      unfolding eq
    proof (rule andThen_keeps)
      show "fst (?m t) \<noteq> Fault" "dec_ok (snd (?m t))" using m by auto
      then show "fst (hdr_record E (snd (?m t))) \<noteq> Fault \<and> dec_ok (snd (hdr_record E (snd (?m t))))"
        using hdr_record_safe [OF assms(1,2)] by blast
    qed
  qed
  show ?thesis
    unfolding eq
  proof (rule andThen_keeps)
    show "fst (?ver ?s) \<noteq> Fault" "dec_ok (snd (?ver ?s))" using ver by auto
    then show "fst (?metas (snd (?ver ?s))) \<noteq> Fault \<and> dec_ok (snd (?metas (snd (?ver ?s))))"
      by (intro metas)
  qed
qed

section \<open>Memory safety of the bodies\<close>

lemma safe_hash_loop:
  assumes "bounded_lzf E" "no_wrap E"
  shows "dec.safe (hash_loop k num cnt E) (\<lambda>_. True)"
  by (induction k arbitrary: num)
    (auto intro!: dec.safe_ret dec.safe_andThen [OF safe_decode_rlen [OF assms]] dec.safe_andThen [OF safe_emit] simp: ev_safe_def)

lemma safe_set_loop:
  assumes "bounded_lzf E" "no_wrap E"
  shows "dec.safe (set_loop k num cnt E) (\<lambda>_. True)"
  by (induction k arbitrary: num)
    (auto intro!: dec.safe_ret dec.safe_andThen [OF safe_decode_rlen [OF assms]] dec.safe_andThen [OF safe_emit] simp: ev_safe_def)

lemma safe_list_loop:
  assumes "bounded_lzf E" "no_wrap E"
  shows "dec.safe (list_loop k num cnt E) (\<lambda>_. True)"
  by (induction k arbitrary: num)
    (auto intro!: dec.safe_ret dec.safe_andThen [OF safe_decode_rlen [OF assms]] dec.safe_andThen [OF safe_emit] simp: ev_safe_def)

lemma safe_zset_score: "dec.safe zset_score (\<lambda>r. str_val r \<noteq> None)"
proof -
  have lit: "str_val (set_str (Ptr False bs 0) n r) \<noteq> None" if "unat n \<le> length bs" for bs n r
    using that by (simp add: rdn_def)
  show ?thesis
    unfolding zset_score_def
    by (intro dec.safe_andThen [OF safe_gets_any] dec.safe_if dec.safe_andThen [OF safe_incr_or_trunc]
        dec.safe_andThen [OF dec.safe_checked [where A = "\<lambda>_. True"]] dec.safe_ret lit)
      (auto dest: hdr_read hdr_read_n simp: rdn_readable unat_u8_up simp del: not_None_eq)
qed

lemma safe_zset_loop:
  assumes "bounded_lzf E" "no_wrap E"
  shows "dec.safe (zset_loop k num cnt E) (\<lambda>_. True)"
  by (induction k arbitrary: num)
    (auto intro!: dec.safe_ret dec.safe_andThen [OF safe_decode_rlen [OF assms]] dec.safe_andThen [OF safe_zset_score]
      dec.safe_andThen [OF safe_emit] simp: ev_safe_def)

lemma length_decimal: "n < 10 ^ Suc k \<Longrightarrow> length (decimal n) \<le> Suc k"
proof (induction k arbitrary: n)
  case 0
  then show ?case by (subst decimal.simps) simp
next
  case (Suc k)
  then have "n div 10 < 10 ^ Suc k" by (simp add: less_mult_imp_div_less)
  from Suc.IH [OF this] show ?case by (subst decimal.simps) simp
qed

lemma unat_and_1023: "unat (m AND 1023 :: u64) < 1024"
proof -
  have "m AND 1023 = take_bit 10 m"
    by (simp add: take_bit_eq_mask mask_eq_exp_minus_1)
  then show ?thesis using take_bit_nat_less_exp [of 10 "unat m"] by (simp add: unsigned_take_bit_eq)
qed

lemma module_str_readable: "str_val (module_str m) \<noteq> None"
proof -
  have l: "length (module_version m) \<le> 5" "length (module_id_chars m) = 9"
    using length_decimal [of "unat (m AND 1023)" 3] unat_and_1023 [of m] by (simp_all add: module_version_def module_id_chars_def)
  then have "unat (word_of_nat (9 + length (module_version m)) :: u64) = 9 + length (module_version m)"
    by (simp add: unat_of_nat del: of_nat_add)
  with l show ?thesis by (auto simp: module_str_def rdn_def simp del: of_nat_add)
qed

lemma module_skip_safe: "dec_ok s \<Longrightarrow> avail (dec_bptr s) < k \<Longrightarrow> fst (module_skip k s) \<noteq> Fault \<and> dec_ok (snd (module_skip k s))"
proof (induction k arbitrary: s)
  case (Suc k)
  let ?bp = "dec_bptr s"
  show ?case
  proof (cases "avail ?bp = 0")
    case True
    then have "onb (incr 1) s = (Ok None, s)"
      by (simp add: onb_def zoom_def incr_def)
    with Suc.prems show ?thesis
      by (simp add: andThen_Ok run_ret)
  next
    case False
    define s1 where "s1 = s\<lparr>dec_bptr := ?bp\<lparr>avail := avail ?bp - 1, offset := offset ?bp + 1, buf := padd (buf ?bp) 1\<rparr>\<rparr>"
    have i: "onb (incr 1) s = (Ok (Some (buf ?bp)), s1)"
      using False by (simp add: onb_def zoom_def incr_def s1_def)
    have s1: "dec_ok s1" "avail (dec_bptr s1) < k"
      using False Suc.prems by (auto simp: s1_def dec_ok_def wf_bufptr_def intro!: readable_padd)
    obtain c where "rd8 (pmem (buf ?bp)) (ppos (buf ?bp)) = Some c"
      using False Suc.prems hdr_read [of "buf ?bp" "avail ?bp"] by (auto simp: dec_ok_def wf_bufptr_def)
    with Suc.IH [OF s1] s1 show ?thesis
      unfolding module_skip.simps andThen_Ok [where m = "onb (incr 1)", OF i] by (simp add: run_simps)
  qed
qed simp

lemma safe_decode_module: "dec.safe decode_module (\<lambda>_. True)"
proof -
  have "dec.safe (andThen (gets (\<lambda>s. avail (dec_bptr s))) (\<lambda>n. module_skip (Suc n))) (\<lambda>_. True)"
    using module_skip_safe by (simp add: dec.safe_iff run_andThen(3) del: module_skip.simps)
  then show ?thesis
    unfolding decode_module_def
    by (auto intro!: dec.safe_andThen [OF safe_gets_any] dec.safe_if dec.safe_throw dec.safe_andThen [OF safe_start_key]
        dec.safe_andThen [OF safe_emit] dec.safe_andThen [OF safe_end_key] simp: ev_safe_def module_str_readable
        simp del: module_skip.simps)
qed

definition plain_types :: "RdbType set" where
  "plain_types = {RDB_STRING, RDB_LIST, RDB_SET, RDB_HASH, RDB_ZSET, RDB_ZSET_2, RDB_MODULE, RDB_MODULE_2}"

lemma decode_body_safe:
  assumes "bounded_lzf E" "no_wrap E" "dec_ok s" "dec_type s \<in> plain_types"
  shows "fst (decode_body E s) \<noteq> Fault \<and> dec_ok (snd (decode_body E s))"
proof -
  have str: "dec.safe decode_string (\<lambda>_. True)"
    unfolding decode_string_def
    by (intro dec.safe_andThen [OF safe_start_key] dec.safe_andThen [OF safe_gets_any] dec.safe_andThen [OF safe_decode_str]
        dec.safe_andThen [OF safe_emit] safe_end_key) (auto simp: ev_safe_def)
  have "dec.safe (decode_hash E) (\<lambda>_. True)" "dec.safe (decode_set E) (\<lambda>_. True)" "dec.safe (decode_list E) (\<lambda>_. True)"
    "dec.safe (decode_zset E) (\<lambda>_. True)"
    unfolding decode_hash_def decode_set_def decode_list_def decode_zset_def
    by (intro dec.safe_andThen [OF safe_gets_any] dec.safe_andThen [OF safe_start_key] safe_end_key
        dec.safe_andThen [OF safe_hash_loop [OF assms(1,2)]] dec.safe_andThen [OF safe_set_loop [OF assms(1,2)]]
        dec.safe_andThen [OF safe_list_loop [OF assms(1,2)]] dec.safe_andThen [OF safe_zset_loop [OF assms(1,2)]])+
  note safe = this str safe_decode_module
  show ?thesis
    using assms(4) dec.safeD(1,2) [OF safe(1) assms(3)] dec.safeD(1,2) [OF safe(2) assms(3)] dec.safeD(1,2) [OF safe(3) assms(3)]
      dec.safeD(1,2) [OF safe(4) assms(3)] dec.safeD(1,2) [OF safe(5) assms(3)] dec.safeD(1,2) [OF safe(6) assms(3)]
    by (auto simp: plain_types_def decode_body_def run_andThen(3))
qed

section \<open>Blocks of a wrapped size\<close>

text \<open>The programs of a record are the same on a machine that refuses wrapped sizes, up to the point where they fault.\<close>

lemma onb_agrees [agrees_intros]: "agrees m m' \<Longrightarrow> agrees (onb m) (onb m')"
  unfolding onb_def by (rule agrees_zoom)

lemma decode_rlen_agrees [agrees_intros]: "agrees (decode_rlen E) (decode_rlen (refusing E))"
  unfolding decode_rlen_def by (intro agrees_intros)

lemma hdr_meta_agrees [agrees_intros]: "agrees (hdr_meta E m) (hdr_meta (refusing E) m)"
  by (cases m) (auto simp: aux_string_def intro!: agrees_intros)

lemma hdr_metas_agrees [agrees_intros]: "agrees (hdr_metas k E) (hdr_metas k (refusing E))"
  by (induction k) (auto intro!: agrees_intros split: option.split)

lemma decode_hdr_agrees [agrees_intros]: "agrees (decode_hdr E) (decode_hdr (refusing E))"
  unfolding decode_hdr_def hdr_record_def hdr_key_def by (intro agrees_intros)

lemma loops_agree [agrees_intros]:
  "agrees (hash_loop k num cnt E) (hash_loop k num cnt (refusing E))" "agrees (set_loop k num cnt E) (set_loop k num cnt (refusing E))"
  "agrees (list_loop k num cnt E) (list_loop k num cnt (refusing E))" "agrees (zset_loop k num cnt E) (zset_loop k num cnt (refusing E))"
  by (induction k arbitrary: num) (auto intro!: agrees_intros)

text \<open>A record, with its body for the types whose body is strings and numbers.\<close>

definition plain_record :: "rdb_env \<Rightarrow> (RdbDecode, unit) prog" where
  "plain_record E = andThen (decode_hdr E) (\<lambda>_. andThen (gets dec_type) (\<lambda>t.
     if t \<in> plain_types then decode_body E else ret ()))"

lemma bodies_agree:
  "agrees (decode_hash E) (decode_hash (refusing E))" "agrees (decode_set E) (decode_set (refusing E))"
  "agrees (decode_list E) (decode_list (refusing E))" "agrees (decode_zset E) (decode_zset (refusing E))"
  unfolding decode_hash_def decode_set_def decode_list_def decode_zset_def by (intro agrees_intros)+

lemma plain_record_agrees: "agrees (plain_record E) (plain_record (refusing E))"
proof -
  have "agrees (andThen (gets dec_type) (\<lambda>t. if t \<in> plain_types then decode_body E else ret ()))
    (andThen (gets dec_type) (\<lambda>t. if t \<in> plain_types then decode_body (refusing E) else ret ()))"
    using bodies_agree [of E] unfolding agrees_def
    by (auto simp: run_andThen(3) decode_body_def plain_types_def)
  then show ?thesis unfolding plain_record_def by (rule agrees_andThen [OF decode_hdr_agrees])
qed

lemma plain_record_safe:
  assumes "bounded_lzf E" "no_wrap E" "dec_ready s" "dec_ver s = 0 \<Longrightarrow> avail (dec_bptr s) \<noteq> 10"
  shows "fst (plain_record E s) \<noteq> Fault \<and> dec_ok (snd (plain_record E s))"
  unfolding plain_record_def
proof (rule andThen_keeps)
  let ?t = "snd (decode_hdr E s)"
  show "fst (decode_hdr E s) \<noteq> Fault" and t: "dec_ok ?t"
    using decode_hdr_safe [OF assms(1-4)] by auto
  show "fst (andThen (gets dec_type) (\<lambda>t. if t \<in> plain_types then decode_body E else ret ()) ?t) \<noteq> Fault
    \<and> dec_ok (snd (andThen (gets dec_type) (\<lambda>t. if t \<in> plain_types then decode_body E else ret ()) ?t))"
    using decode_body_safe [OF assms(1,2) t] t by (simp add: run_andThen(3) run_ret)
qed

section \<open>Properties\<close>

text \<open>C6: The only way for a record of strings and numbers to leave the memory is a block whose size wraps. From a sound state,
  for any bytes, take \<open>decode_hdr\<close> and then \<open>decode_body\<close> for these types: on a machine that refuses requests of a
  wrapped size they end with a value or an error code, the state stays sound, and every string handed to the
  output can be read; and on any machine they either do exactly the same or fault. The first record must not be ten bytes
  long (see \<open>dump_newline_underflow\<close>). Of the library only its documented bound is assumed, at most as many bytes are written
  as it was given room for; of \<open>malloc\<close> nothing.\<close>

theorem record_memory_safe:
  assumes "bounded_lzf E" "dec_ready s" "dec_ver s = 0 \<Longrightarrow> avail (dec_bptr s) \<noteq> 10"
  shows "fst (plain_record (refusing E) s) \<noteq> Fault \<and> dec_ok (snd (plain_record (refusing E) s))
    \<and> (plain_record E s = plain_record (refusing E) s \<or> fst (plain_record E s) = Fault)"
  using plain_record_safe [of "refusing E", OF _ _ assms(2,3)] plain_record_agrees [of E] assms(1)
  by (auto simp: agrees_def)

theorem record_memory_safe_witness:
  "\<exists>E s. bounded_lzf E \<and> malloc_ok E = (\<lambda>_. True) \<and> dec_ready s \<and> avail (dec_bptr s) = 12 \<and> dec_ver s = 0
     \<and> fst (plain_record (refusing E) s) \<noteq> Fault"
proof -
  let ?E = "\<lparr>lzf_decompress = (\<lambda>zin n. take n [0]), malloc_ok = (\<lambda>_. True), uninit = (\<lambda>_. 0)\<rparr>"
  let ?s = "(RdbDecode_new (RdbBufptr_init (Ptr False [0, 1, 0x61, 9, 0, 0, 0, 0, 0, 0, 0, 0, 0] 0) 12))\<lparr>dec_data_out := DataOut\<rparr>"
  have E: "bounded_lzf ?E" by (simp add: bounded_lzf_def)
  have s: "dec_ready ?s" "avail (dec_bptr ?s) = 12" "dec_ver ?s = 0"
    by (auto simp: dec_ready_def dec_ok_def RdbDecode_new_def wf_bufptr_def RdbBufptr_init_def readable_def)
  then have "fst (plain_record (refusing ?E) ?s) \<noteq> Fault"
    using record_memory_safe [OF E s(1)] by simp
  with E s show ?thesis by (intro exI [of _ ?E] exI [of _ ?s]) simp
qed

text \<open>C37: A dump of exactly ten bytes that ends with a newline is read before its first byte: the newline makes
  \<open>decode_hdr\<close> look for the version one byte earlier, at index -1 of the buffer.\<close>

theorem dump_newline_underflow:
  assumes "length bs = 10" "bs ! 9 = 0x0a" "take 7 bs \<noteq> rdb_magic" "bs ! 0 \<noteq> 9 \<or> bs ! 1 \<noteq> 0"
  shows "fst (decode_hdr E ((RdbDecode_new (RdbBufptr_init (Ptr False bs 0) 10))\<lparr>dec_data_out := DataOut\<rparr>)) = Fault"
proof -
  have "(ucast (bs ! 0) OR push_bit 8 (ucast (bs ! 1)) :: u16) \<noteq> 9"
  proof
    assume "(ucast (bs ! 0) OR push_bit 8 (ucast (bs ! 1)) :: u16) = 9"
    then have "unat (bs ! 0) + 256 * unat (bs ! 1) = 9"
      using ver_bytes [of "bs ! 0" "bs ! 1"] by simp
    with assms(4) show False by (cases "unat (bs ! 1)") (auto simp: word_unat_eq_iff)
  qed
  with assms(1-3) show ?thesis
    by (simp add: decode_hdr_def hdr_version_def hdr_dump_def peek_back_def run_simps RdbDecode_new_def RdbBufptr_init_def
        rdn_def rd8_def andThen_Fault)
qed

theorem dump_newline_underflow_witness:
  "length [0, 1, 0x61, 0, 0, 0, 0, 0, 0, 0x0a :: u8] = 10 \<and>
   fst (decode_hdr \<lparr>lzf_decompress = (\<lambda>_ _. []), malloc_ok = (\<lambda>_. True), uninit = (\<lambda>_. 0)\<rparr>
     ((RdbDecode_new (RdbBufptr_init (Ptr False [0, 1, 0x61, 0, 0, 0, 0, 0, 0, 0x0a] 0) 10))\<lparr>dec_data_out := DataOut\<rparr>)) = Fault"
  using dump_newline_underflow [of "[0, 1, 0x61, 0, 0, 0, 0, 0, 0, 0x0a]"] by (simp add: rdb_magic_def)

end
