(* ===== verification/Rdb_File.thy ===== *)
theory Rdb_File
  imports Rdb_Records Rdb_Print Rdb_Ends Rdb_Safety
begin

text \<open>
  Files: meta data, keys and objects. The records of a file are decoded one after the other up to
  the end marker, and the program ends with exit code 0 when it has given all of them to its output.
\<close>

section \<open>Records of a file\<close>

text \<open>The meta data in front of a record.\<close>

datatype rdb_meta = MIdle u64 | MFreq u8 | MAux rdb_item rdb_item | MDbresize u64 u64 | MExpireMs u64 | MExpire u32 | MSelect u64

fun meta_ok :: "rdb_meta \<Rightarrow> bool" where
  "meta_ok (MAux a b) \<longleftrightarrow> item_ok a \<and> item_ok b"
| "meta_ok _ \<longleftrightarrow> True"

fun meta_bytes :: "rdb_meta \<Rightarrow> u8 list" where
  "meta_bytes (MIdle n) = 0xf8 # hdr_bytes n"
| "meta_bytes (MFreq b) = 0xf9 # [b]"
| "meta_bytes (MAux a b) = 0xfa # item_bytes a @ item_bytes b"
| "meta_bytes (MDbresize i j) = 0xfb # hdr_bytes i @ hdr_bytes j"
| "meta_bytes (MExpireMs ms) = 0xfc # mem_store 8 ms"
| "meta_bytes (MExpire sec) = 0xfd # mem_store 4 sec"
| "meta_bytes (MSelect n) = 0xfe # hdr_bytes n"

fun meta_kind :: "rdb_meta \<Rightarrow> RdbMeta" where
  "meta_kind (MIdle n) = RDB_IDLE"
| "meta_kind (MFreq b) = RDB_FREQ"
| "meta_kind (MAux a b) = RDB_AUX"
| "meta_kind (MDbresize i j) = RDB_DBRESIZE"
| "meta_kind (MExpireMs ms) = RDB_EXPIRED_MS"
| "meta_kind (MExpire sec) = RDB_EXPIRED_SEC"
| "meta_kind (MSelect n) = RDB_DBSELECT"

fun meta_call :: "rdb_meta \<Rightarrow> rdb_val option RdbEvent" where
  "meta_call (MIdle n) = D_idle n"
| "meta_call (MFreq b) = D_freq b"
| "meta_call (MAux a b) = D_aux (Some (item_val a)) (Some (item_val b))"
| "meta_call (MDbresize i j) = D_dbresize i j"
| "meta_call (MExpireMs ms) = D_expired_ms ms"
| "meta_call (MExpire sec) = D_expired sec"
| "meta_call (MSelect n) = D_dbselect (ucast n)"

text \<open>Between the records the decoder has an output and lets all keys pass.\<close>

definition out_ctx :: "RdbDecode \<Rightarrow> bool" where
  "out_ctx s \<longleftrightarrow> dec_out s = DataOut"

lemma steady_out_ctx [simp]: "steady out_ctx" "out_ctx s \<Longrightarrow> dec_out s = DataOut"
  by (simp_all add: steady_def out_ctx_def)

lemma reads_plain_len: "reads out_ctx plain_len (hdr_bytes n) (\<lambda>x. x = n) []"
  unfolding plain_len_def
  by (rule reads_then_quiet [OF _ reads_hdr_bytes, where ys = "[]"]) (auto intro!: reads_ret)

lemma reads_aux_string:
  assumes "item_ok i"
  shows "reads out_ctx (aux_string E) (item_bytes i) (\<lambda>r. str_val r = Some (item_val i)) []"
  unfolding aux_string_def item_bytes_def
proof (rule reads_then_quiet [OF _ reads_item_hdr [OF assms]])
  fix L assume L: "L = item_len i"
  show "reads out_ctx (if l_is_enc L \<noteq> 0 then ret (set_i32 (l_ival L) RdbString_new)
     else andThen (onb (consume E L)) (\<lambda>b. ret (set_str b (l_len L) RdbString_new))) (item_data i)
     (\<lambda>r. str_val r = Some (item_val i)) []"
  proof (cases i)
    case (ItInt x)
    then show ?thesis using assms int_width_not_0 item_int by (auto simp: L intro!: reads_ret)
  next
    case (ItStr xs)
    then have n: "unat (word_of_nat (length xs) :: u64) = length xs" using assms by (simp add: unat_of_nat)
    then have u: "unat (l_len L) = length xs" by (simp add: L ItStr)
    have "reads out_ctx (andThen (onb (consume E L)) (\<lambda>b. ret (set_str b (l_len L) RdbString_new))) xs
        (\<lambda>r. str_val r = Some (StrVal xs)) []"
      by (rule reads_then_quiet [OF _ reads_consume [OF u], where ys = "[]"])
        (auto simp: L ItStr n bytes_at_def intro!: reads_ret)
    then show ?thesis using ItStr by (simp add: L)
  qed
qed auto


lemma reads_emit_val: "ev_val e = g \<Longrightarrow> reads out_ctx (emit e) [] (\<lambda>_. True) [g]"
  using reads_emit [of out_ctx e] by simp

lemma out_then_quiet:
  "reads out_ctx m xs A [] \<Longrightarrow> (\<And>x. A x \<Longrightarrow> reads out_ctx (f x) ys B fs) \<Longrightarrow> zs = xs @ ys \<Longrightarrow> reads out_ctx (andThen m f) zs B fs"
  by (rule reads_then_quiet [OF steady_out_ctx(1)])

lemma reads_hdr_meta:
  assumes "meta_ok m"
  shows "reads out_ctx (hdr_meta E (meta_kind m)) (tl (meta_bytes m)) (\<lambda>_. True) [meta_call m]"
proof (cases m)
  case (MIdle n)
  then show ?thesis
    by (simp, intro out_then_quiet [where ys = "[]", OF reads_plain_len] reads_emit_val) auto
next
  case (MFreq b)
  then show ?thesis
    by (simp del: One_nat_def, intro reads_byte reads_emit_val) auto
next
  case (MAux a b)
  with assms have ok: "item_ok a" "item_ok b" by auto
  from MAux show ?thesis
    by (simp, intro out_then_quiet [OF reads_aux_string [OF ok(1)]]
      out_then_quiet [where ys = "[]", OF reads_aux_string [OF ok(2)]] reads_emit_val) auto
next
  case (MDbresize i j)
  then show ?thesis
    by (simp, intro out_then_quiet [OF reads_plain_len [of i]]
      out_then_quiet [where ys = "[]", OF reads_plain_len [of j]] reads_emit_val) auto
next
  case (MExpireMs ms)
  have "reads out_ctx (andThen (checked (le64 (pmem b) (ppos b))) (\<lambda>ms. emit (D_expired_ms ms))) [] (\<lambda>_. True) [D_expired_ms ms]"
    if "bytes_at (pmem b) (ppos b) (mem_store 8 ms)" for b
    using that by (simp add: bytes_at_rdn endian_read_bytes mem_load_store andThen_checked reads_emit_val)
  with MExpireMs show ?thesis
    by (simp, intro out_then_quiet [where ys = "[]", OF reads_incr_at [where xs = "mem_store 8 ms"]]) auto
next
  case (MExpire sec)
  have "reads out_ctx (andThen (checked (le32 (pmem b) (ppos b))) (\<lambda>sec. emit (D_expired sec))) [] (\<lambda>_. True) [D_expired sec]"
    if "bytes_at (pmem b) (ppos b) (mem_store 4 sec)" for b
    using that by (simp add: bytes_at_rdn endian_read_bytes mem_load_store andThen_checked reads_emit_val)
  with MExpire show ?thesis
    by (simp, intro out_then_quiet [where ys = "[]", OF reads_incr_at [where xs = "mem_store 4 sec"]]) auto
next
  case (MSelect n)
  then show ?thesis
    by (simp, intro out_then_quiet [where ys = "[]", OF reads_plain_len] reads_emit_val) auto
qed

lemma meta_first: "meta_bytes m \<noteq> []" "meta_of (hd (meta_bytes m)) = Some (meta_kind m)"
  by (cases m; simp add: meta_of_def)+

text \<open>The meta data in front of a byte that is none, with enough rounds.\<close>

lemma hdr_metas_runs:
  assumes "\<forall>m \<in> set ms. meta_ok m" "length ms < k" "out_ctx s" "wf_bufptr (dec_bptr s)"
    "has_bytes (dec_bptr s) (concat (map meta_bytes ms) @ c # ys)" "meta_of c = None"
  shows "\<exists>bp es. hdr_metas k E s = (Ok (), s\<lparr>dec_bptr := bp, dec_log := dec_log s @ es\<rparr>)
    \<and> advanced (length (concat (map meta_bytes ms))) (dec_bptr s) bp \<and> map ev_val es = map meta_call ms"
  using assms(1-5)
proof (induction ms arbitrary: k s)
  case Nil
  then obtain j where k: "k = Suc j" by (cases k) auto
  have c: "rd8 (pmem (buf (dec_bptr s))) (ppos (buf (dec_bptr s))) = Some c" "avail (dec_bptr s) \<noteq> 0"
    using Nil by (auto simp: has_bytes_def bytes_at_Cons)
  then have peek: "peek 0 s = (Ok c, s)" by (simp add: peek_def run_simps)
  have "hdr_metas k E s = (Ok (), s)"
    using c(2) by (simp add: k run_andThen(3) andThen_Ok [where m = "peek 0", OF peek] assms(6) run_ret)
  then show ?case
    using advanced_0 [OF Nil(4)] by (intro exI [of _ "dec_bptr s"] exI [of _ "[]"]) simp
next
  case (Cons m ms)
  then obtain j where k: "k = Suc j" "length ms < j" by (cases k) auto
  obtain b bs where b: "meta_bytes m = b # bs" using meta_first(1) by (cases "meta_bytes m") auto
  have mk: "meta_of b = Some (meta_kind m)" using meta_first(2) [of m] b by simp
  let ?rest = "concat (map meta_bytes ms) @ c # ys"
  have has: "has_bytes (dec_bptr s) (b # bs @ ?rest)" using Cons.prems(5) b by simp
  obtain bp1 where 1: "incr 1 (dec_bptr s) = (Ok (Some (buf (dec_bptr s))), bp1)" "advanced 1 (dec_bptr s) bp1" "wf_bufptr bp1"
    "has_bytes bp1 (bs @ ?rest)" "rd8 (pmem (buf (dec_bptr s))) (ppos (buf (dec_bptr s))) = Some b" "avail (dec_bptr s) \<noteq> 0"
    using has_bytes_Cons [OF Cons.prems(4) has] by blast
  have peek: "peek 0 s = (Ok b, s)" using 1(5) by (simp add: peek_def run_simps)
  define s1 where "s1 = s\<lparr>dec_bptr := bp1\<rparr>"
  have inc: "onb (incr 1) s = (Ok (Some (buf (dec_bptr s))), s1)"
    using 1(1) by (simp add: onb_def zoom_def s1_def)
  have m: "reads out_ctx (hdr_meta E (meta_kind m)) bs (\<lambda>_. True) [meta_call m]"
    using reads_hdr_meta [of m E] Cons.prems(1) b by simp
  have c1: "out_ctx s1" "wf_bufptr (dec_bptr s1)" "has_bytes (dec_bptr s1) bs"
    using Cons.prems(3) 1(3,4) has_bytes_prefix [of bp1 bs] by (auto simp: s1_def out_ctx_def)
  obtain x bp2 l where 2: "hdr_meta E (meta_kind m) s1 = (Ok x, s1\<lparr>dec_bptr := bp2, dec_log := dec_log s1 @ l\<rparr>)"
    "advanced (length bs) bp1 bp2" "map ev_val l = [meta_call m]"
    by (rule readsD [OF m c1]) (simp add: s1_def)
  define s2 where "s2 = s1\<lparr>dec_bptr := bp2, dec_log := dec_log s1 @ l\<rparr>"
  have s2: "out_ctx s2" "wf_bufptr (dec_bptr s2)" "has_bytes (dec_bptr s2) ?rest"
    using advanced_steps [OF 1(3,4) 2(2)] Cons.prems(3) by (auto simp: s2_def s1_def out_ctx_def)
  obtain bp es where 3: "hdr_metas j E s2 = (Ok (), s2\<lparr>dec_bptr := bp, dec_log := dec_log s2 @ es\<rparr>)"
    "advanced (length (concat (map meta_bytes ms))) bp2 bp" "map ev_val es = map meta_call ms"
    using Cons.IH [OF _ k(2) s2] Cons.prems(1) by (auto simp: s2_def)
  have "hdr_metas k E s = hdr_metas j E s2"
    using 1(6) by (simp add: k(1) run_andThen(3) andThen_Ok [where m = "peek 0", OF peek] mk
      andThen_Ok [where m = "onb (incr 1)", OF inc] andThen_Ok [where m = "hdr_meta E (meta_kind m)", OF 2(1)] s2_def
      del: One_nat_def)
  moreover have "advanced (length (meta_bytes m) + length (concat (map meta_bytes ms))) (dec_bptr s) bp"
    using advanced_advanced [OF advanced_advanced [OF 1(2) 2(2)] 3(2)] b by simp
  ultimately show ?case
    using 2(3) 3(1,3) by (intro exI [of _ bp] exI [of _ "l @ es"]) (simp add: s2_def s1_def)
qed


section \<open>Whole records\<close>

type_synonym rdb_rec = "rdb_meta list \<times> rdb_item \<times> rdb_obj"

fun rec_ok :: "rdb_rec \<Rightarrow> bool" where
  "rec_ok (ms, k, ob) \<longleftrightarrow> (\<forall>m \<in> set ms. meta_ok m) \<and> item_ok k \<and> obj_ok ob"

fun rec_bytes :: "packer \<Rightarrow> rdb_rec \<Rightarrow> u8 list" where
  "rec_bytes K (ms, k, ob) = concat (map meta_bytes ms) @ RdbType_val (obj_type ob) # item_code K k @ obj_hdr K ob @ obj_data K ob"

fun rec_calls :: "nat \<Rightarrow> rdb_rec \<Rightarrow> rdb_val option RdbEvent list" where
  "rec_calls off (ms, k, ob) = map meta_call ms @ D_start_type (obj_type ob) (off + length (concat (map meta_bytes ms)))
     # body_calls ob (Some (item_val k))"

text \<open>The state between two records of a file, and a filter that lets a key pass.\<close>

definition file_ready :: "RdbDecode \<Rightarrow> bool" where
  "file_ready s \<longleftrightarrow> in_main (dec_bptr s) \<and> direct (dec_bptr s) \<and> dec_is_rdb_file s \<and> dec_ver s \<noteq> 0 \<and> dec_out s = DataOut \<and> dec_data_out s = DataOut"

definition passes :: "RdbDecode \<Rightarrow> rdb_item \<Rightarrow> bool" where
  "passes s k \<longleftrightarrow> (\<forall>f key. dec_filter s = Some f \<longrightarrow> str_val key = Some (item_val k) \<longrightarrow> f key = Some True)"

text \<open>\<open>decode_hdr\<close> behind the version.\<close>

definition hdr_tail :: "rdb_env \<Rightarrow> (RdbDecode, unit) prog" where
  "hdr_tail E = andThen (gets id) (\<lambda>s.
     andThen (if dec_is_rdb_file s then hdr_metas (Suc (avail (dec_bptr s) + sav_avail (dec_bptr s))) E else ret ()) (\<lambda>_.
     hdr_record E))"

lemma decode_hdr_tail:
  "dec_out s = DataOut \<Longrightarrow> decode_hdr E s = andThen (if dec_ver s = 0 then hdr_version else ret ()) (\<lambda>_. hdr_tail E) s"
  by (simp add: decode_hdr_start [of s s E] hdr_tail_def)

lemma length_metas: "length ms \<le> length (concat (map meta_bytes ms))"
proof (induction ms)
  case (Cons m ms)
  have "0 < length (meta_bytes m)" using meta_first(1) by simp
  with Cons show ?case by (simp del: length_greater_0_conv)
qed simp

text \<open>The key of a record, before and after the blocks of the decompressed strings are freed.\<close>

definition key_read :: "packer \<Rightarrow> rdb_item \<Rightarrow> RdbString \<Rightarrow> RdbBufptr \<Rightarrow> RdbBufptr \<Rightarrow> bool" where
  "key_read K k key bp bp' \<longleftrightarrow> str_val key = Some (item_val k) \<and> (uncompressed K k \<or> alloced_mem bp' \<noteq> [])
     \<and> (pfree (buf bp) = buf bp \<longrightarrow> key_kept K k (freed key))"

lemma key_read_moved: "key_read K k key bp bp1 \<Longrightarrow> moved n bp1 bp2 \<Longrightarrow> key_read K k key bp bp2"
  by (auto simp: key_read_def moved_def Let_def)

lemma hdr_tail_runs:
  assumes r: "rec_ok (ms, k, ob)" and K: "compresses E K" and s: "file_ready s" "passes s k" "has_bytes (dec_bptr s) (rec_bytes K (ms, k, ob) @ ys)"
  obtains s1 bp key es where "hdr_tail E s = hdr_open E s1" "s1 = s\<lparr>dec_bptr := bp, dec_log := dec_log s @ es, dec_type := obj_type ob,
      dec_rlen := obj_len K ob, dec_key := key\<rparr>" "obj_ctx K ob (Some (item_val k)) s1" "direct bp" "has_bytes bp (obj_data K ob @ ys)"
    "moved (length (rec_bytes K (ms, k, ob)) - length (obj_data K ob)) (dec_bptr s) bp" "key_read K k key (dec_bptr s) bp"
    "map ev_val es = map meta_call ms @ [D_start_type (obj_type ob) (offset (dec_bptr s) + length (concat (map meta_bytes ms)))]"
proof -
  let ?mb = "concat (map meta_bytes ms)" and ?t = "obj_type ob"
  let ?rest = "item_code K k @ obj_hdr K ob @ obj_data K ob @ ys"
  have ok: "\<forall>m \<in> set ms. meta_ok m" "item_ok k" "obj_ok ob" using r by auto
  have has: "has_bytes (dec_bptr s) (?mb @ RdbType_val ?t # ?rest)" using s(3) by simp
  have wf: "wf_bufptr (dec_bptr s)" and main: "in_main (dec_bptr s)" "direct (dec_bptr s)" and fil: "dec_is_rdb_file s" and out: "out_ctx s"
    using s(1) by (auto simp: file_ready_def out_ctx_def in_main_def)
  have meta: "meta_of (RdbType_val ?t) = None" by (cases ob) (auto simp: meta_of_def stream_type_def)
  have le: "length ?mb \<le> avail (dec_bptr s)" using has by (simp add: has_bytes_def)
  then have fuel: "length ms < Suc (avail (dec_bptr s) + sav_avail (dec_bptr s))"
    using length_metas [of ms] by simp
  obtain bp1 es1 where 1: "hdr_metas (Suc (avail (dec_bptr s) + sav_avail (dec_bptr s))) E s
      = (Ok (), s\<lparr>dec_bptr := bp1, dec_log := dec_log s @ es1\<rparr>)"
    "advanced (length ?mb) (dec_bptr s) bp1" "map ev_val es1 = map meta_call ms"
    using hdr_metas_runs [OF ok(1) fuel out wf has meta] by blast
  note mv = advanced_moved [OF wf main le 1(2)]
  define s1 where "s1 = s\<lparr>dec_bptr := bp1, dec_log := dec_log s @ es1\<rparr>"
  have s1: "dec_data_out s1 = DataOut" "dec_is_rdb_file s1" "in_main (dec_bptr s1)" "direct (dec_bptr s1)" "has_bytes (dec_bptr s1) (RdbType_val ?t # ?rest)"
    using advanced_steps(2) [OF wf has 1(2)] mv s(1) fil by (auto simp: s1_def file_ready_def moved_def)
  obtain bp key where 2: "hdr_record E s1 = hdr_open E (s1\<lparr>dec_type := ?t, dec_log := dec_log s1 @ [D_start_type ?t (offset (dec_bptr s1))],
      dec_key := key, dec_rlen := obj_len K ob, dec_bptr := bp\<rparr>)" "str_val key = Some (item_val k)"
    "moved (Suc (length (item_code K k @ obj_hdr K ob))) (dec_bptr s1) bp" "direct bp"
    "uncompressed K k \<or> alloced_mem bp \<noteq> []" "pfree (buf (dec_bptr s1)) = buf (dec_bptr s1) \<longrightarrow> key_kept K k (freed key)"
    by (rule hdr_record_file [OF obj_type_not_bad s1(1) ok(2) len_hdr_obj [OF ok(3)] K s1(2-5)])
  have read: "key_read K k key (dec_bptr s) bp"
    using 1(2) 2(2,5,6) by (cases "buf (dec_bptr s)") (auto simp: key_read_def s1_def advanced_def)
  have mv2: "moved (length (rec_bytes K (ms, k, ob)) - length (obj_data K ob)) (dec_bptr s) bp"
    using moved_trans [OF mv(1), of "Suc (length (item_code K k @ obj_hdr K ob))" bp] 2(3) by (simp add: s1_def)
  define es where "es = es1 @ [D_start_type ?t (offset (dec_bptr s1))]"
  define s2 where "s2 = s\<lparr>dec_bptr := bp, dec_log := dec_log s @ es, dec_type := ?t, dec_rlen := obj_len K ob, dec_key := key\<rparr>"
  have s2: "s1\<lparr>dec_type := ?t, dec_log := dec_log s1 @ [D_start_type ?t (offset (dec_bptr s1))],
      dec_key := key, dec_rlen := obj_len K ob, dec_bptr := bp\<rparr> = s2"
    by (simp add: s2_def es_def s1_def)
  have "hdr_tail E s = hdr_record E s1"
    using fil by (simp add: hdr_tail_def run_andThen(3) andThen_Ok [where m = "hdr_metas _ E", OF 1(1)] s1_def del: hdr_metas.simps)
  then have run: "hdr_tail E s = hdr_open E s2" by (simp only: 2(1) s2)
  show ?thesis
  proof (rule that [OF run s2_def _ 2(4) _ mv2 read])
    show "obj_ctx K ob (Some (item_val k)) s2"
      using s(1,2) 2(2) by (auto simp: in_ctx_def s2_def file_ready_def passes_def)
    have "has_bytes (settled (dec_bptr s)) ((?mb @ RdbType_val ?t # item_code K k @ obj_hdr K ob) @ obj_data K ob @ ys)"
      using has main by simp
    from moved_bytes [OF this, of bp] mv2 2(4) show "has_bytes bp (obj_data K ob @ ys)" by simp
    show "map ev_val es = map meta_call ms @ [D_start_type ?t (offset (dec_bptr s) + length ?mb)]"
      using 1(2,3) by (simp add: es_def s1_def advanced_def)
  qed
qed

text \<open>A record and its body: exactly its calls, and the decoder is ready for the next record.\<close>

lemma rec_runs:
  assumes r: "rec_ok (ms, k, ob)" and K: "compresses E K" and s: "file_ready s" "passes s k" "has_bytes (dec_bptr s) (rec_bytes K (ms, k, ob) @ ys)"
  shows "\<exists>bp key es. andThen (hdr_tail E) (\<lambda>_. decode_body E) s = (Ok (), s\<lparr>dec_bptr := bp, dec_log := dec_log s @ es,
      dec_type := obj_type ob, dec_rlen := obj_len K ob, dec_key := key\<rparr>)
    \<and> moved (length (rec_bytes K (ms, k, ob))) (dec_bptr s) bp \<and> map ev_val es = rec_calls (offset (dec_bptr s)) (ms, k, ob)
    \<and> key_read K k key (dec_bptr s) bp"
proof -
  obtain s1 bp1 key es1 where 1: "hdr_tail E s = hdr_open E s1" and s1: "s1 = s\<lparr>dec_bptr := bp1, dec_log := dec_log s @ es1,
      dec_type := obj_type ob, dec_rlen := obj_len K ob, dec_key := key\<rparr>" "obj_ctx K ob (Some (item_val k)) s1" "direct bp1"
    "has_bytes bp1 (obj_data K ob @ ys)" "moved (length (rec_bytes K (ms, k, ob)) - length (obj_data K ob)) (dec_bptr s) bp1"
    "key_read K k key (dec_bptr s) bp1"
    "map ev_val es1 = map meta_call ms @ [D_start_type (obj_type ob) (offset (dec_bptr s) + length (concat (map meta_bytes ms)))]"
    by (rule hdr_tail_runs [OF r K s])
  have ok: "obj_ok ob" using r by simp
  have c: "in_main (dec_bptr s1)" "False \<or> direct (dec_bptr s1)" "has_bytes (settled (dec_bptr s1)) (obj_data K ob)"
    using s1(3,5) has_bytes_prefix [OF s1(4)] by (auto simp: s1(1) moved_def)
  obtain x bp es where 2: "andThen (hdr_open E) (\<lambda>_. decode_body E) s1 = (Ok x, s1\<lparr>dec_bptr := bp, dec_log := dec_log s1 @ es\<rparr>)"
    "moved (length (obj_data K ob)) bp1 bp" "map ev_val es = body_calls ob (Some (item_val k))"
    by (rule flowsD [OF body_flows [OF ok K] s1(2) c]) (simp add: s1(1))
  have "moved (length (rec_bytes K (ms, k, ob))) (dec_bptr s) bp"
    using moved_trans [OF s1(5) 2(2)] by (simp add: add.assoc)
  moreover have "andThen (hdr_tail E) (\<lambda>_. decode_body E) s = andThen (hdr_open E) (\<lambda>_. decode_body E) s1"
    by (simp add: andThen_def 1)
  ultimately show ?thesis
    using 2(1,3) s1(7) key_read_moved [OF s1(6) 2(2)]
    by (intro exI [of _ bp] exI [of _ key] exI [of _ "es1 @ es"]) (simp add: s1(1))
qed


section \<open>The start of a file\<close>

text \<open>\<open>"REDIS00"\<close>, two digits, and the rest; the checksum at the end is only compared.\<close>

lemma hdr_version_file:
  assumes bs: "bs = rdb_magic @ [d1, d2] @ rest" "rest \<noteq> []"
    and d: "0x30 \<le> d1" "d1 \<le> 0x39" "0x30 \<le> d2" "d2 \<le> 0x39"
    and s: "dec_bptr s = RdbBufptr_init (Ptr h bs 0) (length bs)" "dec_tab s \<in> {jones_tab_zero, jones_crc64_init}"
  shows "\<exists>c tab bp. hdr_version s = (Ok (), s\<lparr>dec_crc := c, dec_is_rdb_file := True,
      dec_ver := ucast (d1 - 0x30) * 10 + ucast (d2 - 0x30), dec_tab := tab, dec_bptr := bp\<rparr>)
    \<and> advanced 9 (dec_bptr s) bp \<and> tab \<in> {jones_tab_zero, jones_crc64_init}"
proof -
  let ?v = "ucast (d1 - 0x30) * 10 + ucast (d2 - 0x30) :: u16"
  have len: "length bs = 9 + length rest" "0 < length rest" using bs by (simp_all add: rdb_magic_def)
  define s1 where "s1 = s\<lparr>dec_crc := 0\<rparr>"
  define s2 where "s2 = s1\<lparr>dec_is_rdb_file := True, dec_ver := ?v\<rparr>"
  have nth: "bs ! 5 = 0x30" "bs ! 6 = 0x30" "bs ! 7 = d1" "bs ! 8 = d2"
    by (simp_all add: bs(1) rdb_magic_def)
  have digits: "hdr_digits [5, 6, 7, 8] (s1\<lparr>dec_is_rdb_file := True, dec_ver := 0\<rparr>) = (Ok (), s2)"
    using d len by (simp add: peek_def run_simps s1_def s2_def s(1) RdbBufptr_init_def rd8_def nth not_less)
  obtain b where b: "rd8 bs (length bs - 9) = Some b" using len by (auto simp: rd8_def)
  obtain c0 where c0: "le64 bs (length bs - 8) = Some c0"
    using len by (auto simp: endian_read_bytes rdn_def)
  have pb: "peek_back 9 s2 = (Ok b, s2)"
    using len b by (simp add: peek_back_def run_simps s2_def s1_def s(1) RdbBufptr_init_def)
  define c where "c = (if b = 0xff then c0 else 0)"
  define s3 where "s3 = s2\<lparr>dec_crc := c\<rparr>"
  have "hdr_file s1 = andThen (peek_back 9) (\<lambda>b. if b = 0xff then
       andThen (gets dec_bptr) (\<lambda>bp. andThen (checked (le64 (pmem (buf bp)) (ppos (buf bp) + avail bp - 8)))
         (\<lambda>c. andThen (modify (\<lambda>s. s\<lparr>dec_crc := c\<rparr>)) (\<lambda>_. ret 8)))
     else ret 8) s2"
    by (simp add: hdr_file_def run_andThen(4) andThen_Ok [where m = "hdr_digits [5, 6, 7, 8]", OF digits] del: hdr_digits.simps)
  also have "\<dots> = (Ok 8, s3)"
    using c0 by (simp add: andThen_Ok [where m = "peek_back 9", OF pb] s3_def c_def run_simps)
      (simp add: s2_def s1_def s(1) RdbBufptr_init_def run_simps)
  finally have file1: "hdr_file s1 = (Ok 8, s3)" .
  have pre: "\<exists>xs. rdn bs 0 (length bs - 8) = Some xs" "rdn bs 0 7 = Some rdb_magic"
    using len by (auto simp: rdn_def bs(1) rdb_magic_def)
  obtain xs where xs: "rdn bs 0 (length bs - 8) = Some xs" using pre(1) by blast
  define tab where "tab = jones_crc64_init"
  have j: "jones_crc64 (dec_tab s) (dec_addr s + word_of_nat 0) 0 xs = (crc_ref 0 xs, tab)"
    unfolding tab_def by (rule jones_crc64_value) (use s(2) in simp)
  define s4 where "s4 = s3\<lparr>dec_tab := if c = 0 then dec_tab s else tab\<rparr>"
  have chk: "hdr_check_crc 8 s3 = (Ok (), s4)"
    using xs j by (simp add: hdr_check_crc_def run_simps s4_def s3_def s2_def s1_def s(1) RdbBufptr_init_def)
  define bp where "bp = (dec_bptr s)\<lparr>avail := length bs - 9, offset := 9, buf := Ptr h bs 9\<rparr>"
  have fil: "dec_is_rdb_file s4" by (simp add: s4_def s3_def s2_def)
  have inc: "onb (incr 9) s4 = (Ok (Some (Ptr h bs 0)), s4\<lparr>dec_bptr := bp\<rparr>)"
    using len by (simp add: onb_def zoom_def incr_def s4_def s3_def s2_def s1_def s(1) RdbBufptr_init_def bp_def)
  have "hdr_version s = (Ok (), s4\<lparr>dec_bptr := bp\<rparr>)"
    using len pre(2)
    by (simp add: hdr_version_def run_andThen(3,4) s(1) RdbBufptr_init_def run_andThen(6)
      andThen_Ok [where m = hdr_file, OF file1 [unfolded s1_def]] andThen_Ok [where m = "hdr_check_crc 8", OF chk])
      (simp add: fil andThen_Ok [where m = "onb (incr 9)", OF inc] run_ret)
  moreover have "advanced 9 (dec_bptr s) bp"
    by (simp add: advanced_def bp_def s(1) RdbBufptr_init_def)
  ultimately show ?thesis
    using s(2) by (intro exI [of _ c] exI [of _ "dec_tab s4"] exI [of _ bp]) (simp add: s4_def s3_def s2_def s1_def tab_def)
qed


section \<open>The loop of the program over a file\<close>

text \<open>The decoder at an offset of a file that lies in one block.\<close>

definition at_pos :: "u8 list \<Rightarrow> nat \<Rightarrow> RdbDecode \<Rightarrow> bool" where
  "at_pos bs off d \<longleftrightarrow> file_ready d \<and> dec_filter d = None \<and> dec_tab d \<in> {jones_tab_zero, jones_crc64_init}
     \<and> buf (dec_bptr d) = Ptr False bs off \<and> offset (dec_bptr d) = off
     \<and> avail (dec_bptr d) = length bs - off \<and> alloced_mem (dec_bptr d) = []"

text \<open>The decoder behind a record that starts at an offset.\<close>

definition rec_done :: "packer \<Rightarrow> u8 list \<Rightarrow> nat \<Rightarrow> rdb_rec \<Rightarrow> RdbDecode \<Rightarrow> bool" where
  "rec_done K bs off r d \<longleftrightarrow> (case r of (ms, k, ob) \<Rightarrow> at_pos bs (off + length (rec_bytes K r)) d \<and> bytes_at bs off (rec_bytes K r)
     \<and> key_kept K k (dec_key d))"

text \<open>The release of the blocks behind a record: back in the block of the file, and the key as far as it is still there.\<close>

lemma free_alloced_settled:
  assumes "in_main bp" "avail (settled bp) \<noteq> 0" "pfree (buf (settled bp)) = buf (settled bp)"
  shows "free_alloced bp = (settled bp)\<lparr>alloced_mem := []\<rparr>"
  using assms by (cases "direct bp") (auto simp: free_alloced_def Let_def in_main_def pop_sav_def settled_def direct_def)

lemma release_pos:
  assumes d: "at_pos bs off d" and bp: "moved n (dec_bptr d) bp" "off + n < length bs" and key: "key_read K k key (dec_bptr d) bp"
    and d1: "d1 = d\<lparr>dec_bptr := bp, dec_log := l, dec_type := t, dec_rlen := L, dec_key := key, dec_key_cnt := c\<rparr>"
  shows "at_pos bs (off + n) (release_alloced d1)" "key_kept K k (dec_key (release_alloced d1))"
    "start_offset (dec_bptr (release_alloced d1)) = start_offset (dec_bptr d)"
proof -
  let ?b = "settled bp"
  have main: "in_main bp" using bp(1) by (simp add: moved_def)
  have s: "direct (dec_bptr d)" "avail (dec_bptr d) = length bs - off" "buf (dec_bptr d) = Ptr False bs off" "offset (dec_bptr d) = off"
    using d by (simp_all add: at_pos_def file_ready_def)
  then have b: "avail ?b = length bs - (off + n)" "start_offset ?b = start_offset (dec_bptr d)" "avail ?b \<noteq> 0 \<longrightarrow> buf ?b = Ptr False bs (off + n) \<and> offset ?b = off + n"
    using bp(1) by (simp_all add: moved_def Let_def)
  have av: "avail ?b \<noteq> 0" using b(1) bp(2) by simp
  have free: "free_alloced bp = ?b\<lparr>alloced_mem := []\<rparr>"
    using free_alloced_settled [OF main av] b(3) av by simp
  have new: "dec_bptr (release_alloced d1) = ?b\<lparr>alloced_mem := []\<rparr>"
  proof (cases "alloced_mem bp = []")
    case True
    then have "settled bp = bp" using main by (simp add: in_main_def)
    then show ?thesis using True by (simp add: release_alloced_def d1)
  qed (simp add: release_alloced_def d1 free)
  have "in_main (?b\<lparr>alloced_mem := []\<rparr>)" "direct (?b\<lparr>alloced_mem := []\<rparr>)"
    using main settled_wf [of bp] direct_settled [of bp] by (simp_all add: in_main_def direct_def settled_def wf_bufptr_def)
  then show "at_pos bs (off + n) (release_alloced d1)"
    using d b av unfolding at_pos_def file_ready_def new by (simp add: release_alloced_def d1)
  show "start_offset (dec_bptr (release_alloced d1)) = start_offset (dec_bptr d)" using b(2) by (simp add: new)
  have "key_kept K k (freed key)" using key s(3) by (simp add: key_read_def)
  then show "key_kept K k (dec_key (release_alloced d1))"
    using key by (auto simp: release_alloced_def d1 freed_def key_read_def key_kept_def)
qed

text \<open>A file: \<open>"REDIS"\<close> with the version, the records, the end marker and what follows it.\<close>

definition file_bytes :: "packer \<Rightarrow> nat \<Rightarrow> rdb_rec list \<Rightarrow> u8 list \<Rightarrow> u8 list" where
  "file_bytes K v rs ys = rdb_magic @ [word_of_nat (48 + v div 10), word_of_nat (48 + v mod 10)]
     @ concat (map (rec_bytes K) rs) @ 0xff # ys"

lemma version_digits:
  assumes "0 < v" "v < 100"
  defines "d1 \<equiv> word_of_nat (48 + v div 10) :: u8" and "d2 \<equiv> word_of_nat (48 + v mod 10) :: u8"
  shows "0x30 \<le> d1 \<and> d1 \<le> 0x39 \<and> 0x30 \<le> d2 \<and> d2 \<le> 0x39 \<and> ucast (d1 - 0x30) * 10 + ucast (d2 - 0x30) \<noteq> (0 :: u16)"
proof -
  have q: "v div 10 < 10" "v mod 10 < 10" using assms(2) by auto
  have u: "unat d1 = 48 + v div 10" "unat d2 = 48 + v mod 10"
    unfolding d1_def d2_def unat_of_nat using q by simp_all
  have s: "d1 - 0x30 = word_of_nat (v div 10)" "d2 - 0x30 = word_of_nat (v mod 10)" by (simp_all add: d1_def d2_def)
  have "ucast (word_of_nat (v div 10) :: u8) * 10 + ucast (word_of_nat (v mod 10) :: u8) = (word_of_nat v :: u16)"
  proof -
    have c: "ucast (word_of_nat n :: u8) = (word_of_nat n :: u16)" if "n < 10" for n
      using that by (simp add: word_unat_eq_iff unat_of_nat unsigned_ucast_eq take_bit_nat_eq_self)
    have "ucast (word_of_nat (v div 10) :: u8) * 10 + ucast (word_of_nat (v mod 10) :: u8)
        = (word_of_nat (v div 10 * 10 + v mod 10) :: u16)"
      by (simp only: c [OF q(1)] c [OF q(2)] of_nat_add of_nat_mult of_nat_numeral)
    then show ?thesis by (simp only: div_mult_mod_eq)
  qed
  moreover have "word_of_nat v \<noteq> (0 :: u16)" using assms(1,2) by (simp add: word_unat_eq_iff unat_of_nat)
  ultimately show ?thesis using u q by (simp add: s word_le_nat_alt)
qed

text \<open>One round over a record: what its calls and the command behind it do with the output.\<close>

lemma record_round:
  assumes K: "compresses E K" and r: "rec_ok r"
    and d: "at_pos bs off d" and bs: "bytes_at bs off (rec_bytes K r @ ys)" "ys \<noteq> []"
    and run: "decode_hdr E (m_dec s) = hdr_tail E d" and log: "dec_log d = dec_log (m_dec s)"
  obtains d2 es where "rec_done K bs off r d2" "map ev_val es = rec_calls off r" "off + length (rec_bytes K r) < length bs"
    "start_offset (dec_bptr d2) = start_offset (dec_bptr d)"
    "main_round E G s = do {
       w \<leftarrow> output_calls G es (m_out s);
       (d, w) \<leftarrow> after_record d2 w;
       (d, i) \<leftarrow> refill E d (m_in s);
       if avail (dec_bptr d) = 0 then Some (Exit 0 \<lparr>m_dec = d, m_out = out_finish True w, m_in = i\<rparr>)
       else Some (Going \<lparr>m_dec = d, m_out = w, m_in = i\<rparr>) }"
proof -
  obtain ms k ob where rr: "r = (ms, k, ob)" by (cases r)
  have ready: "file_ready d" "passes d k" "has_bytes (dec_bptr d) (rec_bytes K (ms, k, ob) @ ys)"
    using d bs(1) bytes_at_le [OF bs(1)] by (auto simp: at_pos_def passes_def has_bytes_def rr)
  obtain bp key es where 1: "andThen (hdr_tail E) (\<lambda>_. decode_body E) d = (Ok (), d\<lparr>dec_bptr := bp, dec_log := dec_log d @ es,
      dec_type := obj_type ob, dec_rlen := obj_len K ob, dec_key := key\<rparr>)"
    "moved (length (rec_bytes K r)) (dec_bptr d) bp" "map ev_val es = rec_calls off r" "key_read K k key (dec_bptr d) bp"
    using rec_runs [OF _ K ready] r d by (auto simp: rr at_pos_def)
  define d1 where "d1 = d\<lparr>dec_bptr := bp, dec_log := dec_log d @ es, dec_type := obj_type ob, dec_rlen := obj_len K ob,
      dec_key := key, dec_key_cnt := dec_key_cnt d + 1\<rparr>"
  have "0 < length ys" using bs(2) by simp
  moreover have "off + length (rec_bytes K r) + length ys \<le> length bs"
    using bytes_at_le [OF bs(1)] by simp
  ultimately have lt: "off + length (rec_bytes K r) < length bs" by linarith
  note pos = release_pos [OF d 1(2) lt 1(4) d1_def]
  have "bytes_at bs off (rec_bytes K r)" using bs(1) by (simp add: bytes_at_append)
  with pos have rdone: "rec_done K bs off r (release_alloced d1)"
    by (simp add: rec_done_def rr del: rec_bytes.simps)
  have "andThen (decode_hdr E) (\<lambda>_. decode_body E) (m_dec s) = andThen (hdr_tail E) (\<lambda>_. decode_body E) d"
    using run by (simp add: andThen_def)
  with 1(1) log show thesis
    by (intro that [OF rdone 1(3) lt pos(3)]) (simp add: main_round_def new_calls_def d1_def)
qed

text \<open>The start of a file, of which at least the first byte behind the version is in the buffer: the decoder is ready for the first record.\<close>

lemma file_start:
  assumes v: "0 < v" "v < 100" and bs: "bs @ zs = file_bytes K v rs ys" "9 < length bs" and s: "d = dump_decoder bs a"
  obtains d0 where "decode_hdr E d = hdr_tail E d0" "at_pos bs 9 d0" "dec_log d0 = dec_log d" "start_offset (dec_bptr d0) = 0"
    "drop 9 bs @ zs = concat (map (rec_bytes K) rs) @ 0xff # ys"
proof -
  obtain d1 d2 where f: "file_bytes K v rs ys = (rdb_magic @ [d1, d2]) @ concat (map (rec_bytes K) rs) @ 0xff # ys" "0x30 \<le> d1" "d1 \<le> 0x39" "0x30 \<le> d2" "d2 \<le> 0x39"
    "ucast (d1 - 0x30) * 10 + ucast (d2 - 0x30) \<noteq> (0 :: u16)"
    using version_digits [OF v] unfolding file_bytes_def by auto
  have nine: "length (rdb_magic @ [d1, d2]) = 9" by (simp add: rdb_magic_def)
  have "take 9 (bs @ zs) = rdb_magic @ [d1, d2]" "drop 9 (bs @ zs) = concat (map (rec_bytes K) rs) @ 0xff # ys"
    using nine by (simp_all only: bs(1) f(1) append_eq_conv_conj [symmetric] take_append drop_append) simp_all
  then have cut: "take 9 bs = rdb_magic @ [d1, d2]" "drop 9 bs @ zs = concat (map (rec_bytes K) rs) @ 0xff # ys"
    using bs(2) by simp_all
  have d: "bs = rdb_magic @ [d1, d2] @ drop 9 bs" by (metis append_take_drop_id append_assoc cut(1))
  have ne: "drop 9 bs \<noteq> []" using bs(2) by simp
  define s0 where "s0 = d\<lparr>dec_out := DataOut\<rparr>"
  have s0: "dec_bptr s0 = RdbBufptr_init (Ptr False bs 0) (length bs)" "dec_tab s0 \<in> {jones_tab_zero, jones_crc64_init}"
    "dec_ver s0 = 0"
    by (simp_all add: s0_def s dump_decoder_def RdbDecode_new_def)
  from hdr_version_file [OF d ne f(2-5) s0(1,2)] obtain c tab bp where
    1: "hdr_version s0 = (Ok (), s0\<lparr>dec_crc := c, dec_is_rdb_file := True,
      dec_ver := ucast (d1 - 0x30) * 10 + ucast (d2 - 0x30), dec_tab := tab, dec_bptr := bp\<rparr>)"
    "advanced 9 (dec_bptr s0) bp" "tab \<in> {jones_tab_zero, jones_crc64_init}" by blast
  define d0 where "d0 = s0\<lparr>dec_crc := c, dec_is_rdb_file := True,
      dec_ver := ucast (d1 - 0x30) * 10 + ucast (d2 - 0x30), dec_tab := tab, dec_bptr := bp\<rparr>"
  have "decode_hdr E d = andThen hdr_version (\<lambda>_. hdr_tail E) s0"
    using decode_hdr_start [of "d" s0 E] s0(3)
    by (simp add: s dump_decoder_def RdbDecode_new_def s0_def hdr_tail_def)
  then have run: "decode_hdr E d = hdr_tail E d0"
    by (simp add: andThen_Ok [where m = hdr_version, OF 1(1)] d0_def)
  have wf: "wf_bufptr bp"
    using advanced_wf [OF _ 1(2)] bs(2) s0(1) by (simp add: RdbBufptr_init_def wf_init [unfolded RdbBufptr_init_def])
  have log: "dec_log d0 = dec_log d" "start_offset (dec_bptr d0) = 0"
    using 1(2) by (simp_all add: d0_def s0_def s dump_decoder_def RdbDecode_new_def RdbBufptr_init_def advanced_def)
  have pos: "at_pos bs 9 d0"
    using wf 1(2,3) f(6) by (auto simp: at_pos_def file_ready_def d0_def s0_def s dump_decoder_def RdbDecode_new_def
      advanced_def RdbBufptr_init_def in_main_def direct_def settled_def)
  show thesis by (rule that [OF run pos log cut(2)])
qed

section \<open>The input in pieces\<close>

text \<open>
  The buffer holds the whole file, or its start: then it is full, and the rest is on the standard input.
\<close>

definition loaded :: "input_state \<Rightarrow> u8 list \<Rightarrow> bool" where
  "loaded i bs \<longleftrightarrow> (if input_eof i then input_bytes i = bs else input_bytes i @ std_in i = bs \<and> length (input_bytes i) = input_buf_size i)"

text \<open>The bytes still to decode, from an offset in the buffer, after a record was decoded.\<close>

definition window :: "input_state \<Rightarrow> nat \<Rightarrow> RdbDecode \<Rightarrow> u8 list \<Rightarrow> bool" where
  "window i off d rest \<longleftrightarrow> at_pos (input_bytes i) off d \<and> loaded i (take off (input_bytes i) @ rest)
     \<and> (\<not> input_eof i \<longrightarrow> off \<le> input_buf_size i div 2)"

lemma window_split:
  assumes "window i off d rest" "rest \<noteq> []" "input_eof i \<or> 0 < input_buf_size i"
  shows "drop off (input_bytes i) @ (if input_eof i then [] else std_in i) = rest" "off < length (input_bytes i)"
proof -
  let ?zs = "if input_eof i then [] else std_in i"
  have "input_bytes i @ ?zs = take off (input_bytes i) @ rest" using assms(1) by (auto simp: window_def loaded_def)
  then show s: "drop off (input_bytes i) @ ?zs = rest" by (metis append_take_drop_id append_assoc same_append_eq)
  show "off < length (input_bytes i)"
  proof (cases "input_eof i")
    case True
    then show ?thesis using s assms(2) by (auto simp: not_less [symmetric])
  next
    case False
    then show ?thesis using assms(1,3) by (auto simp: window_def loaded_def)
  qed
qed

lemma window_record:
  assumes win: "window i off d (xs @ ys)" "ys \<noteq> []" and size: "input_eof i \<or> 2 * length xs < input_buf_size i"
  shows "bytes_at (input_bytes i) off (xs @ drop (off + length xs) (input_bytes i))" "off + length xs < length (input_bytes i)"
    "loaded i (take (off + length xs) (input_bytes i) @ ys)"
proof -
  let ?bs = "input_bytes i" and ?zs = "if input_eof i then [] else std_in i" and ?n = "length xs"
  have "input_eof i \<or> 0 < input_buf_size i" using size by auto
  then have s: "drop off ?bs @ ?zs = xs @ ys" "off < length ?bs" using window_split [OF win(1)] win(2) by auto
  show lt: "off + ?n < length ?bs"
  proof (cases "input_eof i")
    case True
    then have "drop off ?bs = xs @ ys" using s(1) by simp
    from arg_cong [OF this, of length] have "length ?bs - off = ?n + length ys" by simp
    moreover have "0 < length ys" using win(2) by simp
    ultimately show ?thesis by linarith
  next
    case False
    then have "length ?bs = input_buf_size i" "2 * off \<le> input_buf_size i" "2 * ?n < input_buf_size i"
      using win(1) size by (auto simp: window_def loaded_def)
    then show ?thesis by linarith
  qed
  then have "take ?n (drop off ?bs @ ?zs) = take ?n (drop off ?bs)" by simp
  then have x: "take ?n (drop off ?bs) = xs" by (simp add: s(1))
  then have d: "drop off ?bs = xs @ drop (off + ?n) ?bs" using append_take_drop_id [of ?n "drop off ?bs"] by (simp add: add.commute)
  have t: "take (off + ?n) ?bs = take off ?bs @ xs" by (simp add: take_add x)
  have "bytes_at ?bs off (drop off ?bs)"
    using bytes_at_here [of "take off ?bs" "drop off ?bs" "[]"] s(2) by (simp add: min_absorb2)
  then show "bytes_at ?bs off (xs @ drop (off + ?n) ?bs)" by (simp only: d [symmetric])
  show "loaded i (take (off + ?n) ?bs @ ys)"
    using win(1) unfolding t by (simp add: window_def)
qed

text \<open>No record is larger than half the buffer.\<close>

definition roomy :: "packer \<Rightarrow> input_state \<Rightarrow> rdb_rec list \<Rightarrow> bool" where
  "roomy K i rs \<longleftrightarrow> 18 \<le> input_buf_size i \<and> (\<forall>r \<in> set rs. 2 * length (rec_bytes K r) < input_buf_size i)"

lemma fill_buf_loop_keeps:
  assumes "length (std_in s) + 2 \<le> k" "length (input_bytes s) < input_buf_size s"
    "input_eof s \<Longrightarrow> take 7 (input_bytes s @ std_in s) = rdb_magic \<and> 7 \<le> input_buf_size s"
  shows "\<exists>s'. fill_buf_loop k E s = Some s' \<and> input_buf_size s' = input_buf_size s"
  using assms
proof (induction k arbitrary: s)
  case (Suc k)
  define room where "room = input_buf_size s - length (input_bytes s)"
  define s1 where "s1 = s\<lparr>input_bytes := input_bytes s @ take room (std_in s), std_in := drop room (std_in s)\<rparr>"
  have s1: "input_bytes s1 @ std_in s1 = input_bytes s @ std_in s" "length (input_bytes s1) \<le> input_buf_size s1"
    "input_buf_size s1 = input_buf_size s" "input_eof s1 = input_eof s"
    using Suc.prems(2) by (auto simp: s1_def room_def)
  have loop: "fill_buf_loop (Suc k) E s = (if take room (std_in s) = [] then Some (s\<lparr>input_eof := True\<rparr>)
      else if length (input_bytes s1) = input_buf_size s1 then
        if input_eof s1 \<and> take 7 (input_bytes s1) \<noteq> rdb_magic then
          if malloc_ok E (word_of_nat (2 * input_buf_size s1)) then
            fill_buf_loop k E (s1\<lparr>input_buf_size := 2 * input_buf_size s1\<rparr>)
          else None
        else Some (s1\<lparr>input_eof := False\<rparr>)
      else fill_buf_loop k E s1)"
    by (simp add: s1_def room_def Let_def)
  show ?case
  proof (cases "take room (std_in s) = []")
    case False
    show ?thesis
    proof (cases "length (input_bytes s1) = input_buf_size s1")
      case True
      then have "input_eof s1 \<Longrightarrow> take 7 (input_bytes s1) = rdb_magic"
        using Suc.prems(3) s1 by (metis append_take_drop_id take_append diff_is_0_eq take0 append_Nil2)
      then show ?thesis using loop False True s1(3) by auto
    next
      case neq: False
      have "length (std_in s1) + 2 \<le> k" using Suc.prems(1) False by (cases "std_in s") (auto simp: s1_def)
      with neq False Suc.IH [of s1] Suc.prems loop s1 show ?thesis by auto
    qed
  next
    case True
    with loop show ?thesis by (simp del: fill_buf_loop.simps)
  qed
qed simp

lemma fill_buf_stdin_keeps:
  assumes "length (input_bytes s) < input_buf_size s" "input_eof s \<Longrightarrow> take 7 (input_bytes s @ std_in s) = rdb_magic \<and> 7 \<le> input_buf_size s"
  obtains s' where "fill_buf_stdin E s = Some s'" "input_buf_size s' = input_buf_size s" "loaded s' (input_bytes s @ std_in s)"
    "length (input_bytes s') \<le> input_buf_size s"
proof -
  obtain s' where s': "fill_buf_stdin E s = Some s'" "input_buf_size s' = input_buf_size s"
    using fill_buf_loop_keeps [OF _ assms, of "Suc (Suc (length (std_in s)))" E] by (auto simp: fill_buf_stdin_def)
  with fill_buf_stdin_filled [OF s'(1) assms(1)] show ?thesis
    using that by (auto simp: filled_def loaded_def split: if_splits)
qed

text \<open>A file read from the standard input.\<close>

lemma stdin_loaded:
  assumes "18 \<le> n"
  obtains i where "fill_buf_stdin E \<lparr>input_bytes = [], input_buf_size = n, input_eof = True, std_in = file_bytes K v rs ys\<rparr> = Some i"
    "loaded i (file_bytes K v rs ys)" "input_buf_size i = n" "length (input_bytes i) \<le> n"
  by (rule fill_buf_stdin_keeps [of "\<lparr>input_bytes = [], input_buf_size = n, input_eof = True, std_in = file_bytes K v rs ys\<rparr>" E])
    (use assms in \<open>auto simp: file_bytes_def rdb_magic_def intro: that\<close>)

text \<open>After a record the buffer is refilled when more than half of it is used up.\<close>

lemma refill_window:
  assumes d: "at_pos (input_bytes i) off d" and i: "loaded i (take off (input_bytes i) @ rest)" "off < length (input_bytes i)" "input_eof i \<or> 0 < input_buf_size i"
  obtains d' i' off' where "refill E d i = Some (d', i')" "window i' off' d' rest" "input_buf_size i' = input_buf_size i"
    "avail (dec_bptr d') \<noteq> 0" "dec_tab d' = dec_tab d" "dec_log d' = dec_log d" "input_eof i \<Longrightarrow> i' = i \<and> d' = d"
    "length (input_bytes i') \<le> max (length (input_bytes i)) (input_buf_size i)"
proof (cases "\<not> input_eof i \<and> offset (dec_bptr d) > input_buf_size i div 2")
  case False
  show thesis
  proof (rule that [of d i off])
    show "window i off d rest" using d i(1) False by (auto simp: window_def at_pos_def)
    show "avail (dec_bptr d) \<noteq> 0" using d i(2) by (simp add: at_pos_def)
  qed (use False in \<open>auto simp: refill_def Let_def\<close>)
next
  case True
  let ?bp = "dec_bptr d" and ?rest = "drop off (input_bytes i)"
  have bp: "buf ?bp = Ptr False (input_bytes i) off" "avail ?bp = length (input_bytes i) - off" "offset ?bp = off"
    using d by (simp_all add: at_pos_def)
  have rd: "rdn (input_bytes i) off (length (input_bytes i) - off) = Some ?rest"
    using i(2) by (simp add: rdn_def)
  have full: "length (input_bytes i) = input_buf_size i" "input_bytes i @ std_in i = take off (input_bytes i) @ rest"
    using i(1) True by (simp_all add: loaded_def)
  have rest: "?rest @ std_in i = rest"
    using full(2) by (metis append_take_drop_id append_assoc same_append_eq)
  have "0 < off" using True bp(3) by simp
  then have "length ?rest < input_buf_size i" using full(1) i(2) by simp
  then obtain i' where i': "fill_buf_stdin E (i\<lparr>input_bytes := ?rest\<rparr>) = Some i'" "input_buf_size i' = input_buf_size i"
    "loaded i' rest" "length (input_bytes i') \<le> input_buf_size i"
    using fill_buf_stdin_keeps [of "i\<lparr>input_bytes := ?rest\<rparr>" E] True rest by auto
  let ?d = "d\<lparr>dec_bptr := ?bp\<lparr>buf := Ptr False (input_bytes i') 0, start_offset := start_offset ?bp + offset ?bp,
      offset := 0, avail := length (input_bytes i')\<rparr>,
      dec_key := (dec_key d)\<lparr>str_s := pmoved (input_bytes i') (str_s (dec_key d))\<rparr>\<rparr>"
  have "rest \<noteq> []" "0 < input_buf_size i" using rest i(2,3) True by auto
  then have ne: "input_bytes i' \<noteq> []" using i'(2,3) by (auto simp: loaded_def split: if_splits)
  have pos: "at_pos (input_bytes i') 0 ?d"
    using d ne by (auto simp: at_pos_def file_ready_def in_main_def direct_def settled_def wf_bufptr_def readable_def)
  show thesis
  proof (rule that [of ?d i' 0])
    show "refill E d i = Some (?d, i')"
      using True rd i'(1) bp by (simp add: refill_def Let_def)
    show "window i' 0 ?d rest" using pos i'(3) by (simp add: window_def)
  qed (use True i'(2,4) ne in auto)
qed

section \<open>The outputs\<close>

text \<open>
  What the rounds over the records need: room for every record, and, when the buffer is going to be refilled, an output that can do
  without the start of the input.
\<close>

definition ready :: "packer \<Rightarrow> nat \<Rightarrow> bool \<Rightarrow> (rdb_rec \<Rightarrow> bool) \<Rightarrow> input_state \<Rightarrow> RdbDecode \<Rightarrow> rdb_rec list \<Rightarrow> bool" where
  "ready K lim anywhere good i d rs \<longleftrightarrow> (\<forall>r \<in> set rs. rec_ok r \<and> good r) \<and> length (input_bytes i) < lim
     \<and> (anywhere \<or> start_offset (dec_bptr d) = 0) \<and> (input_eof i \<or> anywhere \<and> roomy K i rs)"

text \<open>
  What an output does with a record: given the calls of the record and the decoder behind it, it
  changes what \<open>view\<close> shows of it by \<open>step r\<close>, without a fault; \<open>anywhere\<close>: also after the buffer has been refilled.
\<close>

locale record_output =
  fixes E :: rdb_env and K :: packer and G :: "u64 \<Rightarrow> u8 list" and kind :: "main_out \<Rightarrow> bool" and view :: "main_out \<Rightarrow> 'v"
    and lim :: nat and anywhere :: bool
    and good :: "rdb_rec \<Rightarrow> bool" and step :: "rdb_rec \<Rightarrow> 'v \<Rightarrow> 'v"
  assumes record_step: "kind w \<Longrightarrow> rec_ok r \<Longrightarrow> good r \<Longrightarrow> rec_done K bs off r d \<Longrightarrow> length bs < lim \<Longrightarrow>
      anywhere \<or> start_offset (dec_bptr d) = 0 \<Longrightarrow> map ev_val es = rec_calls off r \<Longrightarrow>
      \<exists>w1 w2 tab. output_calls G es w = Some w1 \<and> after_record d w1 = Some (d\<lparr>dec_tab := tab\<rparr>, w2)
        \<and> tab \<in> {jones_tab_zero, jones_crc64_init} \<and> kind w2 \<and> view w2 = step r (view w)"
    and no_calls: "kind w \<Longrightarrow> output_calls G [] w = Some w"
begin

text \<open>One round of the program over one record.\<close>

lemma round_window:
  assumes compressed: "compresses E K" and w: "kind (m_out s)" and ready: "ready K lim anywhere good (m_in s) d (r # rs)"
    and win: "window (m_in s) off d (rec_bytes K r @ ys)" "ys \<noteq> []"
    and run: "decode_hdr E (m_dec s) = hdr_tail E d" and log: "dec_log d = dec_log (m_dec s)"
  shows "\<exists>t off'. main_round E G s = Some (Going t) \<and> kind (m_out t) \<and> view (m_out t) = step r (view (m_out s))
    \<and> window (m_in t) off' (m_dec t) ys \<and> ready K lim anywhere good (m_in t) (m_dec t) rs"
proof -
  let ?i = "m_in s" and ?bs = "input_bytes (m_in s)" and ?n = "length (rec_bytes K r)"
  have d: "at_pos ?bs off d" using win(1) by (simp add: window_def)
  have r: "rec_ok r" "good r" and lim: "length ?bs < lim" and start: "anywhere \<or> start_offset (dec_bptr d) = 0"
    using ready by (simp_all add: ready_def)
  have size: "input_eof ?i \<or> 2 * ?n < input_buf_size ?i" using ready by (auto simp: ready_def roomy_def)
  note rec = window_record [OF win size]
  obtain d2 es where 1: "rec_done K ?bs off r d2" "map ev_val es = rec_calls off r" "start_offset (dec_bptr d2) = start_offset (dec_bptr d)"
    "main_round E G s = do {
       w \<leftarrow> output_calls G es (m_out s);
       (d, w) \<leftarrow> after_record d2 w;
       (d, i) \<leftarrow> refill E d (m_in s);
       if avail (dec_bptr d) = 0 then Some (Exit 0 \<lparr>m_dec = d, m_out = out_finish True w, m_in = i\<rparr>)
       else Some (Going \<lparr>m_dec = d, m_out = w, m_in = i\<rparr>) }"
    by (rule record_round [OF compressed r(1) d rec(1) _ run log]) (use rec(2) in auto)
  have "anywhere \<or> start_offset (dec_bptr d2) = 0" using start 1(3) by simp
  from record_step [OF w r 1(1) lim this 1(2)] obtain w1 w2 tab where out: "output_calls G es (m_out s) = Some w1"
    "after_record d2 w1 = Some (d2\<lparr>dec_tab := tab\<rparr>, w2)" "tab \<in> {jones_tab_zero, jones_crc64_init}" "kind w2"
    "view w2 = step r (view (m_out s))" by blast
  let ?d = "d2\<lparr>dec_tab := tab\<rparr>"
  have pos: "at_pos ?bs (off + ?n) ?d"
    using 1(1) out(3) by (cases r) (auto simp: rec_done_def at_pos_def file_ready_def simp del: rec_bytes.simps)
  obtain d' i' off' where 2: "refill E ?d ?i = Some (d', i')" "window i' off' d' ys" "input_buf_size i' = input_buf_size ?i"
    "avail (dec_bptr d') \<noteq> 0" "input_eof ?i \<Longrightarrow> i' = ?i \<and> d' = ?d"
    "length (input_bytes i') \<le> max (length ?bs) (input_buf_size ?i)"
    by (rule refill_window [OF pos rec(3,2)]) (use size in auto)
  have "main_round E G s = Some (Going \<lparr>m_dec = d', m_out = w2, m_in = i'\<rparr>)"
    using out(1,2) 2(1,4) by (simp add: 1(4))
  moreover have "ready K lim anywhere good i' d' rs"
  proof (cases "input_eof ?i")
    case True
    with ready 2(5) 1(3) show ?thesis by (auto simp: ready_def)
  next
    case False
    then have "length ?bs = input_buf_size ?i" using win(1) by (simp add: window_def loaded_def)
    with False ready 2(3,6) show ?thesis by (auto simp: ready_def roomy_def)
  qed
  ultimately show ?thesis
    using out(4,5) 2(2) by auto
qed

text \<open>Behind the last record: the end marker.\<close>

lemma round_end:
  assumes w: "kind (m_out s)" and d: "at_pos bs off d" and bs: "bytes_at bs off (0xff # ys)"
    and run: "decode_hdr E (m_dec s) = hdr_tail E d" and log: "dec_log d = dec_log (m_dec s)"
  shows "\<exists>t. main_round E G s = Some (Exit 0 t) \<and> m_out t = out_finish True (m_out s)"
proof -
  have has: "wf_bufptr (dec_bptr d)" "has_bytes (dec_bptr d) (0xff # ys)"
    using d bytes_at_le [OF bs] bs by (auto simp: at_pos_def file_ready_def in_main_def has_bytes_def)
  obtain bp where 1: "incr 1 (dec_bptr d) = (Ok (Some (buf (dec_bptr d))), bp)"
    "rd8 (pmem (buf (dec_bptr d))) (ppos (buf (dec_bptr d))) = Some 0xff" "avail (dec_bptr d) \<noteq> 0"
    using has_bytes_Cons [OF has] by metis
  have peek: "peek 0 d = (Ok 0xff, d)" using 1(2) by (simp add: peek_def run_simps)
  have inc: "onb (incr 1) d = (Ok (Some (buf (dec_bptr d))), d\<lparr>dec_bptr := bp\<rparr>)"
    using 1(1) by (simp add: onb_def zoom_def)
  have "hdr_metas (Suc k) E d = (Err RDB_EOF_MARK, d\<lparr>dec_bptr := bp\<rparr>)" for k
    using 1(3) by (simp add: run_andThen(3) andThen_Ok [where m = "peek 0", OF peek] meta_of_def
      andThen_Ok [where m = "onb (incr 1)", OF inc] andThen_Err run_throw del: One_nat_def)
  then have "hdr_tail E d = (Err RDB_EOF_MARK, d\<lparr>dec_bptr := bp\<rparr>)"
    using d by (simp add: hdr_tail_def run_andThen(3) at_pos_def file_ready_def andThen_Err del: hdr_metas.simps)
  then have "andThen (decode_hdr E) (\<lambda>_. decode_body E) (m_dec s) = (Err RDB_EOF_MARK, d\<lparr>dec_bptr := bp\<rparr>)"
    using run by (simp add: andThen_Err)
  then show ?thesis
    using no_calls [OF w] log by (simp add: main_round_def new_calls_def)
qed

text \<open>The rounds up to the end, from a state between two records.\<close>

lemma runs_window:
  assumes K: "compresses E K" and "kind (m_out s)" "ready K lim anywhere good (m_in s) d rs" "window (m_in s) off d (concat (map (rec_bytes K) rs) @ 0xff # ys)"
    "decode_hdr E (m_dec s) = hdr_tail E d" "dec_log d = dec_log (m_dec s)"
  shows "\<exists>t w. main_runs E G s 0 t \<and> m_out t = out_finish True w \<and> kind w \<and> view w = fold step rs (view (m_out s))"
  using assms(2-)
proof (induction rs arbitrary: s off d)
  case Nil
  let ?i = "m_in s"
  have d: "at_pos (input_bytes ?i) off d" using Nil.prems(3) by (simp add: window_def)
  have "input_eof ?i \<or> 0 < input_buf_size ?i" using Nil.prems(2) by (auto simp: ready_def roomy_def)
  then have w: "drop off (input_bytes ?i) @ (if input_eof ?i then [] else std_in ?i) = 0xff # ys" "off < length (input_bytes ?i)"
    using window_split [OF Nil.prems(3)] by auto
  then obtain zs where zs: "drop off (input_bytes ?i) = 0xff # zs" by (cases "drop off (input_bytes ?i)") auto
  then have "bytes_at (input_bytes ?i) off (0xff # zs)"
    using bytes_at_here [of "take off (input_bytes ?i)" "0xff # zs" "[]"] w(2) append_take_drop_id [of off "input_bytes ?i"]
    by (simp add: min_absorb2)
  from round_end [OF Nil.prems(1) d this Nil.prems(4,5)] Nil.prems(1) show ?case
    by (fastforce intro: main_runs.exit)
next
  case (Cons r rs)
  let ?ys = "concat (map (rec_bytes K) rs) @ 0xff # ys"
  have win: "window (m_in s) off d (rec_bytes K r @ ?ys)" using Cons.prems(3) by simp
  obtain t off' where t: "main_round E G s = Some (Going t)" "kind (m_out t)" "view (m_out t) = step r (view (m_out s))"
    "window (m_in t) off' (m_dec t) ?ys" "ready K lim anywhere good (m_in t) (m_dec t) rs"
    using round_window [OF K Cons.prems(1,2) win _ Cons.prems(4,5)] by auto
  have "decode_hdr E (m_dec t) = hdr_tail E (m_dec t)"
    using t(4) decode_hdr_tail by (simp add: window_def at_pos_def file_ready_def run_andThen(1))
  from Cons.IH [OF t(2,5,4) this refl] obtain u w where
    "main_runs E G t 0 u" "m_out u = out_finish True w" "kind w" "view w = fold step rs (view (m_out t))" by blast
  then show ?case
    using t(1,3) by (auto intro: main_runs.going main_step.round)
qed

text \<open>A whole file of format version \<open>v\<close>.\<close>

lemma file_runs:
  assumes K: "compresses E K" and v: "0 < v" "v < 100" and rs: "\<forall>r \<in> set rs. rec_ok r \<and> good r"
    and i: "loaded (m_in s) (file_bytes K v rs ys)" "length (input_bytes (m_in s)) < lim"
      "input_eof (m_in s) \<or> anywhere \<and> roomy K (m_in s) rs"
    and s: "m_dec s = dump_decoder (input_bytes (m_in s)) a" "kind (m_out s)"
  shows "\<exists>t w. main_runs E G s 0 t \<and> m_out t = out_finish True w \<and> kind w \<and> view w = fold step rs (view (m_out s))"
proof -
  let ?i = "m_in s" and ?bs = "input_bytes (m_in s)"
  let ?zs = "if input_eof ?i then [] else std_in ?i"
  have bs: "?bs @ ?zs = file_bytes K v rs ys" using i(1) by (auto simp: loaded_def)
  have size: "9 < length ?bs" using i(1,3) by (auto simp: loaded_def roomy_def file_bytes_def rdb_magic_def split: if_splits)
  obtain d0 where 0: "decode_hdr E (m_dec s) = hdr_tail E d0" "at_pos ?bs 9 d0" "dec_log d0 = dec_log (m_dec s)"
    "start_offset (dec_bptr d0) = 0" "drop 9 ?bs @ ?zs = concat (map (rec_bytes K) rs) @ 0xff # ys"
    by (rule file_start [OF v bs size s(1)])
  have "take 9 ?bs @ concat (map (rec_bytes K) rs) @ 0xff # ys = file_bytes K v rs ys"
    using bs append_take_drop_id [of 9 ?bs] by (metis append_assoc 0(5))
  then have "window ?i 9 d0 (concat (map (rec_bytes K) rs) @ 0xff # ys)"
    using 0(2) i(1,3) by (auto simp: window_def roomy_def)
  moreover have "ready K lim anywhere good ?i d0 rs"
    using rs i 0(4) by (auto simp: ready_def loaded_def split: if_splits)
  ultimately show ?thesis by (rule runs_window [OF K s(2) _ _ 0(1,3), rotated])
qed

end


section \<open>The calls of a record\<close>

lemma set_quick_calls: "e \<in> set (quick_calls num vss) \<Longrightarrow> \<exists>n v. e = D_list n 0 (Some v)"
  by (induction vss arbitrary: num) (auto dest: set_numbered)

lemma obj_calls_plain: "e \<in> set (obj_calls ob) \<Longrightarrow> \<not> is_key_call e \<and> None \<notin> set_RdbEvent e"
proof (cases ob)
  case (ObModule m bs)
  then show "e \<in> set (obj_calls ob) \<Longrightarrow> ?thesis"
    using module_str_readable [of m] by (auto simp: is_key_call_def)
next
  case (ObStream st)
  assume "e \<in> set (obj_calls ob)"
  with ObStream stream_calls_event [of e st] stream_calls_readable [of e st] show ?thesis
    by (cases e) (auto simp: is_key_call_def)
qed (auto dest!: set_numbered set_quick_calls simp: is_key_call_def)

lemma rec_calls_readable: "e \<in> set (rec_calls off r) \<Longrightarrow> None \<notin> set_RdbEvent e"
proof -
  have "None \<notin> set_RdbEvent (meta_call m)" for m by (cases m) auto
  then show "e \<in> set (rec_calls off r) \<Longrightarrow> ?thesis"
    by (cases r) (auto simp: body_calls_def dest: obj_calls_plain)
qed

lemma rec_calls_safe:
  assumes "map ev_val es = rec_calls off r"
  shows "\<forall>e \<in> set es. ev_safe e"
proof
  fix e assume "e \<in> set es"
  then have "ev_val e \<in> set (rec_calls off r)" using assms by (metis image_eqI set_map)
  from rec_calls_readable [OF this] show "ev_safe e"
    unfolding ev_safe_def RdbEvent.set_map by (metis imageI)
qed

lemma list_text_other: "\<not> is_key_call e \<Longrightarrow> list_text G e = []"
  by (cases e) (auto simp: is_key_call_def)

lemma rec_list_text: "concat (map (list_text G) (rec_calls off (ms, k, ob))) = val_text G False (item_val k) @ [0x0a]"
proof -
  have "list_text G (meta_call m) = []" for m by (cases m) auto
  then have "concat (map (list_text G \<circ> meta_call) ms) = []" by simp
  moreover have "concat (map (list_text G) (obj_calls ob)) = []"
    using obj_calls_plain list_text_other by (simp add: concat_eq_Nil_conv)
  ultimately show ?thesis by (simp add: body_calls_def del: concat_eq_Nil_conv)
qed

section \<open>The outputs of the program\<close>

text \<open>\<open>ListOutput\<close>: the bytes written, and a line for each record.\<close>

fun rec_key :: "rdb_rec \<Rightarrow> rdb_item" where
  "rec_key (ms, k, ob) = k"

fun lst_view :: "main_out \<Rightarrow> u8 list" where
  "lst_view (Lst w) = out_bytes w"
| "lst_view _ = []"

definition is_lst :: "main_out \<Rightarrow> bool" where
  "is_lst w \<longleftrightarrow> (\<exists>o1. w = Lst o1)"

interpretation lst: record_output E K G is_lst lst_view lim True "\<lambda>_. True" "\<lambda>r bs. bs @ val_text G False (item_val (rec_key r)) @ [0x0a]" for E K G lim
proof
  fix w r bs off d and es :: "RdbString RdbEvent list"
  assume w: "is_lst w" and r: "rec_done K bs off r d" and es: "map ev_val es = rec_calls off r"
  obtain o1 where o1: "w = Lst o1" using w by (auto simp: is_lst_def)
  obtain ms k ob where rr: "r = (ms, k, ob)" by (cases r)
  obtain n where n: "calls (list_call G) es o1 = (Ok (), o1\<lparr>out_bytes := out_bytes o1 @ concat (map (\<lambda>e. list_text G (ev_val e)) es), list_cnt := n\<rparr>)"
    using list_calls_value [OF rec_calls_safe [OF es], of G o1] by blast
  have "concat (map (\<lambda>e. list_text G (ev_val e)) es) = concat (map (list_text G) (map ev_val es))" by (simp add: comp_def)
  then have "concat (map (\<lambda>e. list_text G (ev_val e)) es) = val_text G False (item_val k) @ [0x0a]"
    unfolding es rr rec_list_text .
  with n show "\<exists>w1 w2 tab. output_calls G es w = Some w1 \<and> after_record d w1 = Some (d\<lparr>dec_tab := tab\<rparr>, w2)
        \<and> tab \<in> {jones_tab_zero, jones_crc64_init} \<and> is_lst w2 \<and> lst_view w2 = lst_view w @ val_text G False (item_val (rec_key r)) @ [0x0a]"
    using r by (auto simp: o1 rr after_record_def is_lst_def rec_done_def at_pos_def intro!: exI [of _ "dec_tab d"])
next
  fix w assume "is_lst w"
  then show "output_calls G [] w = Some w" by (auto simp: is_lst_def run_ret)
qed


section \<open>Properties\<close>

lemma fold_append: "fold (\<lambda>r bs. bs @ f r) rs bs = bs @ concat (map f rs)"
  by (induction rs arbitrary: bs) auto

lemma main_start_decoder:
  assumes "main_start P a i = Some s" "ma_glob a = None"
  shows "m_dec s = dump_decoder (input_bytes i) 0" "m_out s = out_init (main_output a)" "m_in s = i"
  using assms by (auto simp: main_start_def main_filter_def dump_decoder_def RdbDecode_new_def)

text \<open>A program run is determined by the state it starts from: exit code and final state are unique.\<close>

theorem main_runs_deterministic:
  "main_runs E G s c t \<Longrightarrow> main_runs E G s c' t' \<Longrightarrow> c = c' \<and> t = t'"
proof (induction arbitrary: c' t' rule: main_runs.induct)
  case (exit s c t)
  from exit.prems exit.hyps show ?case by (cases rule: main_runs.cases) (auto simp: main_step_iff)
next
  case (going s t c u)
  from going.prems going.hyps(1) have "main_runs E G t c' t'"
    by (cases rule: main_runs.cases) (auto simp: main_step_iff)
  then show ?case by (rule going.IH)
qed

theorem main_runs_deterministic_witness:
  "\<exists>E G s t. main_runs E G s 1 t \<and> \<not> main_runs E G s 0 t"
proof -
  let ?E = "\<lparr>lzf_decompress = (\<lambda>_ _. []), malloc_ok = (\<lambda>_. True), uninit = (\<lambda>_. 0)\<rparr>" and ?G = "\<lambda>_ :: u64. [] :: u8 list"
  let ?s = "\<lparr>m_dec = dump_decoder [] 0, m_out = Lst \<lparr>out_bytes = [], list_cnt = 0\<rparr>,
    m_in = \<lparr>input_bytes = [], input_buf_size = 16, input_eof = True, std_in = []\<rparr>\<rparr>"
  have "\<exists>t. main_round ?E ?G ?s = Some (Exit 1 t)"
    by (simp add: main_round_def decode_hdr_def hdr_version_def dump_decoder_def RdbDecode_new_def RdbBufptr_init_def
      run_andThen run_throw new_calls_def run_ret show_error_def error_base_def)
  then obtain t where t: "main_runs ?E ?G ?s 1 t" by (auto intro: main_runs.exit)
  with main_runs_deterministic [OF t, of 0 t] show ?thesis by auto
qed

text \<open>What \<open>rdbparser -l\<close> prints for a file, with strings compressed where \<open>rec_bytes\<close> admits it: exactly the keys of its records, in
  order, one per line, for all meta data and objects of \<open>rec_ok\<close>, and the exit code is 0. The file is in the buffer, or
  it is longer than the buffer, read from the standard input in pieces, and has no record of half the buffer or more.\<close>

theorem list_prints_keys:
  assumes "0 < v" "v < 100" "\<forall>r \<in> set rs. rec_ok r" "compresses E K"
    and "loaded i (file_bytes K v rs ys)" "input_eof i \<or> roomy K i rs"
    and "main_start P a i = Some s" "ma_glob a = None" "ma_list a \<noteq> None"
  shows "\<exists>t w. main_runs E G s 0 t \<and> m_out t = Lst w
    \<and> out_bytes w = concat (map (\<lambda>r. val_text G False (item_val (rec_key r)) @ [0x0a]) rs)"
proof -
  have out: "m_out s = Lst \<lparr>out_bytes = [], list_cnt = 0\<rparr>"
    using main_start_decoder(2) [OF assms(7,8)] assms(9) by (simp add: main_output_def out_init_def)
  have "\<exists>t w. main_runs E G s 0 t \<and> m_out t = out_finish True w \<and> is_lst w
      \<and> lst_view w = fold (\<lambda>r bs. bs @ val_text G False (item_val (rec_key r)) @ [0x0a]) rs (lst_view (m_out s))"
    by (rule lst.file_runs [OF assms(4,1,2), where a = 0 and ys = ys and lim = "Suc (length (input_bytes i))"])
      (use assms(3,5,6) main_start_decoder(1,3) [OF assms(7,8)] out in \<open>auto simp: is_lst_def\<close>)
  then show ?thesis
    by (auto simp: out fold_append is_lst_def out_finish_def)
qed

text \<open>Forty small records in a buffer of 64 bytes.\<close>

definition small_rec :: rdb_rec where
  "small_rec = ([], ItStr [0x61], ObString (ItStr (replicate 30 0x66)))"

lemma small_plain: "run_packer [0x61] = None" "run_packer (replicate 30 0x66) = Some [0x66]"
  by (auto simp: run_packer_def dest: arg_cong [where f = length])

lemma small_size: "length (rec_bytes run_packer small_rec) < 32" "3 \<le> length (rec_bytes run_packer small_rec)"
  using length_hdr_bytes_le [of 1] length_hdr_bytes_le [of 30]
  by (simp_all add: small_rec_def item_code_def obj_hdr_def obj_data_def small_plain lzf_hdr_def)

lemma small_file:
  obtains i where "fill_buf_stdin run_env \<lparr>input_bytes = [], input_buf_size = 64, input_eof = True,
      std_in = file_bytes run_packer 9 (replicate 40 small_rec) []\<rparr> = Some i" "\<not> input_eof i"
    "loaded i (file_bytes run_packer 9 (replicate 40 small_rec) [])" "roomy run_packer i (replicate 40 small_rec)"
proof -
  let ?bs = "file_bytes run_packer 9 (replicate 40 small_rec) []"
  obtain i where i: "fill_buf_stdin run_env \<lparr>input_bytes = [], input_buf_size = 64, input_eof = True, std_in = ?bs\<rparr> = Some i"
    "loaded i ?bs" "input_buf_size i = 64" "length (input_bytes i) \<le> 64"
    by (rule stdin_loaded [of 64]) simp
  have "64 < length ?bs" using small_size(2) by (simp add: file_bytes_def length_concat sum_list_replicate)
  then have "\<not> input_eof i" using i(2,4) by (auto simp: loaded_def)
  moreover have "roomy run_packer i (replicate 40 small_rec)" using i(3) small_size(1) by (simp add: roomy_def)
  ultimately show ?thesis using that i(1,2) by blast
qed

theorem list_prints_keys_witness:
  "\<exists>G P i s t w. fill_buf_stdin run_env \<lparr>input_bytes = [], input_buf_size = 64, input_eof = True,
      std_in = file_bytes run_packer 9 (replicate 40 small_rec) []\<rparr> = Some i \<and> \<not> input_eof i
    \<and> main_start P (main_get_args [''rdbparser'', ''-l'']) i = Some s
    \<and> main_runs run_env G s 0 t \<and> m_out t = Lst w \<and> out_bytes w = concat (replicate 40 [0x61, 0x0a])"
proof -
  let ?a = "main_get_args [''rdbparser'', ''-l'']"
  obtain i where i: "fill_buf_stdin run_env \<lparr>input_bytes = [], input_buf_size = 64, input_eof = True,
      std_in = file_bytes run_packer 9 (replicate 40 small_rec) []\<rparr> = Some i" "\<not> input_eof i"
    "loaded i (file_bytes run_packer 9 (replicate 40 small_rec) [])" "roomy run_packer i (replicate 40 small_rec)"
    by (rule small_file)
  have a: "ma_glob ?a = None" "ma_list ?a \<noteq> None" by (code_simp, code_simp)
  obtain s where s: "main_start P ?a i = Some s" for P
    using a by (simp add: main_start_def main_filter_def)
  have ok: "\<forall>r \<in> set (replicate 40 small_rec). rec_ok r" by (simp add: small_rec_def)
  have "val_text G False (item_val (rec_key small_rec)) = [0x61]" for G
    by (simp add: small_rec_def quote_def print_char_def)
  with list_prints_keys [OF _ _ ok run_compresses i(3) _ s a] i s show ?thesis
    by (fastforce simp: map_replicate)
qed

end
