(* ===== verification/Rdb_Reload.thy ===== *)
theory Rdb_Reload
  imports Rdb_File
begin

text \<open>
  The RESTORE commands of \<open>rdbparser -r\<close>: the command of a record carries its key and, as payload,
  the dump of its object.
\<close>

section \<open>The commands\<close>

text \<open>The command for a key and an object.\<close>

definition bulk :: "u8 list \<Rightarrow> u8 list" where
  "bulk xs = lit ''$'' @ decimal (length xs) @ crlf @ xs @ crlf"

definition restore_cmd :: "packer \<Rightarrow> u8 list \<Rightarrow> rdb_obj \<Rightarrow> u8 list" where
  "restore_cmd K key ob = lit ''*5'' @ crlf @ bulk (lit ''RESTORE'') @ bulk key @ bulk (lit ''0'')
     @ bulk (dump_bytes K ob) @ bulk (lit ''REPLACE'')"

lemma restore_cmd_text:
  "restore_cmd K xs ob = restore_head True @ lit ''$'' @ decimal (length xs) @ crlf @ xs @ crlf @ lit ''$1'' @ crlf
     @ lit ''0'' @ crlf @ lit ''$'' @ decimal (length (dump_bytes K ob)) @ crlf @ dump_bytes K ob @ restore_tail True"
  by (simp add: restore_cmd_def restore_head_def restore_tail_def bulk_def lit_def decimal.simps)

lemma bulk_len_value:
  assumes "n < 10 ^ 12"
  shows "bulk_len (word_of_nat n) = Some (lit ''$'' @ decimal n @ crlf)"
proof -
  have s: "sint (word_of_nat n :: u64) = int n"
    using sint_of_int_self [of "int n", where 'a = 64] assms by simp
  have "length (decimal n) \<le> 12" using length_decimal [of n 11] assms by simp
  then show ?thesis using s by (simp add: bulk_len_def fmt_d_def Let_def crlf_def lit_def)
qed

text \<open>The output's fields, from the values of the calls.\<close>

lemma restore_update_val: "restore_update (ev_val e) r = restore_update e r"
  by (cases e) auto

lemma restore_calls: "calls restore_call es r = (Ok (), fold restore_update (map ev_val es) r)"
  by (induction es arbitrary: r) (auto simp: run_ret restore_call_def run_andThen(4) restore_update_val)

lemma restore_other:
  assumes "\<not> is_key_call e" "\<And>t off. e \<noteq> D_start_type t off"
  shows "is_matched (restore_update e r) = is_matched r \<and> type_offset (restore_update e r) = type_offset r"
  using assms by (cases e) (auto simp: is_key_call_def)

lemma restore_frame:
  "use_replace (restore_update e r) = use_replace r \<and> out_bytes (restore_update e r) = out_bytes r"
  by (cases e) auto

lemma obj_calls_type: "e \<in> set (obj_calls ob) \<Longrightarrow> e \<noteq> D_start_type t off"
  by (cases ob) (auto dest!: set_numbered set_quick_calls stream_calls_event)

lemma restore_fold_other:
  assumes "\<forall>e \<in> set es. \<not> is_key_call e \<and> (\<forall>t off. e \<noteq> D_start_type t off)"
  shows "is_matched (fold restore_update es r) = is_matched r \<and> type_offset (fold restore_update es r) = type_offset r"
  using assms
proof (induction es arbitrary: r)
  case (Cons e es)
  then show ?case using restore_other [of e r] by (auto simp del: restore_update.simps)
qed simp

lemma restore_fold_frame:
  "use_replace (fold restore_update es r) = use_replace r \<and> out_bytes (fold restore_update es r) = out_bytes r"
  by (induction es arbitrary: r) (auto simp: restore_frame)

lemma restore_record:
  defines "toff ms off \<equiv> off + length (concat (map meta_bytes ms))"
  shows "is_matched (fold restore_update (rec_calls off (ms, k, ob)) r)"
    "type_offset (fold restore_update (rec_calls off (ms, k, ob)) r) = word_of_nat (toff ms off)"
proof -
  let ?r1 = "restore_update (D_start_key (obj_type ob) (Some (item_val k)))
      (restore_update (D_start_type (obj_type ob) (toff ms off) :: rdb_val option RdbEvent) (fold restore_update (map meta_call ms) r))"
  have "\<forall>e \<in> set (obj_calls ob @ [D_end_key (obj_type ob)]). \<not> is_key_call e \<and> (\<forall>t off. e \<noteq> D_start_type t off)"
    using obj_calls_plain obj_calls_type by (auto simp: is_key_call_def)
  from restore_fold_other [OF this, of ?r1]
  show "is_matched (fold restore_update (rec_calls off (ms, k, ob)) r)"
    "type_offset (fold restore_update (rec_calls off (ms, k, ob)) r) = word_of_nat (toff ms off)"
    by (simp_all add: body_calls_def toff_def)
qed

section \<open>Cutting a record out of the input\<close>

lemma input_at_value:
  assumes "buf bp = Ptr h bs p" "offset bp = p" "bytes_at bs off xs" "length bs < 2 ^ 63" "n = length xs"
  shows "input_at bp (word_of_nat off) (word_of_nat n) = Some xs"
proof -
  have "unat (word_of_nat off :: u64) = off" "unat (word_of_nat n :: u64) = n"
    using bytes_at_le [OF assms(3)] assms(4,5) by (auto intro!: unat_word_of_nat)
  then show ?thesis
    using assms by (simp add: input_at_def bytes_at_def)
qed

lemma restore_key_value:
  assumes "str_val key = Some (StrVal xs)"
  shows "unat (str_u key) = length xs" "restore_key key = Some xs"
proof -
  have r: "rdn (pmem (str_s key)) (ppos (str_s key)) (unat (str_u key)) = Some xs"
    using assms by (auto simp: str_val_def split: RdbValueCoding.splits)
  then show u: "unat (str_u key) = length xs" by (auto simp: rdn_Some)
  show "restore_key key = Some xs"
    using r u by (cases "str_u key = 0") (auto simp: restore_key_def)
qed

lemma restore_start_value:
  assumes d: "dec_is_rdb_file d" "buf (dec_bptr d) = Ptr h bs p" "offset (dec_bptr d) = p" "start_offset (dec_bptr d) = 0"
    and k: "item_ok (ItStr xs)" "str_val (dec_key d) = Some (StrVal xs)"
    and at: "bytes_at bs (Suc off) (item_bytes (ItStr xs))" "length bs < 2 ^ 63"
  shows "restore_start d (word_of_nat off) = Some (word_of_nat (off + 1 + length (item_bytes (ItStr xs))))"
proof -
  have "Suc off + length (item_bytes (ItStr xs)) \<le> length bs" by (rule bytes_at_le [OF at(1)])
  moreover have "word_of_nat off + 1 = (word_of_nat (Suc off) :: u64)" by simp
  ultimately have u: "unat (word_of_nat off + 1 :: u64) = Suc off"
    using at(2) unat_word_of_nat [of "Suc off"] by (simp only:) simp
  have hdr: "decode_buf bs (Suc off) RdbLength_zero = Some (int (length (item_hdr (ItStr xs))), item_len (ItStr xs))"
    using at(1) by (intro item_hdr_decode(1) [OF k(1)]) (simp add: item_bytes_def bytes_at_append)
  have "str_u (dec_key d) = word_of_nat (length xs)"
    by (simp flip: restore_key_value(1) [OF k(2)])
  then show ?thesis
    using d u hdr by (simp add: restore_start_def Let_def item_bytes_def)
qed

lemma restore_payload_value:
  assumes d: "buf (dec_bptr d) = Ptr h bs p" "offset (dec_bptr d) = p" "dec_tab d \<in> {jones_tab_zero, jones_crc64_init}"
    and at: "bytes_at bs toff [RdbType_val (obj_type ob)]" "bytes_at bs start (obj_hdr K ob @ obj_data K ob)" "length bs < 2 ^ 63"
    and n: "n = start + length (obj_hdr K ob @ obj_data K ob)"
  shows "restore_payload d (word_of_nat toff) (word_of_nat start) (word_of_nat n) = Some (dump_bytes K ob, jones_crc64_init)"
proof -
  let ?t = "[RdbType_val (obj_type ob)]" and ?body = "obj_hdr K ob @ obj_data K ob"
  have sub: "word_of_nat n - word_of_nat start = (word_of_nat (length ?body) :: u64)" by (simp add: n)
  have i: "input_at (dec_bptr d) (word_of_nat toff) 1 = Some ?t" "input_at (dec_bptr d) (word_of_nat start) (word_of_nat (length ?body)) = Some ?body"
    using input_at_value [OF d(1,2) at(1,3), of 1] input_at_value [OF d(1,2) at(2,3)] by simp_all
  have j: "jones_crc64 (dec_tab d) a c xs = (crc_ref c xs, jones_crc64_init)" "jones_crc64 jones_crc64_init a c xs = (crc_ref c xs, jones_crc64_init)" for a c xs
    using d(3) by (auto intro: jones_crc64_value)
  have "?t @ ?body = dump_payload K ob" by (simp add: dump_payload_def)
  then have "crc_ref (crc_ref (crc_ref 0 ?t) ?body) [9, 0] = crc_ref 0 (dump_payload K ob @ [9, 0])"
    by (metis crc_ref_append)
  then show ?thesis
    unfolding restore_payload_def Let_def sub
    by (simp add: i(1) i(2) [simplified] j dump_bytes_def dump_of_def dump_payload_def del: crc_ref_simps)
qed


section \<open>The command of a record\<close>

text \<open>The offsets of a record fit into the fields of the output.\<close>

lemma record_range:
  assumes "rec_done K bs off (ms, k, ob) d" "length bs < 10 ^ 11"
  shows "(word_of_nat (off + length (concat (map meta_bytes ms))) :: u64) < word_of_nat (offset (dec_bptr d))"
proof -
  let ?toff = "off + length (concat (map meta_bytes ms))" and ?fin = "off + length (rec_bytes K (ms, k, ob))"
  have d: "offset (dec_bptr d) = ?fin" "bytes_at bs off (rec_bytes K (ms, k, ob))"
    using assms(1) by (simp_all add: rec_done_def at_pos_def)
  have "?fin \<le> length bs" by (rule bytes_at_le [OF d(2)])
  then have "?fin < 2 ^ 64" "?toff < ?fin" using assms(2) by simp_all
  then have "unat (word_of_nat ?fin :: u64) = ?fin" "unat (word_of_nat ?toff :: u64) = ?toff"
    using unat_word_of_nat [of ?fin] unat_word_of_nat [of ?toff] by (simp_all only: less_trans)
  with \<open>?toff < ?fin\<close> show ?thesis by (simp_all only: d word_less_nat_alt)
qed

lemma write_restore_cmd_value:
  assumes K: "K xs = None" and d: "rec_done K bs off (ms, ItStr xs, ob) d" "length bs < 10 ^ 11" "start_offset (dec_bptr d) = 0" and ok: "item_ok (ItStr xs)"
    and r: "is_matched r" "type_offset r = word_of_nat (off + length (concat (map meta_bytes ms)))" "use_replace r"
  shows "\<exists>r'. write_restore_cmd d r = (Ok jones_crc64_init, r') \<and> out_bytes r' = out_bytes r @ restore_cmd K xs ob \<and> use_replace r'"
proof -
  let ?key = "item_bytes (ItStr xs)" and ?bp = "dec_bptr d"
  define body where "body = obj_hdr K ob @ obj_data K ob"
  define toff where "toff = off + length (concat (map meta_bytes ms))"
  define start where "start = toff + 1 + length ?key"
  define fin where "fin = off + length (rec_bytes K (ms, ItStr xs, ob))"
  have fin: "fin = start + length body" by (simp add: fin_def start_def toff_def body_def item_code_def item_bytes_def K)
  have r2: "type_offset r = word_of_nat toff" using r(2) by (simp add: toff_def)
  have p: "dec_is_rdb_file d" "buf ?bp = Ptr False bs fin" "offset ?bp = fin" "start_offset ?bp = 0"
    "dec_tab d \<in> {jones_tab_zero, jones_crc64_init}" "str_val (dec_key d) = Some (StrVal xs)"
    using d(1,3) K by (auto simp: rec_done_def at_pos_def file_ready_def fin_def key_kept_def uncompressed_def)
  have at: "bytes_at bs toff [RdbType_val (obj_type ob)]" "bytes_at bs (Suc toff) ?key" "bytes_at bs start body"
  proof -
    have "bytes_at bs off (concat (map meta_bytes ms) @ [RdbType_val (obj_type ob)] @ ?key @ body)"
      using d(1) by (simp add: rec_done_def body_def item_code_def item_bytes_def K)
    then show "bytes_at bs toff [RdbType_val (obj_type ob)]" "bytes_at bs (Suc toff) ?key" "bytes_at bs start body"
      unfolding bytes_at_append [where xs = "concat (map meta_bytes ms)"] bytes_at_append [where xs = "[RdbType_val (obj_type ob)]"]
        bytes_at_append [where xs = ?key] by (simp_all add: add.assoc toff_def start_def)
  qed
  have le: "fin \<le> length bs" using bytes_at_le [OF at(3)] fin by simp
  have lt: "(word_of_nat toff :: u64) < word_of_nat fin"
    using record_range [OF d(1,2)] by (simp add: toff_def p(3))
  have st: "restore_start d (word_of_nat toff) = Some (word_of_nat start)"
    using d(2) unfolding start_def by (intro restore_start_value [OF p(1-4) ok p(6) at(2)]) simp
  have pay: "restore_payload d (word_of_nat toff) (word_of_nat start) (word_of_nat fin) = Some (dump_bytes K ob, jones_crc64_init)"
    using d(2) by (intro restore_payload_value [OF p(2,3,5) at(1) at(3) [unfolded body_def] _ fin [unfolded body_def]]) simp
  have "length xs \<le> length ?key" by (simp add: item_bytes_def)
  then have "length xs < 10 ^ 12" using le fin d(2) by (simp add: start_def)
  moreover have "str_u (dec_key d) = word_of_nat (length xs)"
    by (simp flip: restore_key_value(1) [OF p(6)])
  ultimately have klen: "bulk_len (str_u (dec_key d)) = Some (lit ''$'' @ decimal (length xs) @ crlf)"
    using bulk_len_value by simp
  have dl: "length (dump_bytes K ob) = length body + 11" by (simp add: dump_bytes_def dump_of_def dump_payload_def body_def)
  then have "length (dump_bytes K ob) < 10 ^ 12" using le fin d(2) by (simp add: start_def)
  moreover have "word_of_nat fin - word_of_nat start + 1 + 10 = (word_of_nat (length (dump_bytes K ob)) :: u64)"
    by (simp add: fin dl)
  ultimately have "bulk_len (word_of_nat fin - word_of_nat start + 1 + 10) = Some (lit ''$'' @ decimal (length (dump_bytes K ob)) @ crlf)"
    using bulk_len_value by simp
  moreover have "word_of_nat fin - word_of_nat start + 1 + 10 = (11 + (word_of_nat fin - word_of_nat start) :: u64)" by simp
  ultimately have dlen': "bulk_len (11 + (word_of_nat fin - word_of_nat start)) = Some (lit ''$'' @ decimal (length (dump_bytes K ob)) @ crlf)"
    by (simp only:)
  have "write_restore_cmd d r = (Ok jones_crc64_init, reset_state (r\<lparr>out_bytes := out_bytes r @ restore_cmd K xs ob\<rparr>))"
    unfolding write_restore_cmd_def run_andThen(3) id_def Let_def p(3,4) r2
    using lt [folded not_le] r(1,3)
    by (simp add: st klen restore_key_value(2) [OF p(6)] dlen' pay run_andThen(4,6) put_out_def run_ret
      restore_cmd_text del: of_nat_add)
  then show ?thesis using r(3) by (simp add: reset_state_def)
qed


section \<open>The output of the program\<close>

fun rest_view :: "main_out \<Rightarrow> u8 list" where
  "rest_view (Rest w) = out_bytes w"
| "rest_view _ = []"

definition is_rest :: "main_out \<Rightarrow> bool" where
  "is_rest w \<longleftrightarrow> (\<exists>r. w = Rest r \<and> use_replace r)"

text \<open>The key must be a string that is not compressed: for an integer key, the length used is the integer itself, and the
  block of a compressed key is freed before the command is written.\<close>

fun key_data :: "rdb_rec \<Rightarrow> u8 list" where
  "key_data (ms, k, ob) = item_data k"

fun rec_obj :: "rdb_rec \<Rightarrow> rdb_obj" where
  "rec_obj (ms, k, ob) = ob"

definition string_key :: "packer \<Rightarrow> rdb_rec \<Rightarrow> bool" where
  "string_key K r \<longleftrightarrow> (\<exists>xs. rec_key r = ItStr xs \<and> K xs = None)"

interpretation rest: record_output E K G is_rest rest_view "10 ^ 11" False "string_key K"
  "\<lambda>r bs. bs @ restore_cmd K (key_data r) (rec_obj r)" for E K G
proof
  fix w r bs off d and es :: "RdbString RdbEvent list"
  assume w: "is_rest w" and r: "rec_ok r" "string_key K r" and d: "rec_done K bs off r d" "length bs < 10 ^ 11"
    and so: "False \<or> start_offset (dec_bptr d) = 0" and es: "map ev_val es = rec_calls off r"
  obtain w0 where w0: "w = Rest w0" "use_replace w0" using w by (auto simp: is_rest_def)
  obtain ms xs ob where rr: "r = (ms, ItStr xs, ob)" "K xs = None" using r(2) by (cases r) (auto simp: string_key_def)
  let ?w1 = "fold restore_update (rec_calls off r) w0"
  have out: "output_calls G es w = Some (Rest ?w1)"
    using restore_calls [of es w0] by (simp add: w0 es)
  have w1: "is_matched ?w1" "type_offset ?w1 = word_of_nat (off + length (concat (map meta_bytes ms)))"
    "use_replace ?w1" "out_bytes ?w1 = out_bytes w0"
    unfolding rr(1) using restore_record [where off = off and ms = ms and k = "ItStr xs" and ob = ob and r = w0] restore_fold_frame [of _ w0] w0(2)
    by (auto simp del: rec_calls.simps)
  obtain w2 where w2: "write_restore_cmd d ?w1 = (Ok jones_crc64_init, w2)" "out_bytes w2 = out_bytes w0 @ restore_cmd K xs ob" "use_replace w2"
    using write_restore_cmd_value [OF rr(2) d(1) [unfolded rr(1)] d(2) so [simplified] _ w1(1-3)] r(1) w1(4) by (auto simp: rr simp del: rec_calls.simps)
  have "after_record d (Rest ?w1) = Some (d\<lparr>dec_tab := jones_crc64_init\<rparr>, Rest w2)"
    using w2(1) by (simp add: after_record_def del: rec_calls.simps)
  moreover have "is_rest (Rest w2)" "rest_view (Rest w2) = rest_view w @ restore_cmd K (key_data r) (rec_obj r)"
    using w2(2,3) by (simp_all add: is_rest_def w0 rr)
  ultimately show "\<exists>w1 w2 tab. output_calls G es w = Some w1 \<and> after_record d w1 = Some (d\<lparr>dec_tab := tab\<rparr>, w2)
        \<and> tab \<in> {jones_tab_zero, jones_crc64_init} \<and> is_rest w2 \<and> rest_view w2 = rest_view w @ restore_cmd K (key_data r) (rec_obj r)"
    using out by blast
next
  fix w assume "is_rest w"
  then show "output_calls G [] w = Some w" by (auto simp: is_rest_def run_ret)
qed

section \<open>Properties\<close>

text \<open>What \<open>rdbparser -r\<close> writes for a file that fits in the input buffer and whose keys are strings, not compressed: for each
  record, in order, a RESTORE command with its key, the ttl 0 and as payload the dump of its object, with
  version and checksum. By \<open>dump_roundtrip\<close> each payload is decoded to the object of the record again.\<close>

theorem restore_commands_carry_dumps:
  assumes "0 < v" "v < 100" "\<forall>r \<in> set rs. rec_ok r \<and> string_key K r" "compresses E K" "loaded i (file_bytes K v rs ys)" "input_eof i"
    and "length (file_bytes K v rs ys) < 10 ^ 11"
    and "main_start P a i = Some s" "ma_glob a = None" "ma_list a = None" "ma_restore a \<noteq> None"
  shows "\<exists>t w. main_runs E G s 0 t \<and> m_out t = Rest w
    \<and> out_bytes w = concat (map (\<lambda>r. restore_cmd K (key_data r) (rec_obj r)) rs)"
proof -
  have out: "m_out s = Rest (RestoreOutput_new True)"
    using main_start_decoder(2) [OF assms(8,9)] assms(10,11) by (simp add: main_output_def out_init_def)
  have new: "out_bytes (RestoreOutput_new True) = []" "use_replace (RestoreOutput_new True)" by (simp_all add: RestoreOutput_new_def)
  have "\<exists>t w. main_runs E G s 0 t \<and> m_out t = out_finish True w \<and> is_rest w
      \<and> rest_view w = fold (\<lambda>r bs. bs @ restore_cmd K (key_data r) (rec_obj r)) rs (rest_view (m_out s))"
    by (rule rest.file_runs [OF assms(4,1,2), where a = 0 and ys = ys])
      (use assms(3,5-7) main_start_decoder(1,3) [OF assms(8,9)] out new in \<open>auto simp: is_rest_def loaded_def\<close>)
  then show ?thesis
    by (auto simp: out new fold_append is_rest_def out_finish_def)
qed

theorem restore_commands_carry_dumps_witness:
  "\<exists>G P s t w. main_start P (main_get_args [''rdbparser'', ''-r''])
      \<lparr>input_bytes = file_bytes run_packer 9 [([], ItStr [0x61], ObString (ItStr (replicate 30 0x66)))] [], input_buf_size = 64,
        input_eof = True, std_in = []\<rparr> = Some s
    \<and> main_runs run_env G s 0 t \<and> m_out t = Rest w \<and> out_bytes w = restore_cmd run_packer [0x61] (ObString (ItStr (replicate 30 0x66)))"
proof -
  let ?rs = "[([], ItStr [0x61], ObString (ItStr (replicate 30 0x66)))]"
  let ?i = "\<lparr>input_bytes = file_bytes run_packer 9 ?rs [], input_buf_size = 64, input_eof = True, std_in = []\<rparr>"
  let ?a = "main_get_args [''rdbparser'', ''-r'']"
  have a: "ma_glob ?a = None" "ma_list ?a = None" "ma_restore ?a \<noteq> None" by (code_simp, code_simp, code_simp)
  obtain s where s: "main_start P ?a ?i = Some s" for P
    using a by (simp add: main_start_def main_filter_def)
  have k: "run_packer [0x61] = None" by (auto simp: run_packer_def dest: arg_cong [where f = length])
  have "length (file_bytes run_packer 9 ?rs []) < 10 ^ 11"
    using length_hdr_bytes_le [of 1] length_hdr_bytes_le [of 30]
    by (simp add: file_bytes_def item_code_def obj_hdr_def obj_data_def rdb_magic_def k) (simp add: run_packer_def lzf_hdr_def)
  with restore_commands_carry_dumps [OF _ _ _ run_compresses _ _ _ s a, where v = 9 and rs = ?rs and ys = "[]"] s k show ?thesis
    by (fastforce simp: string_key_def loaded_def)
qed

lemma checked_fault: "(\<And>y. x = Some y \<Longrightarrow> fst (f y s) = Fault) \<Longrightarrow> fst (andThen (checked x) f s) = Fault"
  by (cases x) (simp_all add: run_andThen)

text \<open>C39: The restore output needs the key after it is gone. \<open>rdbparser -r\<close> frees the decompressed strings of a record and then
  writes its command: if the key of the first record of a file is compressed, the program reads the
  freed block, and no run of it has an exit code.\<close>

theorem restore_compressed_key:
  assumes "0 < v" "v < 100" "rec_ok r" "rec_key r = ItStr xs" "K xs = Some z" "compresses E K"
    and "loaded i (file_bytes K v (r # rs) ys)" "input_eof i" "length (file_bytes K v (r # rs) ys) < 10 ^ 11"
    and "main_start P a i = Some s" "ma_glob a = None" "ma_list a = None" "ma_restore a \<noteq> None"
  shows "main_round E G s = None \<and> (\<forall>c t. \<not> main_runs E G s c t)"
proof -
  let ?bs = "file_bytes K v (r # rs) ys" and ?w0 = "RestoreOutput_new True"
  obtain ms ob where rr: "r = (ms, ItStr xs, ob)" using assms(4) by (cases r) auto
  have out: "m_out s = Rest ?w0" and dec: "m_dec s = dump_decoder ?bs 0"
    using main_start_decoder(1,2) [OF assms(10,11)] assms(7,8,12,13) by (simp_all add: main_output_def out_init_def loaded_def)
  obtain d0 where 0: "decode_hdr E (m_dec s) = hdr_tail E d0" "at_pos ?bs 9 d0" "dec_log d0 = dec_log (m_dec s)" "start_offset (dec_bptr d0) = 0"
    "drop 9 ?bs = rec_bytes K r @ concat (map (rec_bytes K) rs) @ 0xff # ys"
    by (rule file_start [OF assms(1,2) _ _ dec, of "[]" K "r # rs" ys E]) (simp_all add: file_bytes_def rdb_magic_def)
  have "9 \<le> length ?bs" by (simp add: file_bytes_def rdb_magic_def)
  then have at: "bytes_at ?bs 9 (rec_bytes K r @ concat (map (rec_bytes K) rs) @ 0xff # ys)"
    using bytes_at_here [of "take 9 ?bs" "drop 9 ?bs" "[]"] by (simp add: min_absorb2 flip: 0(5))
  obtain d es where 1: "rec_done K ?bs 9 r d" "map ev_val es = rec_calls 9 r" "start_offset (dec_bptr d) = start_offset (dec_bptr d0)" "main_round E G s = do {
       w \<leftarrow> output_calls G es (m_out s);
       (d, w) \<leftarrow> after_record d w;
       (d, i) \<leftarrow> refill E d (m_in s);
       if avail (dec_bptr d) = 0 then Some (Exit 0 \<lparr>m_dec = d, m_out = out_finish True w, m_in = i\<rparr>)
       else Some (Going \<lparr>m_dec = d, m_out = w, m_in = i\<rparr>) }"
    by (rule record_round [OF assms(6,3) 0(2) at _ 0(1,3)]) simp_all
  let ?w1 = "fold restore_update (rec_calls 9 r) ?w0"
  have calls: "output_calls G es (m_out s) = Some (Rest ?w1)"
    using restore_calls [of es ?w0] by (simp add: out 1(2))
  have w1: "is_matched ?w1" "type_offset ?w1 = word_of_nat (9 + length (concat (map meta_bytes ms)))"
    unfolding rr by (rule restore_record)+
  have key: "str_u (dec_key d) \<noteq> 0" "str_s (dec_key d) = Freed"
    using 1(1) assms(5) by (simp_all add: rec_done_def rr key_kept_def uncompressed_def)
  have d: "rec_done K ?bs 9 (ms, ItStr xs, ob) d" using 1(1) unfolding rr .
  have "restore_key (dec_key d) = None"
    using key by (simp add: restore_key_def rdn_def unat_eq_zero)
  then have "fst (write_restore_cmd d ?w1) = Fault"
    using record_range [OF d assms(9)] 1(3) 0(4) w1
    by (auto simp: write_restore_cmd_def run_andThen Let_def not_le put_out_def simp del: rec_calls.simps intro!: checked_fault)
  then have "main_round E G s = None"
    by (cases "write_restore_cmd d ?w1") (auto simp: 1(4) calls after_record_def simp del: rec_calls.simps)
  then show ?thesis by (auto elim: main_runs.cases simp: main_step_iff)
qed

theorem restore_compressed_key_witness:
  "\<exists>P s. main_start P (main_get_args [''rdbparser'', ''-r''])
      \<lparr>input_bytes = file_bytes run_packer 9 [([], ItStr (replicate 30 0x66), ObString (ItStr [0x62]))] [], input_buf_size = 64,
        input_eof = True, std_in = []\<rparr> = Some s
    \<and> (\<forall>c t. \<not> main_runs run_env (\<lambda>_. []) s c t)"
proof -
  let ?r = "([], ItStr (replicate 30 0x66), ObString (ItStr [0x62]))"
  let ?bs = "file_bytes run_packer 9 [?r] []"
  let ?i = "\<lparr>input_bytes = ?bs, input_buf_size = 64, input_eof = True, std_in = []\<rparr>"
  let ?a = "main_get_args [''rdbparser'', ''-r'']"
  have a: "ma_glob ?a = None" "ma_list ?a = None" "ma_restore ?a \<noteq> None" by (code_simp, code_simp, code_simp)
  obtain s where s: "main_start P ?a ?i = Some s" for P
    using a by (simp add: main_start_def main_filter_def)
  have k: "run_packer [0x62] = None" "run_packer (replicate 30 0x66) = Some [0x66]"
    by (auto simp: run_packer_def dest: arg_cong [where f = length])
  have len: "length ?bs < 10 ^ 11"
    using length_hdr_bytes_le [of 1] length_hdr_bytes_le [of 30]
    by (simp add: file_bytes_def item_code_def obj_hdr_def obj_data_def rdb_magic_def k lzf_hdr_def)
  from restore_compressed_key [OF _ _ _ _ k(2) run_compresses _ _ len s a] s show ?thesis by (fastforce simp: loaded_def)
qed



end
