(* ===== verification/Rdb_Document.thy ===== *)
theory Rdb_Document
  imports Rdb_File
begin

text \<open>
  The document that \<open>rdbparser\<close> prints without an option: the calls of a file as JSON text, with
  commas between the items of the document and between the elements of an object.
\<close>

section \<open>Separated texts\<close>

fun joined_by :: "u8 list \<Rightarrow> u8 list list \<Rightarrow> u8 list" where
  "joined_by sep [] = []"
| "joined_by sep [x] = x"
| "joined_by sep (x # y # xs) = x @ sep @ joined_by sep (y # xs)"

abbreviation joined :: "u8 list list \<Rightarrow> u8 list" where
  "joined \<equiv> joined_by comma_line"

lemma joined_Cons: "joined_by sep (x # xs) = x @ (if xs = [] then [] else sep @ joined_by sep xs)"
  by (cases xs) auto

lemma joined_append: "joined_by sep (xs @ ys) = joined_by sep xs @ (if xs \<noteq> [] \<and> ys \<noteq> [] then sep else []) @ joined_by sep ys"
  by (induction xs) (auto simp: joined_Cons)

text \<open>The elements of an object are numbered, and all but the one numbered 0 have a comma before them.\<close>

definition row_text :: "nat \<Rightarrow> nat \<Rightarrow> u8 list \<Rightarrow> u8 list" where
  "row_text k n t = json_tab (n \<noteq> 0) comma_line k @ t"

abbreviation elem_text :: "nat \<Rightarrow> u8 list \<Rightarrow> u8 list" where
  "elem_text \<equiv> row_text 1"

lemma joined_numbered:
  "concat (numbered (\<lambda>n x. row_text k n (f x)) n xs)
    = (if n \<noteq> 0 \<and> xs \<noteq> [] then comma_line else []) @ joined (map (\<lambda>x. row_text k 0 (f x)) xs)"
  by (induction xs arbitrary: n) (auto simp: joined_Cons row_text_def json_tab_def)

section \<open>The text of an object\<close>

definition pair_text :: "(u64 \<Rightarrow> u8 list) \<Rightarrow> rdb_val \<Rightarrow> rdb_val \<Rightarrow> u8 list" where
  "pair_text G a b = val_text G True a @ lit '' : '' @ val_text G True b"

definition elems_json :: "(u64 \<Rightarrow> u8 list) \<Rightarrow> rdb_val list \<Rightarrow> u8 list" where
  "elems_json G vs = joined (map (\<lambda>v. elem_text 0 (val_text G True v)) vs)"

definition pairs_json :: "(u64 \<Rightarrow> u8 list) \<Rightarrow> (rdb_val \<times> rdb_val) list \<Rightarrow> u8 list" where
  "pairs_json G ps = joined (map (\<lambda>(a, b). elem_text 0 (pair_text G a b)) ps)"

text \<open>
  The lists of a quicklist follow each other without a comma as long as no element has had a number
  other than 0.
\<close>

fun quick_json :: "(u64 \<Rightarrow> u8 list) \<Rightarrow> nat \<Rightarrow> rdb_val list list \<Rightarrow> u8 list" where
  "quick_json G n [] = []"
| "quick_json G n (vs # vss) = (if n \<noteq> 0 \<and> vs \<noteq> [] then comma_line else []) @ elems_json G vs
     @ quick_json G (n + (length vs - 1)) vss"

text \<open>
  Streams. Names and strings end at a zero byte, and are not escaped. A list has its brackets and
  its name, and is left out when it is empty.
\<close>

definition c_text :: "u8 list \<Rightarrow> u8 list" where
  "c_text cs = takeWhile (\<lambda>c. c \<noteq> 0) cs"

fun item_text :: "rdb_val option \<Rightarrow> u8 list" where
  "item_text (Some (StrVal cs)) = lit ''\"'' @ c_text cs @ lit ''\"''"
| "item_text (Some (IntVal x)) = fmt_d x"
| "item_text _ = []"

fun name_text :: "rdb_val option \<Rightarrow> u8 list" where
  "name_text (Some (IntVal x)) = lit ''\"'' @ fmt_d x @ lit ''\"''"
| "name_text v = item_text v"

definition field_text :: "rdb_val option \<times> rdb_val option \<Rightarrow> u8 list" where
  "field_text = (\<lambda>(f, v). name_text f @ lit '' : '' @ item_text v)"

definition entry_text :: "RdbStreamRecId \<Rightarrow> RdbStreamRecId \<Rightarrow> (rdb_val option \<times> rdb_val option) list \<Rightarrow> u8 list" where
  "entry_text i d ps = lit ''{ \"id\" : \"'' @ fmt_u (rec_ms i + rec_ms d) @ lit ''-'' @ fmt_u (rec_ser i + rec_ser d) @ lit ''\", ''
     @ joined_by (lit '', '') (map field_text ps) @ lit '' }''"

definition info_text :: "RdbStreamRecId \<Rightarrow> u64 \<Rightarrow> u64 \<Rightarrow> u8 list" where
  "info_text i n c = lit ''  \"last_id\" : \"'' @ fmt_id i @ lit ''\"'' @ comma_line @ lit ''  \"num_elems\" : '' @ fmt_u n @ comma_line
     @ lit ''  \"num_cgroups\" : '' @ fmt_u c"

definition group_text :: "u8 list \<Rightarrow> u64 \<Rightarrow> RdbStreamRecId \<Rightarrow> u8 list" where
  "group_text nm n i = lit ''{ \"group\" : \"'' @ c_text nm @ lit ''\", \"pending\" : '' @ fmt_u n @ lit '', \"last_id\" : \"'' @ fmt_id i @ lit ''\"''"

definition pend_text :: "RdbStreamRecId \<Rightarrow> u64 \<Rightarrow> u64 \<Rightarrow> u8 list" where
  "pend_text i l d = lit ''{ \"id\" : \"'' @ fmt_id i @ lit ''\", \"last_d\" : '' @ fmt_u l @ lit '', \"d_cnt\" : '' @ fmt_u d @ lit '' }''"

definition cons_text :: "u8 list \<Rightarrow> u64 \<Rightarrow> u64 \<Rightarrow> u8 list" where
  "cons_text nm n s = lit ''{ \"name\" : \"'' @ c_text nm @ lit ''\", \"pending\" : '' @ fmt_u n @ lit '', \"last_seen\" : '' @ fmt_u s"

definition cons_pend_text :: "RdbStreamRecId \<Rightarrow> u8 list" where
  "cons_pend_text i = lit ''\"'' @ fmt_id i @ lit ''\"''"

definition part_json :: "StreamPart \<Rightarrow> nat \<Rightarrow> u8 list list \<Rightarrow> u8 list" where
  "part_json p k ts = (if ts = [] then [] else json_stream_start p @ joined (map (row_text k 0) ts) @ json_stream_end p)"

definition entry_json :: "stream_node \<times> stream_item \<Rightarrow> u8 list" where
  "entry_json = (\<lambda>(nd, it). entry_text (nd_id nd) (it_diff it)
     (map (\<lambda>(f, v). (Some (lp_item_val f), Some (lp_item_val v))) (fields_pairs (nd_master nd) (it_fields it))))"

definition consumer_json :: "stream_consumer \<Rightarrow> u8 list" where
  "consumer_json c = cons_text (co_name c) (word_of_nat (length (co_pending c))) (co_seen c)
     @ part_json STREAM_CONSUMER_PENDING_LIST 5 (map cons_pend_text (co_pending c)) @ lit '' }''"

definition group_json :: "stream_group \<Rightarrow> u8 list" where
  "group_json g = group_text (gr_name g) (word_of_nat (length (gr_pending g))) (gr_last g)
     @ part_json STREAM_PENDING_LIST 4 (map (\<lambda>p. pend_text (pe_id p) (pe_last p) (pe_deliv p)) (gr_pending g))
     @ part_json STREAM_CONSUMER_LIST 4 (map consumer_json (gr_consumers g)) @ lit '' }''"

definition stream_json :: "stream_obj \<Rightarrow> u8 list" where
  "stream_json st = part_json STREAM_ENTRY_LIST 2 (map entry_json (seen_entries (st_nodes st)))
     @ info_text (st_last st) (if st_second st then st_added st else st_num st) (word_of_nat (length (st_groups st)))
     @ part_json STREAM_GROUP_LIST 2 (map group_json (st_groups st))"

fun obj_json :: "(u64 \<Rightarrow> u8 list) \<Rightarrow> rdb_obj \<Rightarrow> u8 list" where
  "obj_json G (ObString i) = val_text G True (item_val i)"
| "obj_json G (ObList xs) = elems_json G (map item_val xs)"
| "obj_json G (ObSet xs) = elems_json G (map item_val xs)"
| "obj_json G (ObHash xs) = pairs_json G (map (\<lambda>(a, b). (item_val a, item_val b)) xs)"
| "obj_json G (ObZset xs) = pairs_json G (map (\<lambda>(a, x). (item_val a, score_val x)) xs)"
| "obj_json G (ObZset2 xs) = pairs_json G (map (\<lambda>(a, x). (item_val a, score_val x)) xs)"
| "obj_json G (ObIntset nb xs) = elems_json G (map IntVal xs)"
| "obj_json G (ObListZip ds) = elems_json G (map StrVal ds)"
| "obj_json G (ObHashZip ps) = pairs_json G (map (\<lambda>(a, b). (StrVal a, StrVal b)) ps)"
| "obj_json G (ObZsetZip ps) = pairs_json G (map (\<lambda>(a, b). (StrVal a, StrVal b)) ps)"
| "obj_json G (ObQuicklist dss) = quick_json G 0 (map (map StrVal) dss)"
| "obj_json G (ObHashPack ps) = pairs_json G (map (\<lambda>(a, b). (lp_item_val a, lp_item_val b)) ps)"
| "obj_json G (ObZsetPack ps) = pairs_json G (map (\<lambda>(a, b). (lp_item_val a, lp_item_val b)) ps)"
| "obj_json G (ObQuicklist2 iss) = quick_json G 0 (map (map lp_item_val) iss)"
| "obj_json G (ObModule m bs) = (case str_val (module_str m) of None \<Rightarrow> [] | Some v \<Rightarrow> val_text G True v)"
| "obj_json G (ObZipmap es) = pairs_json G (map (\<lambda>(f, v, pad). (StrVal f, StrVal v)) es)"
| "obj_json G (ObStream st) = stream_json st"

section \<open>The items of the document\<close>

text \<open>A key is always in quotes, and followed by how its object starts.\<close>

definition key_json :: "(u64 \<Rightarrow> u8 list) \<Rightarrow> RdbType \<Rightarrow> rdb_val \<Rightarrow> u8 list" where
  "key_json G t v = (case key_fmt t of None \<Rightarrow> [] | Some (fmt, typ) \<Rightarrow>
     (case v of NoVal \<Rightarrow> [0x22] @ typ @ [0x22] | StrVal cs \<Rightarrow> val_text G True v | _ \<Rightarrow> [0x22] @ val_text G True v @ [0x22]) @ fmt)"

fun meta_json :: "(u64 \<Rightarrow> u8 list) \<Rightarrow> rdb_meta \<Rightarrow> u8 list" where
  "meta_json G (MIdle n) = lit ''\"idle\" : '' @ fmt_u n"
| "meta_json G (MFreq b) = lit ''\"freq\" : '' @ fmt_u b"
| "meta_json G (MAux a b) = pair_text G (item_val a) (item_val b)"
| "meta_json G (MDbresize i j) = lit ''\"dbresize\" : ['' @ fmt_u i @ lit '', '' @ fmt_u j @ lit '']''"
| "meta_json G (MExpireMs ms) = lit ''\"expire_ms\" : '' @ fmt_u ms"
| "meta_json G (MExpire sec) = lit ''\"expire\" : '' @ fmt_u sec"
| "meta_json G (MSelect n) = lit ''\"dbselect\" : '' @ fmt_u (ucast n :: u32)"

fun rec_json :: "(u64 \<Rightarrow> u8 list) \<Rightarrow> bool \<Rightarrow> rdb_rec \<Rightarrow> u8 list list" where
  "rec_json G sm (ms, k, ob) = (if sm then map (meta_json G) ms else [])
     @ [key_json G (obj_type ob) (item_val k) @ obj_json G ob @ end_fmt (obj_type ob)]"

text \<open>The document: one object with the items of all records.\<close>

definition file_json :: "(u64 \<Rightarrow> u8 list) \<Rightarrow> bool \<Rightarrow> rdb_rec list \<Rightarrow> u8 list" where
  "file_json G sm rs = lit ''{'' @ [0x0a] @ joined (concat (map (rec_json G sm) rs)) @ [0x0a] @ lit ''}'' @ [0x0a]"

section \<open>What JsonOutput does with a call\<close>

text \<open>Text and number of items so far: an item, with a comma before it unless it is the first.\<close>

fun add_item :: "u8 list \<Rightarrow> u8 list \<times> u64 \<Rightarrow> u8 list \<times> u64" where
  "add_item t (out, n) = (out @ (if n \<noteq> 0 then comma_line else []) @ t, n + 1)"

fun add_text :: "u8 list \<Rightarrow> u8 list \<times> u64 \<Rightarrow> u8 list \<times> u64" where
  "add_text t (out, n) = (out @ t, n)"

definition add_meta :: "bool \<Rightarrow> u8 list \<Rightarrow> u8 list \<times> u64 \<Rightarrow> u8 list \<times> u64" where
  "add_meta sm t v = (if sm then add_item t v else v)"

fun stream_text :: "rdb_val option RdbEvent \<Rightarrow> u8 list" where
  "stream_text (D_stream_start p) = json_stream_start p"
| "stream_text (D_stream_end p) = json_stream_end p"
| "stream_text (D_stream_entry n i d (Some ps)) = row_text 2 n (entry_text i d ps)"
| "stream_text (D_stream_info i n c) = info_text i n c"
| "stream_text (D_stream_group n k (Some (StrVal nm)) p i) = row_text 2 n (group_text nm p i)"
| "stream_text (D_stream_pend n k i l d) = row_text 4 n (pend_text i l d)"
| "stream_text (D_stream_cons n k (Some (StrVal nm)) p s) = row_text 4 n (cons_text nm p s)"
| "stream_text (D_stream_cons_pend n k i) = row_text 5 n (cons_pend_text i)"
| "stream_text _ = []"

fun add_call :: "(u64 \<Rightarrow> u8 list) \<Rightarrow> bool \<Rightarrow> rdb_val option RdbEvent \<Rightarrow> u8 list \<times> u64 \<Rightarrow> u8 list \<times> u64" where
  "add_call G sm (D_idle n) = add_meta sm (lit ''\"idle\" : '' @ fmt_u n)"
| "add_call G sm (D_freq n) = add_meta sm (lit ''\"freq\" : '' @ fmt_u n)"
| "add_call G sm (D_aux (Some a) (Some b)) = add_meta sm (pair_text G a b)"
| "add_call G sm (D_dbresize i j) = add_meta sm (lit ''\"dbresize\" : ['' @ fmt_u i @ lit '', '' @ fmt_u j @ lit '']'')"
| "add_call G sm (D_expired_ms n) = add_meta sm (lit ''\"expire_ms\" : '' @ fmt_u n)"
| "add_call G sm (D_expired n) = add_meta sm (lit ''\"expire\" : '' @ fmt_u n)"
| "add_call G sm (D_dbselect n) = add_meta sm (lit ''\"dbselect\" : '' @ fmt_u n)"
| "add_call G sm (D_start_key t (Some v)) = (if t = RDB_BAD_TYPE then id else add_item (key_json G t v))"
| "add_call G sm (D_end_key t) = add_text (end_fmt t)"
| "add_call G sm (D_string (Some v)) = add_text (val_text G True v)"
| "add_call G sm (D_module (Some v)) = add_text (val_text G True v)"
| "add_call G sm (D_hash n c (Some a) (Some b)) = add_text (elem_text n (pair_text G a b))"
| "add_call G sm (D_zset n c (Some a) (Some b)) = add_text (elem_text n (pair_text G a b))"
| "add_call G sm (D_list n c (Some v)) = add_text (elem_text n (val_text G True v))"
| "add_call G sm (D_set n c (Some v)) = add_text (elem_text n (val_text G True v))"
| "add_call G sm e = (if stream_event e then add_text (stream_text e) else id)"

text \<open>
  Names and strings in streams have a length that fits an \<open>int\<close>; the names of groups and consumers
  are strings.
\<close>

fun int_long :: "rdb_val option \<Rightarrow> bool" where
  "int_long (Some (StrVal cs)) \<longleftrightarrow> length cs < 2 ^ 31"
| "int_long (Some (IntVal x)) \<longleftrightarrow> True"
| "int_long _ \<longleftrightarrow> False"

fun printable :: "rdb_val option RdbEvent \<Rightarrow> bool" where
  "printable (D_stream_entry n i d ps) \<longleftrightarrow> (\<exists>xs. ps = Some xs \<and> (\<forall>(f, v) \<in> set xs. int_long f \<and> int_long v))"
| "printable (D_stream_group n k g p i) \<longleftrightarrow> (\<exists>nm. g = Some (StrVal nm) \<and> length nm < 2 ^ 31)"
| "printable (D_stream_cons n k g p s) \<longleftrightarrow> (\<exists>nm. g = Some (StrVal nm) \<and> length nm < 2 ^ 31)"
| "printable _ \<longleftrightarrow> True"

text \<open>What an output has written and counted.\<close>

definition json_at :: "JsonOutput \<Rightarrow> u8 list \<times> u64 \<Rightarrow> JsonOutput" where
  "json_at s v = s\<lparr>out_bytes := fst v, d_cnt := snd v\<rparr>"

definition json_says :: "(JsonOutput, unit) prog \<Rightarrow> (u8 list \<times> u64 \<Rightarrow> u8 list \<times> u64) \<Rightarrow> bool" where
  "json_says m f \<longleftrightarrow> (\<forall>s. m s = (Ok (), json_at s (f (out_bytes s, d_cnt s))))"

lemma json_at_sel [simp]: "out_bytes (json_at s v) = fst v" "d_cnt (json_at s v) = snd v" "show_meta (json_at s v) = show_meta s"
  "json_at (json_at s v) w = json_at s w" "json_at s (out_bytes s, d_cnt s) = s"
  by (simp_all add: json_at_def)

lemma json_says_andThen: "json_says m f \<Longrightarrow> json_says m' g \<Longrightarrow> json_says (andThen m (\<lambda>_. m')) (g \<circ> f)"
  by (simp add: json_says_def andThen_def)

lemma json_says_put: "json_says (put_out t) (add_text t)"
  by (simp add: json_says_def put_out_def modify_def json_at_def)

lemma json_says_ret: "json_says (ret ()) id"
  by (simp add: json_says_def ret_def)

lemma json_says_ret_text: "json_says (ret ()) (add_text [])"
  by (simp add: json_says_def ret_def)

lemma json_says_print_s: "str_val r = Some v \<Longrightarrow> json_says (print_s G r True) (add_text (val_text G True v))"
  by (simp add: json_says_def print_s_value json_at_def)

lemma json_says_comma: "json_says comma_nl (add_item [])"
  by (simp add: json_says_def comma_nl_def run_simps put_out_def json_at_def)

lemma json_says_cong: "json_says m f \<Longrightarrow> f = g \<Longrightarrow> json_says m g"
  by simp

lemma add_simps:
  "add_text t \<circ> add_item u = add_item (u @ t)" "add_text t \<circ> add_text u = add_text (u @ t)" "add_text [] = id"
  "add_text t (add_item u v) = add_item (u @ t) v" "add_text t (add_text u v) = add_text (u @ t) v" "add_text [] v = v"
  by (cases v; simp add: fun_eq_iff)+

lemma json_meta_call:
  assumes "json_says m (add_text t)"
  shows "json_meta m s = (Ok (), json_at s (add_meta (show_meta s) t (out_bytes s, d_cnt s)))"
  using json_says_andThen [OF json_says_comma assms]
  by (simp add: json_meta_def add_meta_def run_simps json_says_def add_simps)

lemma json_elem_call:
  assumes "str_val a = Some v"
  shows "json_says (json_elem G n a) (add_text (elem_text n (val_text G True v)))"
  unfolding json_elem_def row_text_def
  using json_says_andThen [OF json_says_put json_says_print_s [OF assms]] by (simp add: add_simps)

lemma json_pair_print:
  assumes "str_val a = Some v" "str_val b = Some w"
  shows "json_says (andThen (print_s G a True) (\<lambda>_. andThen (put_out (lit '' : '')) (\<lambda>_. print_s G b True)))
    (add_text (pair_text G v w))"
  using json_says_andThen [OF json_says_print_s [OF assms(1)] json_says_andThen [OF json_says_put json_says_print_s [OF assms(2)]]]
  by (simp add: add_simps pair_text_def)

lemma json_pair_call:
  assumes "str_val a = Some v" "str_val b = Some w"
  shows "json_says (json_pair G n a b) (add_text (elem_text n (pair_text G v w)))"
  unfolding json_pair_def row_text_def
  using json_says_andThen [OF json_says_put json_pair_print [OF assms]] by (simp add: add_simps)

lemma json_start_key_call:
  assumes "str_val k = Some v" "t \<noteq> RDB_BAD_TYPE"
  shows "json_says (json_start_key G t k) (add_item (key_json G t v))"
proof -
  obtain fmt ty where f: "key_fmt t = Some (fmt, ty)" using assms(2) by (cases t) auto
  define key where "key = (case v of NoVal \<Rightarrow> [0x22] @ ty @ [0x22] | StrVal cs \<Rightarrow> val_text G True v
     | _ \<Rightarrow> [0x22] @ val_text G True v @ [0x22])"
  have "json_says (if coding k \<noteq> RDB_NO_VAL then
         andThen (if coding k \<noteq> RDB_STR_VAL then put_out [0x22] else ret ()) (\<lambda>_.
         andThen (print_s G k True) (\<lambda>_.
         if coding k \<noteq> RDB_STR_VAL then put_out [0x22] else ret ()))
       else put_out ([0x22] @ ty @ [0x22])) (add_text key)"
  proof (cases "coding k")
    case RDB_NO_VAL
    then show ?thesis using assms(1) json_says_put by (simp add: str_val_def key_def)
  next
    case RDB_STR_VAL
    then have "key = val_text G True v" using assms(1) by (auto simp: str_val_def key_def)
    with RDB_STR_VAL json_says_andThen [OF json_says_ret json_says_andThen [OF json_says_print_s [OF assms(1)] json_says_ret]]
    show ?thesis by simp
  qed (use assms(1) json_says_andThen [OF json_says_put [of "[0x22]"]
      json_says_andThen [OF json_says_print_s [OF assms(1), of G] json_says_put [of "[0x22]"]]] in
      \<open>auto simp: str_val_def key_def add_simps\<close>)
  from json_says_andThen [OF json_says_comma json_says_andThen [OF this json_says_put [of fmt]]]
  show ?thesis by (simp add: json_start_key_def f add_simps key_json_def key_def)
qed

text \<open>A call of the decoder, as an item, a text or nothing.\<close>

text \<open>Strings that are printed with a length.\<close>

lemma sint_small: "sint w = int (unat w)" if "unat w < 2 ^ 31" for w :: u32
proof -
  have "uint w < 2 ^ 31" using that by (simp add: nat_less_iff flip: nat_uint_eq)
  moreover have "- (2 ^ 31) \<le> uint w" by (rule order_trans [OF _ unsigned_greater_eq]) simp
  ultimately have "signed_take_bit 31 (uint w) = uint w" by (intro signed_take_bit_int_eq_self)
  then show ?thesis by (simp add: sint_uint)
qed

lemma fmt_s_value:
  assumes "str_val r = Some (StrVal cs)" "length cs < 2 ^ 31"
  shows "fmt_s r = Some (c_text cs)"
proof -
  have c: "rdn (pmem (str_s r)) (ppos (str_s r)) (unat (str_u r)) = Some cs"
    using assms(1) by (cases "coding r") (auto simp: str_val_def)
  let ?bs = "drop (ppos (str_s r)) (pmem (str_s r))"
  have u: "unat (str_u r) = length cs" using rdn_length [OF c] by simp
  have cs: "take (length cs) ?bs = cs" "length cs \<le> length ?bs"
    using c u by (auto simp: rdn_Some)
  have "sint (ucast (str_u r) :: u32) = int (length cs)"
    using assms(2) u by (subst sint_small) (simp_all add: unsigned_ucast_eq take_bit_nat_eq_self)
  moreover have "takeWhile (\<lambda>c. c \<noteq> 0) ?bs = c_text cs" if "0 \<in> set cs"
  proof -
    have "?bs = cs @ drop (length cs) ?bs" using cs(1) append_take_drop_id by metis
    then show ?thesis using that takeWhile_append1 [of 0 cs "\<lambda>c. c \<noteq> 0"] unfolding c_text_def by metis
  qed
  moreover have "c_text cs = cs" if "0 \<notin> set cs"
    using that by (auto simp: c_text_def takeWhile_eq_all_conv)
  ultimately show ?thesis
    using cs by (auto simp: fmt_s_def Let_def)
qed

lemma int_long_coding:
  assumes "int_long (str_val r)"
  obtains (str) cs where "coding r = RDB_STR_VAL" "str_val r = Some (StrVal cs)" "fmt_s r = Some (c_text cs)"
  | (int) "coding r = RDB_INT_VAL" "str_val r = Some (IntVal (str_u r))"
proof (cases "coding r")
  case RDB_STR_VAL
  then obtain cs where "str_val r = Some (StrVal cs)" using assms by (cases "str_val r") (auto simp: str_val_def)
  with RDB_STR_VAL assms show ?thesis using str fmt_s_value by simp
qed (use assms int in \<open>auto simp: str_val_def\<close>)

lemma json_field_call:
  assumes "int_long (str_val f)" "int_long (str_val v)"
  shows "json_says (json_field (f, v)) (add_text (field_text (str_val f, str_val v)))"
proof -
  have f: "json_says (if coding f = RDB_STR_VAL then andThen (checked (fmt_s f)) (\<lambda>cs. put_out (lit ''\"'' @ cs @ lit ''\" : ''))
       else put_out (lit ''\"'' @ fmt_d (str_u f) @ lit ''\" : '')) (add_text (name_text (str_val f) @ lit '' : ''))"
    using assms(1) json_says_put by (cases rule: int_long_coding) (auto simp: andThen_checked lit_def)
  have v: "json_says (if coding v = RDB_STR_VAL then andThen (checked (fmt_s v)) (\<lambda>cs. put_out (lit ''\"'' @ cs @ lit ''\"''))
       else put_out (fmt_d (str_u v))) (add_text (item_text (str_val v)))"
    using assms(2) json_says_put by (cases rule: int_long_coding) (auto simp: andThen_checked)
  from json_says_andThen [OF f v] show ?thesis
    by (simp add: json_field_def field_text_def add_simps)
qed

lemma json_fields_call:
  assumes "\<forall>(f, v) \<in> set ps. int_long (str_val f) \<and> int_long (str_val v)"
  shows "json_says (json_fields i ps) (add_text ((if i > 0 \<and> ps \<noteq> [] then lit '', '' else [])
    @ joined_by (lit '', '') (map (\<lambda>(f, v). field_text (str_val f, str_val v)) ps)))"
  using assms
proof (induction ps arbitrary: i)
  case Nil
  then show ?case using json_says_ret_text by simp
next
  case (Cons p ps)
  obtain f v where p: "p = (f, v)" by (cases p)
  have s: "json_says (if i > 0 then put_out (lit '', '') else ret ()) (add_text (if i > 0 then lit '', '' else []))"
    using json_says_put json_says_ret_text by simp
  have "json_says (json_field p) (add_text (field_text (str_val f, str_val v)))"
    using Cons.prems json_field_call by (simp add: p)
  from json_says_andThen [OF s json_says_andThen [OF this Cons.IH [of "Suc i"]]] Cons.prems show ?case
    by (auto simp: p add_simps joined_Cons)
qed

lemma json_entry_call:
  assumes "\<forall>(f, v) \<in> set qs. int_long (str_val f) \<and> int_long (str_val v)"
  shows "json_says (json_stream_entry n i d (Some qs)) (add_text (row_text 2 n (entry_text i d (map (\<lambda>(f, v). (str_val f, str_val v)) qs))))"
  unfolding json_stream_entry_def andThen_checked
  by (rule json_says_cong [OF json_says_andThen [OF json_says_put json_says_andThen [OF json_fields_call [OF assms, of 0] json_says_put]]])
    (simp add: add_simps entry_text_def row_text_def comp_def split_def)

lemma json_name_call:
  assumes "str_val g = Some (StrVal nm)" "length nm < 2 ^ 31" "\<And>cs. t cs = f cs"
  shows "json_says (andThen (checked (fmt_s g)) (\<lambda>cs. put_out (t cs))) (add_text (f (c_text nm)))"
  using json_says_put by (simp add: fmt_s_value [OF assms(1,2)] andThen_checked assms(3))

lemma json_call_adds:
  assumes "ev_safe e" "printable (ev_val e)"
  shows "json_call G e s = (Ok (), json_at s (add_call G (show_meta s) (ev_val e) (out_bytes s, d_cnt s)))"
proof (cases e)
  case (D_aux a b)
  with assms(1) obtain v w where "str_val a = Some v" "str_val b = Some w" by (auto simp: ev_safe_def)
  with D_aux json_meta_call [OF json_pair_print] show ?thesis by auto
next
  case (D_start_key t k)
  with assms(1) obtain v where "str_val k = Some v" by (auto simp: ev_safe_def)
  then show ?thesis
    using D_start_key json_start_key_call [of k v t G] json_says_ret
    by (cases "t = RDB_BAD_TYPE") (auto simp: json_says_def json_start_key_def)
next
  case (D_hash n c a b)
  with assms(1) obtain v w where "str_val a = Some v" "str_val b = Some w" by (auto simp: ev_safe_def)
  with D_hash json_pair_call [of a v b w G n] show ?thesis by (auto simp: json_says_def)
next
  case (D_zset n c a b)
  with assms(1) obtain v w where "str_val a = Some v" "str_val b = Some w" by (auto simp: ev_safe_def)
  with D_zset json_pair_call [of a v b w G n] show ?thesis by (auto simp: json_says_def)
next
  case (D_list n c a)
  with assms(1) obtain v where "str_val a = Some v" by (auto simp: ev_safe_def)
  with D_list json_elem_call [of a v G n] show ?thesis by (auto simp: json_says_def)
next
  case (D_set n c a)
  with assms(1) obtain v where "str_val a = Some v" by (auto simp: ev_safe_def)
  with D_set json_elem_call [of a v G n] show ?thesis by (auto simp: json_says_def)
next
  case (D_string a)
  with assms(1) obtain v where "str_val a = Some v" by (auto simp: ev_safe_def)
  with D_string json_says_print_s [of a v G] show ?thesis by (auto simp: json_says_def)
next
  case (D_module a)
  with assms(1) obtain v where "str_val a = Some v" by (auto simp: ev_safe_def)
  with D_module json_says_print_s [of a v G] show ?thesis by (auto simp: json_says_def)
next
  case (D_end_key t)
  with json_says_put show ?thesis by (auto simp: json_says_def)
next
  case (D_stream_entry n i d ps)
  with assms(2) obtain qs where "ps = Some qs" "\<forall>(f, v) \<in> set qs. int_long (str_val f) \<and> int_long (str_val v)"
    by (cases ps) (auto simp: map_prod_def split_def)
  with D_stream_entry json_entry_call [of qs n i d] show ?thesis by (simp add: json_says_def map_prod_def)
next
  case (D_stream_group n k g p i)
  with assms(2) obtain nm where "str_val g = Some (StrVal nm)" "length nm < 2 ^ 31" by auto
  with D_stream_group json_name_call [OF this refl] show ?thesis
    by (simp add: json_says_def json_stream_group_def row_text_def group_text_def lit_def)
next
  case (D_stream_cons n k g p s')
  with assms(2) obtain nm where "str_val g = Some (StrVal nm)" "length nm < 2 ^ 31" by auto
  with D_stream_cons json_name_call [OF this refl] show ?thesis
    by (simp add: json_says_def json_stream_cons_def row_text_def cons_text_def lit_def)
qed (use assms(2) json_meta_call [OF json_says_put] json_says_put in \<open>auto simp: run_ret json_says_def json_stream_info_def info_text_def
  json_stream_pend_def json_stream_cons_pend_def row_text_def pend_text_def cons_pend_text_def lit_def\<close>)

lemma json_calls_add:
  assumes "\<forall>e \<in> set es. ev_safe e \<and> printable (ev_val e)"
  shows "calls (json_call G) es s
    = (Ok (), json_at s (fold (add_call G (show_meta s)) (map ev_val es) (out_bytes s, d_cnt s)))"
  using assms
proof (induction es arbitrary: s)
  case (Cons e es)
  define s1 where "s1 = json_at s (add_call G (show_meta s) (ev_val e) (out_bytes s, d_cnt s))"
  have "json_call G e s = (Ok (), s1)" using json_call_adds Cons.prems by (simp add: s1_def)
  with Cons.IH [of s1] Cons.prems show ?case
    by (simp add: andThen_Ok [where m = "json_call G e" and s = s]) (simp add: s1_def)
qed (simp add: run_ret)

section \<open>The calls of a record\<close>

lemma add_numbered:
  assumes "\<And>n x. add_call G sm (ev n x) = add_text (elem_text n (f x))"
  shows "fold (add_call G sm) (numbered ev n xs) v = add_text (concat (numbered (\<lambda>n x. elem_text n (f x)) n xs)) v"
  by (induction xs arbitrary: n v) (simp_all add: assms add_simps)

lemma add_quick: "fold (add_call G sm) (quick_calls n vss) v = add_text (quick_json G n vss) v"
proof (induction vss arbitrary: n v)
  case (Cons vs vss)
  have "fold (add_call G sm) (numbered (\<lambda>n v. D_list n 0 (Some v)) n vs) v
      = add_text (concat (numbered (\<lambda>n x. elem_text n (val_text G True x)) n vs)) v"
    by (rule add_numbered) simp
  with Cons show ?case by (simp add: add_simps joined_numbered elems_json_def)
qed (simp add: add_simps)

text \<open>Streams.\<close>

lemma add_stream_event: "stream_event e \<Longrightarrow> add_call G sm e = add_text (stream_text e)"
  by (cases e) auto

lemma add_stream_events:
  "\<forall>e \<in> set es. stream_event e \<Longrightarrow> fold (add_call G sm) es v = add_text (concat (map stream_text es)) v"
  by (induction es arbitrary: v) (simp_all add: add_stream_event add_simps)

lemma text_numbered:
  assumes "\<And>n x. x \<in> set xs \<Longrightarrow> concat (map stream_text (evs n x)) = row_text k n (f x)"
  shows "concat (map stream_text (concat (numbered evs n xs)))
    = (if n \<noteq> 0 \<and> xs \<noteq> [] then comma_line else []) @ joined (map (row_text k 0) (map f xs))"
proof -
  have "concat (map stream_text (concat (numbered evs n xs))) = concat (numbered (\<lambda>n x. row_text k n (f x)) n xs)"
    using assms by (induction xs arbitrary: n) simp_all
  then show ?thesis by (simp add: joined_numbered comp_def)
qed

lemma numbered_single: "numbered ev n xs = concat (numbered (\<lambda>n x. [ev n x]) n xs)"
  by (induction xs arbitrary: n) simp_all

lemma text_part:
  assumes "concat (map stream_text es) = joined (map (row_text k 0) (map f xs))"
  shows "concat (map stream_text (in_part p xs es)) = part_json p k (map f xs)"
  using assms by (simp add: in_part_def part_json_def)

lemma text_part_numbered:
  assumes "\<And>n x. stream_text (ev n x) = row_text k n (f x)"
  shows "concat (map stream_text (in_part p xs (numbered ev 0 xs))) = part_json p k (map f xs)"
  by (rule text_part, subst numbered_single) (simp add: text_numbered [where k = k and f = f] assms)

lemma text_part_concat:
  assumes "\<And>n x. concat (map stream_text (evs n x)) = row_text k n (f x)"
  shows "concat (map stream_text (in_part p xs (concat (numbered evs 0 xs)))) = part_json p k (map f xs)"
  by (rule text_part) (simp add: text_numbered [where k = k and f = f] assms)

lemma row_text_append: "row_text k n (t @ u) = row_text k n t @ u"
  by (simp add: row_text_def)

lemma text_consumer: "concat (map stream_text (consumer_calls cnt n c)) = row_text 4 n (consumer_json c)"
  unfolding consumer_calls_def consumer_json_def
  by (simp add: text_part_numbered [where k = 5 and f = cons_pend_text] row_text_append)

lemma text_group: "concat (map stream_text (group_calls cnt n g)) = row_text 2 n (group_json g)"
  unfolding group_calls_def group_json_def pending_calls_def
  by (simp add: text_part_numbered [where k = 4 and f = "\<lambda>p. pend_text (pe_id p) (pe_last p) (pe_deliv p)"]
      text_part_concat [where k = 4 and f = consumer_json, OF text_consumer] row_text_append)

lemma text_stream: "concat (map stream_text (stream_calls st)) = stream_json st"
proof -
  have "stream_text (case x of (nd, it) \<Rightarrow> entry_call n nd it) = row_text 2 n (entry_json x)" for n x
    by (cases x) (simp add: entry_call_def entry_json_def)
  then show ?thesis
    unfolding stream_calls_def stream_json_def
    by (simp add: text_part_numbered [where k = 2 and f = entry_json] text_part_concat [where k = 2 and f = group_json, OF text_group])
qed

lemma add_obj: "fold (add_call G sm) (obj_calls ob) v = add_text (obj_json G ob) v"
proof -
  have e: "fold (add_call G sm) (numbered ev 0 xs) v = add_text (elems_json G (map f xs)) v"
    if "\<And>n x. add_call G sm (ev n x) = add_text (elem_text n (val_text G True (f x)))" for ev xs and f :: "'x \<Rightarrow> rdb_val"
    using add_numbered [of G sm ev "\<lambda>x. val_text G True (f x)" 0 xs v] that
    by (simp add: joined_numbered elems_json_def comp_def)
  have p: "fold (add_call G sm) (numbered ev 0 xs) v = add_text (pairs_json G (map (\<lambda>(a, b). (f a, g b)) xs)) v"
    if "\<And>n a b. add_call G sm (ev n (a, b)) = add_text (elem_text n (pair_text G (f a) (g b)))" for ev xs
      and f :: "'x \<Rightarrow> rdb_val" and g :: "'y \<Rightarrow> rdb_val"
    using add_numbered [of G sm ev "\<lambda>(a, b). pair_text G (f a) (g b)" 0 xs v] that
    by (simp add: joined_numbered pairs_json_def comp_def split_def split_paired_all)
  show ?thesis
  proof (cases ob)
    case (ObModule m bs)
    obtain w where "str_val (module_str m) = Some w" using module_str_readable by blast
    then show ?thesis by (simp add: ObModule)
  next
    case (ObZipmap es)
    then show ?thesis
      using add_numbered [of G sm "\<lambda>n (f, v, pad). D_hash n (zm_num es) (Some (StrVal f)) (Some (StrVal v))"
        "\<lambda>(f, v, pad). pair_text G (StrVal f) (StrVal v)" 0 es v]
      by (simp add: joined_numbered pairs_json_def comp_def split_def split_paired_all)
  next
    case (ObStream st)
    then show ?thesis by (simp add: add_stream_events stream_calls_event text_stream)
  qed (auto simp: add_quick intro!: e p)
qed

lemma add_rec: "fold (add_call G sm) (rec_calls off r) v = fold add_item (rec_json G sm r) v"
proof (cases r)
  case (fields ms k ob)
  have m: "fold (add_call G sm) (map meta_call ms) v = fold add_item (if sm then map (meta_json G) ms else []) v" for v
  proof (induction ms arbitrary: v)
    case (Cons m ms)
    have "add_call G sm (meta_call m) v = (if sm then add_item (meta_json G m) v else v)"
      by (cases m) (auto simp: add_meta_def)
    with Cons show ?case by auto
  qed simp
  have "obj_type ob \<noteq> RDB_BAD_TYPE" by (rule obj_type_not_bad)
  with m show ?thesis by (simp add: fields body_calls_def add_obj add_simps)
qed

text \<open>Items added one after the other are separated.\<close>

lemma add_items:
  assumes "length its < 2 ^ 64"
  shows "fst (fold add_item its (t, 0)) = t @ joined its"
proof -
  have "fold add_item its (t, word_of_nat n) = (t @ (if n \<noteq> 0 \<and> its \<noteq> [] then comma_line else []) @ joined its, word_of_nat (n + length its))"
    if "n + length its < 2 ^ 64" for t n
    using that
  proof (induction its arbitrary: t n)
    case (Cons i its)
    have "(word_of_nat n :: u64) = 0 \<longleftrightarrow> n = 0" using Cons.prems by (simp add: word_unat_eq_iff unat_of_nat)
    moreover have "word_of_nat n + 1 = (word_of_nat (Suc n) :: u64)" by simp
    ultimately show ?case using Cons.IH [of "Suc n"] Cons.prems
      by (simp add: joined_Cons del: of_nat_Suc) 
  qed simp
  from this [of 0] assms show ?thesis by simp
qed

section \<open>The output of the program\<close>

fun json_view :: "main_out \<Rightarrow> u8 list \<times> u64" where
  "json_view (Json w) = (out_bytes w, d_cnt w)"
| "json_view _ = ([], 0)"

definition is_json :: "bool \<Rightarrow> main_out \<Rightarrow> bool" where
  "is_json sm w \<longleftrightarrow> (\<exists>o1. w = Json o1 \<and> show_meta o1 = sm)"

text \<open>The names of groups and consumers are shorter than the largest \<open>int\<close>.\<close>

definition short_names :: "rdb_rec \<Rightarrow> bool" where
  "short_names = (\<lambda>(ms, k, ob). case ob of
       ObStream st \<Rightarrow> (\<forall>g \<in> set (st_groups st). length (gr_name g) < 2 ^ 31 \<and> (\<forall>c \<in> set (gr_consumers g). length (co_name c) < 2 ^ 31))
     | _ \<Rightarrow> True)"

lemma entry_printable:
  assumes "node_ok nd" "it \<in> set (nd_items nd)"
  shows "printable (entry_call n nd it)"
proof -
  have "int_long (Some (lp_item_val i))" if "lp_item_ok i" for i using that by (cases i) auto
  with node_pairs_ok [OF assms] show ?thesis by (auto simp: entry_call_def)
qed

lemma rec_calls_printable:
  assumes r: "rec_ok r" "short_names r" and e: "e \<in> set (rec_calls off r)"
  shows "printable e"
proof (cases r)
  case (fields ms k ob)
  have "printable (meta_call m)" for m by (cases m) auto
  moreover have "printable e" if "e \<in> set (obj_calls ob)" for e
  proof (cases ob)
    case (ObStream st)
    with r fields have ok: "\<And>nd. nd \<in> set (st_nodes st) \<Longrightarrow> node_ok nd" "\<And>g. g \<in> set (st_groups st) \<Longrightarrow> length (gr_name g) < 2 ^ 31"
      "\<And>g c. g \<in> set (st_groups st) \<Longrightarrow> c \<in> set (gr_consumers g) \<Longrightarrow> length (co_name c) < 2 ^ 31"
      by (auto simp: short_names_def stream_ok_def)
    from that ObStream have "e \<in> set (stream_calls st)" by simp
    then show ?thesis by (rule stream_calls_all) (simp_all add: entry_printable ok [simplified])
  qed (use that in \<open>auto dest!: set_numbered set_quick_calls\<close>)
  ultimately show ?thesis
    using e fields by (auto simp: body_calls_def)
qed

interpretation json: record_output E K G "is_json sm" json_view lim True short_names "\<lambda>r v. fold add_item (rec_json G sm r) v" for E K G sm lim
proof
  fix w r bs off d and es :: "RdbString RdbEvent list"
  assume w: "is_json sm w" and ok: "rec_ok r" "short_names r" and r: "rec_done K bs off r d" and es: "map ev_val es = rec_calls off r"
  obtain o1 where o1: "w = Json o1" "show_meta o1 = sm" using w by (auto simp: is_json_def)
  have "ev_safe e \<and> printable (ev_val e)" if e: "e \<in> set es" for e
  proof -
    have "ev_val e \<in> set (rec_calls off r)" using e es by (metis image_eqI set_map)
    with rec_calls_printable [OF ok] rec_calls_safe [OF es] e show ?thesis by blast
  qed
  with json_calls_add [of es G o1] have "calls (json_call G) es o1 = (Ok (), json_at o1 (fold add_item (rec_json G sm r) (json_view w)))"
    by (simp add: es add_rec o1)
  moreover have "tab \<in> {jones_tab_zero, jones_crc64_init}" if "tab = dec_tab d" for tab
    using r that by (cases r) (auto simp: rec_done_def at_pos_def)
  ultimately show "\<exists>w1 w2 tab. output_calls G es w = Some w1 \<and> after_record d w1 = Some (d\<lparr>dec_tab := tab\<rparr>, w2)
        \<and> tab \<in> {jones_tab_zero, jones_crc64_init} \<and> is_json sm w2 \<and> json_view w2 = fold add_item (rec_json G sm r) (json_view w)"
    by (auto simp: o1 after_record_def is_json_def intro!: exI [of _ "dec_tab d"])
next
  fix w assume "is_json sm w"
  then show "output_calls G [] w = Some w" by (auto simp: is_json_def run_ret)
qed

lemma length_rec_json: "length (rec_json G sm r) \<le> length (rec_bytes K r)"
proof (cases r)
  case (fields ms k ob)
  have 1: "1 \<le> length (meta_bytes m)" for m by (cases m) auto
  have "length ms \<le> length (concat (map meta_bytes ms))"
  proof (induction ms)
    case (Cons m ms)
    from add_mono [OF 1 [of m] this] show ?case by simp
  qed simp
  then show ?thesis by (simp add: fields)
qed

lemma length_items: "length (concat (map (rec_json G sm) rs)) \<le> length (file_bytes K v rs ys)"
proof -
  have "length (concat (map (rec_json G sm) rs)) \<le> length (concat (map (rec_bytes K) rs))"
    by (induction rs) (auto intro: add_mono length_rec_json)
  then show ?thesis by (simp add: file_bytes_def)
qed

lemma fold_concat: "fold (\<lambda>r v. fold f (g r) v) rs v = fold f (concat (map g rs)) v"
  by (induction rs arbitrary: v) auto

text \<open>What \<open>rdbparser\<close> prints for a file, with or without \<open>-m\<close>, with strings
  compressed where \<open>rec_bytes\<close> admits it: the JSON document of the file. It is one object with an item for every record, and for every meta data in front of it
  when they are shown, in the order of the file; an item has the key and the text of the object,
  items have commas between them, and elements but for quicklists (\<open>quick_json_commas\<close>), and the exit code is 0. The file is in the buffer, or
  it is longer than the buffer, read from the standard input in pieces, and has no record of half the buffer or more.\<close>

theorem json_prints_document:
  assumes "0 < v" "v < 100" "\<forall>r \<in> set rs. rec_ok r \<and> short_names r" "compresses E K"
    and "loaded i (file_bytes K v rs ys)" "input_eof i \<or> roomy K i rs" "length (file_bytes K v rs ys) < 2 ^ 64"
    and "main_start P a i = Some s" "ma_glob a = None" "ma_list a = None" "ma_restore a = None"
  shows "\<exists>t w. main_runs E G s 0 t \<and> m_out t = Json w \<and> out_bytes w = file_json G (ma_meta a \<noteq> None) rs"
proof -
  let ?sm = "ma_meta a \<noteq> None"
  have out: "m_out s = Json (json_at (JsonOutput_new\<lparr>show_meta := ?sm\<rparr>) (lit ''{'' @ [0x0a], 0))"
    using main_start_decoder(2) [OF assms(8,9)] assms(10,11)
    by (simp add: main_output_def out_init_def json_init_def put_out_def modify_def JsonOutput_new_def json_at_def)
  have "\<exists>t w. main_runs E G s 0 t \<and> m_out t = out_finish True w \<and> is_json ?sm w
      \<and> json_view w = fold (\<lambda>r v. fold add_item (rec_json G ?sm r) v) rs (json_view (m_out s))"
    by (rule json.file_runs [OF assms(4,1,2), where a = 0 and ys = ys and lim = "Suc (length (input_bytes i))"])
      (use assms(3,5,6) main_start_decoder(1,3) [OF assms(8,9)] out in \<open>auto simp: is_json_def JsonOutput_new_def\<close>)
  then obtain t o1 where t: "main_runs E G s 0 t" "m_out t = out_finish True (Json o1)"
    "(out_bytes o1, d_cnt o1) = fold add_item (concat (map (rec_json G ?sm) rs)) (lit ''{'' @ [0x0a], 0)"
    by (auto simp: fold_concat out is_json_def)
  have "length (concat (map (rec_json G ?sm) rs)) < 2 ^ 64"
    using length_items [of G ?sm rs K v ys] assms(7) by linarith
  from add_items [OF this] t(3) have "out_bytes o1 = lit ''{'' @ [0x0a] @ joined (concat (map (rec_json G ?sm) rs))"
    by (metis append_assoc fst_conv)
  with t show ?thesis
    by (auto simp: out_finish_def json_finish_def put_out_def modify_def file_json_def)
qed

lemma concat_replicate_one: "concat (replicate n [x]) = replicate n x"
  by (induction n) simp_all

text \<open>The items of the forty small records.\<close>

definition small_text :: "u8 list" where
  "small_text = lit ''\"a\" : \"'' @ replicate 30 0x66 @ lit ''\"''"

theorem json_prints_document_witness:
  "\<exists>G P i s t w. fill_buf_stdin run_env \<lparr>input_bytes = [], input_buf_size = 64, input_eof = True,
      std_in = file_bytes run_packer 9 (replicate 40 small_rec) []\<rparr> = Some i \<and> \<not> input_eof i
    \<and> main_start P (main_get_args [''rdbparser'']) i = Some s
    \<and> main_runs run_env G s 0 t \<and> m_out t = Json w
    \<and> out_bytes w = lit ''{'' @ [0x0a] @ joined (replicate 40 small_text) @ [0x0a] @ lit ''}'' @ [0x0a]"
proof -
  let ?a = "main_get_args [''rdbparser'']"
  obtain i where i: "fill_buf_stdin run_env \<lparr>input_bytes = [], input_buf_size = 64, input_eof = True,
      std_in = file_bytes run_packer 9 (replicate 40 small_rec) []\<rparr> = Some i" "\<not> input_eof i"
    "loaded i (file_bytes run_packer 9 (replicate 40 small_rec) [])" "roomy run_packer i (replicate 40 small_rec)"
    by (rule small_file)
  have a: "ma_glob ?a = None" "ma_list ?a = None" "ma_restore ?a = None" "ma_meta ?a = None"
    by (simp_all add: main_get_args_def get_arg_def get_arg_from.simps)
  obtain s where s: "main_start P ?a i = Some s" for P
    using a by (simp add: main_start_def main_filter_def)
  have ok: "\<forall>r \<in> set (replicate 40 small_rec). rec_ok r \<and> short_names r" by (simp add: small_rec_def short_names_def)
  have "rec_json G False small_rec = [small_text]" for G
    by (simp add: small_rec_def small_text_def key_json_def quote_def print_char_def lit_def concat_replicate_one)
  then have doc: "file_json G False (replicate 40 small_rec) = lit ''{'' @ [0x0a] @ joined (replicate 40 small_text) @ [0x0a] @ lit ''}'' @ [0x0a]" for G
    by (simp add: file_json_def concat_replicate_one)
  have len: "length (file_bytes run_packer 9 (replicate 40 small_rec) []) < 2 ^ 64"
    using small_size(1) by (simp add: file_bytes_def length_concat sum_list_replicate rdb_magic_def)
  from json_prints_document [OF _ _ ok run_compresses i(3) _ len s a(1-3)] i s doc show ?thesis
    by (fastforce simp: a(4))
qed

section \<open>Quicklists\<close>

text \<open>The text of a quicklist is the list of its elements, with commas, exactly when its first list has at
  least two elements or is the only one. Otherwise commas are missing, since the elements of all the
  one element lists at the start have the number 0.\<close>

lemma quick_json_commas:
  assumes "\<forall>ds \<in> set dss. ds \<noteq> []" "dss \<noteq> []"
  shows "obj_json G (ObQuicklist dss) = elems_json G (map StrVal (concat dss)) \<longleftrightarrow> length dss = 1 \<or> 2 \<le> length (hd dss)"
proof -
  have E: "elems_json G (xs @ ys) = elems_json G xs @ (if xs \<noteq> [] \<and> ys \<noteq> [] then comma_line else []) @ elems_json G ys" for xs ys
    by (simp add: elems_json_def joined_append)
  have pos: "quick_json G n vss = (if vss = [] then [] else comma_line @ elems_json G (concat vss))"
    if "0 < n" "\<forall>vs \<in> set vss. vs \<noteq> []" for n vss
    using that by (induction vss arbitrary: n) (auto simp: E concat_eq_Nil_conv, simp add: elems_json_def)
  have short: "length (quick_json G 0 vss) \<le> length (elems_json G (concat vss))" if "\<forall>vs \<in> set vss. vs \<noteq> []" for vss
    using that
  proof (induction vss)
    case (Cons vs vss)
    show ?case
    proof (cases "length vs - 1 = 0")
      case True
      with Cons show ?thesis by (auto simp: E)
    next
      case False
      with Cons.prems pos [of "length vs - 1" vss] show ?thesis by (auto simp: E concat_eq_Nil_conv)
    qed
  qed simp
  obtain ds dss' where d: "dss = ds # dss'" using assms(2) by (cases dss) auto
  let ?vss = "map (map StrVal) dss'"
  have ne: "\<forall>vs \<in> set ?vss. vs \<noteq> []" "ds \<noteq> []" using assms(1) by (auto simp: d)
  have c: "map StrVal (concat dss) = map StrVal ds @ concat ?vss" by (simp add: d map_concat)
  show ?thesis
  proof (cases "length ds - 1 = 0")
    case True
    then have one: "length ds = 1" using ne(2) by (cases ds) auto
    show ?thesis
    proof (cases "dss' = []")
      case False
      then have "concat ?vss \<noteq> []" using ne(1) by (cases dss') auto
      then have "length (obj_json G (ObQuicklist dss)) < length (elems_json G (map StrVal (concat dss)))"
        using short [OF ne(1)] ne(2) True by (simp only: c E) (simp add: d comma_line_def)
      then have "obj_json G (ObQuicklist dss) \<noteq> elems_json G (map StrVal (concat dss))" by (metis less_irrefl)
      then show ?thesis using False one d by simp
    qed (simp add: d)
  next
    case False
    then have "2 \<le> length ds" by simp
    then show ?thesis using pos [of "length ds - 1" ?vss] ne False
      by (simp only: c E) (auto simp: d elems_json_def)
  qed
qed

end
