(* ===== verification/Rdb_Program.thy ===== *)
theory Rdb_Program
  imports Rdb_Reload Rdb_Document Rdb_Ends
begin

text \<open>
  The program as a whole: for its arguments, the files and the standard input, its exit code and all it writes on
  the standard output.
\<close>

section \<open>The input\<close>

text \<open>
  The bytes come from a file, or from the standard input; then there is the size of a record that the
  buffer must have room for twice.
\<close>

definition given :: "packer \<Rightarrow> (string \<Rightarrow> u8 list option) \<Rightarrow> main_args \<Rightarrow> u8 list \<Rightarrow> u8 list \<Rightarrow> rdb_rec list \<Rightarrow> bool" where
  "given K files a std bs rs \<longleftrightarrow> (case ma_fn a of
       Some fn \<Rightarrow> files fn = Some bs
     | None \<Rightarrow> std = bs \<and> (\<forall>r \<in> set rs. length (rec_bytes K r) < 5 * 1024 * 1024))"

lemma main_input_given:
  assumes "given K files a std (file_bytes K v rs ys) rs"
  obtains i where "main_input E files a std = Some i" "loaded i (file_bytes K v rs ys)" "input_eof i \<or> roomy K i rs"
    "length (input_bytes i) \<le> length (file_bytes K v rs ys)" "ma_fn a \<noteq> None \<or> length (file_bytes K v rs ys) < big_buf_size \<Longrightarrow> input_eof i"
proof (cases "ma_fn a")
  case (Some fn)
  moreover have "file_bytes K v rs ys \<noteq> []" by (simp add: file_bytes_def)
  ultimately show ?thesis using assms by (auto simp: given_def main_input_def loaded_def intro: that)
next
  case None
  obtain i where i: "fill_buf_stdin E \<lparr>input_bytes = [], input_buf_size = big_buf_size, input_eof = True, std_in = file_bytes K v rs ys\<rparr> = Some i"
    "loaded i (file_bytes K v rs ys)" "input_buf_size i = big_buf_size" "length (input_bytes i) \<le> big_buf_size"
    by (rule stdin_loaded [of big_buf_size]) (simp add: big_buf_size_def)
  have "length (input_bytes i) \<le> length (file_bytes K v rs ys)" using i(2) by (auto simp: loaded_def split: if_splits dest: arg_cong [where f = length])
  moreover have "roomy K i rs" using assms None i(3) by (auto simp: given_def roomy_def big_buf_size_def)
  moreover have "length (file_bytes K v rs ys) < big_buf_size \<Longrightarrow> input_eof i"
    using i(2,3) by (auto simp: loaded_def split: if_splits dest: arg_cong [where f = length])
  ultimately show ?thesis
    using assms None i by (intro that) (auto simp: given_def main_input_def)
qed

text \<open>Without a pattern the program gets to its loop.\<close>

lemma setup_begins:
  assumes "ma_help (main_get_args argv) = None" "ma_glob (main_get_args argv) = None" "main_input E files (main_get_args argv) std = Some i"
  obtains s where "main_setup P E files argv std = Begin s" "main_start P (main_get_args argv) i = Some s"
  using assms by (simp add: main_setup_def main_start_def main_filter_def)

section \<open>The outcome\<close>

lemma main_round_code:
  assumes "main_round E G s = Some (Exit c t)"
  shows "c \<le> 1"
proof -
  obtain r d where "andThen (decode_hdr E) (\<lambda>_. decode_body E) (m_dec s) = (r, d)" by (cases "andThen (decode_hdr E) (\<lambda>_. decode_body E) (m_dec s)")
  with assms show ?thesis
    by (cases r) (auto simp: main_round_def bind_eq_Some_conv split: if_splits)
qed

lemma main_runs_code: "main_runs E G s c t \<Longrightarrow> c \<le> 1"
  by (induction rule: main_runs.induct) (auto intro: main_round_code simp del: One_nat_def)

text \<open>A run that got to a round without a result does not end.\<close>

lemma stuck_no_end:
  assumes "(main_step E G)\<^sup>*\<^sup>* s t" "main_round E G t = None"
  shows "\<not> main_runs E G s c u"
  using assms
proof (induction rule: converse_rtranclp_induct)
  case base
  then show ?case by (auto elim: main_runs.cases simp: main_step_iff)
next
  case (step s t')
  show ?case
  proof
    assume "main_runs E G s c u"
    then show False
      by (cases rule: main_runs.cases) (use step in \<open>auto simp: main_step_iff\<close>)
  qed
qed

lemma setup_code: "main_setup P E files argv std = Ended c out \<Longrightarrow> c \<le> 1"
  by (auto simp: main_setup_def Let_def split: if_splits option.splits)

lemma setup_start:
  assumes "main_setup P E files argv std = Begin s"
  obtains i where "main_start P (main_get_args argv) i = Some s"
  using assms by (auto simp: main_setup_def Let_def split: if_splits option.splits)

text \<open>The outcome of a program that ends before its loop, and of one that gets to it.\<close>

lemma ends_before: "main_setup P E files argv std = Ended c out \<Longrightarrow> program_ends P E G files argv std c' out' \<longleftrightarrow> c' = c \<and> out' = out"
  by (auto simp: program_ends_iff)

lemma ends_after:
  "main_setup P E files argv std = Begin s \<Longrightarrow>
    program_ends P E G files argv std c' out' \<longleftrightarrow> (\<exists>t. main_runs E G s c' t \<and> out' = main_text (m_out t))"
  by (auto simp: program_ends_iff)

text \<open>C3: Whatever the arguments, the files, the standard input, the library and the allocator, the program ends with the exit code 0 or 1,
  and both the code and the bytes on the standard output are determined by these; or it gets to a round that leaves the
  memory of the program, and has no outcome then.\<close>

theorem program_outcome:
  "(\<exists>c out. c \<le> 1 \<and> program_ends P E G files argv std = (\<lambda>c' out'. c' = c \<and> out' = out))
    \<or> (program_ends P E G files argv std = (\<lambda>c' out'. False)
       \<and> (\<exists>s t. main_setup P E files argv std = Begin s \<and> (main_step E G)\<^sup>*\<^sup>* s t \<and> main_round E G t = None))"
proof (cases "main_setup P E files argv std")
  case (Ended c out)
  then have "program_ends P E G files argv std = (\<lambda>c' out'. c' = c \<and> out' = out)" by (simp add: ends_before fun_eq_iff)
  with setup_code [OF Ended] show ?thesis by (intro disjI1 exI conjI)
next
  case (Begin s)
  obtain i where i: "main_start P (main_get_args argv) i = Some s" by (rule setup_start [OF Begin])
  obtain n t where t: "(main_step E G ^^ n) s t"
    "main_round E G t = None \<or> (\<exists>c u. main_round E G t = Some (Exit c u) \<and> main_runs E G s c u)"
    using main_ends [OF i, of E G] by (elim exE conjE)
  show ?thesis
  proof (cases "main_round E G t = None")
    case True
    have steps: "(main_step E G)\<^sup>*\<^sup>* s t" using t(1) by (rule relpowp_imp_rtranclp)
    have "program_ends P E G files argv std = (\<lambda>c' out'. False)"
      using stuck_no_end [OF steps True] by (simp add: ends_after [OF Begin] fun_eq_iff)
    with Begin steps True show ?thesis by (intro disjI2 conjI exI)
  next
    case False
    with t(2) obtain c u where u: "main_runs E G s c u" by blast
    have "program_ends P E G files argv std = (\<lambda>c' out'. c' = c \<and> out' = main_text (m_out u))"
      unfolding fun_eq_iff ends_after [OF Begin] using u main_runs_deterministic [OF u] by blast
    with main_runs_code [OF u] show ?thesis by (intro disjI1 exI conjI)
  qed
qed

section \<open>The document\<close>

lemma document_printed:
  assumes "0 < v" "v < 100" "\<forall>r \<in> set rs. rec_ok r \<and> short_names r" "compresses E K" "a = main_get_args argv"
    and "given K files a std (file_bytes K v rs ys) rs" "length (file_bytes K v rs ys) < 2 ^ 64"
    and "ma_help a = None" "ma_glob a = None" "ma_list a = None" "ma_restore a = None"
  shows "program_ends P E G files argv std 0 (file_json G (ma_meta a \<noteq> None) rs)"
proof -
  obtain i where i: "main_input E files a std = Some i" "loaded i (file_bytes K v rs ys)" "input_eof i \<or> roomy K i rs"
    using main_input_given [OF assms(6)] by blast
  obtain s where s: "main_setup P E files argv std = Begin s" "main_start P a i = Some s"
    using setup_begins assms(5,8,9) i(1) by blast
  from json_prints_document [OF assms(1-4) i(2,3) assms(7) s(2) assms(9-11)]
  show ?thesis using s(1) by (metis program_ends.after main_text.simps(1))
qed

lemma program_ends_unique:
  assumes "program_ends P E G files argv std c out" "program_ends P E G files argv std c' out'"
  shows "c = c' \<and> out = out'"
proof (cases "main_setup P E files argv std")
  case (Ended d out0)
  with assms show ?thesis by (simp add: ends_before)
next
  case (Begin s)
  with assms obtain t t' where "main_runs E G s c t" "out = main_text (m_out t)" "main_runs E G s c' t'" "out' = main_text (m_out t')"
    by (auto simp: ends_after)
  then show ?thesis using main_runs_deterministic by metis
qed

lemma joined_last: "joined_by sep (xs @ [t]) = joined_by sep (xs @ [t']) \<longleftrightarrow> t = t'"
  by (simp add: joined_append)

section \<open>Properties\<close>

text \<open>C2: The program without \<open>-l\<close>, \<open>-r\<close> and a pattern, on a file given with \<open>-f\<close> or on the standard input, ends with exit code
  0 and has printed the JSON document of the file: one item for each record (and with \<open>-m\<close> one for each piece of meta
  data), in order, with commas between the items and between the elements of an object; in quicklists commas are missing as
  \<open>quicklist_commas\<close> says; strings in streams are cut at a zero byte and not escaped, and empty parts of a stream are left out.
  A file on the standard input may be longer than the buffer, it is then read in pieces, if no record takes 5 MB. The names of groups
  and consumers are below 2 GB (\<open>short_names\<close>).

  The records are those of \<open>rec_ok\<close>, with the limits of \<open>dump_roundtrip\<close>; keys, strings, elements of lists, sets and hashes, stream ids and packed blocks
  may be compressed, members of the two older sorted set formats, names of groups and consumers, and
  auxiliary values are not.\<close>

theorem program_prints_document:
  assumes "0 < v" "v < 100" "\<forall>r \<in> set rs. rec_ok r \<and> short_names r" "compresses E K" "a = main_get_args argv"
    and "given K files a std (file_bytes K v rs ys) rs" "length (file_bytes K v rs ys) < 2 ^ 64"
    and "ma_help a = None" "ma_glob a = None" "ma_list a = None" "ma_restore a = None"
  shows "program_ends P E G files argv std 0 (file_json G (ma_meta a \<noteq> None) rs)"
  using assms by (rule document_printed)

theorem program_prints_document_witness:
  "\<exists>n. big_buf_size < length (file_bytes run_packer 9 (replicate n small_rec) []) \<and>
    (\<forall>P G files. program_ends P run_env G files [''rdbparser''] (file_bytes run_packer 9 (replicate n small_rec) []) 0
     (lit ''{'' @ [0x0a] @ joined (replicate n small_text) @ [0x0a] @ lit ''}'' @ [0x0a]))"
proof -
  obtain n :: nat where n: "n = 4000000" by blast
  let ?rs = "replicate n small_rec" and ?a = "main_get_args [''rdbparser'']"
  let ?bs = "file_bytes run_packer 9 ?rs []"
  have a: "ma_help ?a = None" "ma_glob ?a = None" "ma_list ?a = None" "ma_restore ?a = None" "ma_meta ?a = None" "ma_fn ?a = None"
    by (simp_all add: main_get_args_def get_arg_def get_arg_from.simps)
  have ok: "\<forall>r \<in> set ?rs. rec_ok r \<and> short_names r" by (simp add: small_rec_def short_names_def)
  have g: "given run_packer files ?a ?bs ?bs ?rs" for files
    using small_size(1) by (simp add: given_def a)
  have size: "length ?bs = 10 + n * length (rec_bytes run_packer small_rec)"
    by (simp add: file_bytes_def length_concat sum_list_replicate rdb_magic_def)
  then have len: "length ?bs < 2 ^ 64" "big_buf_size < length ?bs"
    using mult_le_mono2 [of "length (rec_bytes run_packer small_rec)" 32 n] mult_le_mono2 [of 3 "length (rec_bytes run_packer small_rec)" n]
      small_size n by (simp_all add: big_buf_size_def)
  have "rec_json G False small_rec = [small_text]" for G
    by (simp add: small_rec_def small_text_def key_json_def quote_def print_char_def lit_def concat_replicate_one)
  then have "file_json G False ?rs = lit ''{'' @ [0x0a] @ joined (replicate n small_text) @ [0x0a] @ lit ''}'' @ [0x0a]" for G
    by (simp add: file_json_def concat_replicate_one)
  with program_prints_document [OF _ _ ok run_compresses refl g len(1) a(1-4)] len(2) show ?thesis
    by (intro exI [of _ n]) (simp add: a(5))
qed

text \<open>C4: The program with \<open>-l\<close> and without a pattern, on a file given with \<open>-f\<close> or on the standard input, ends with exit code 0
  and has printed exactly the keys of the records of the file, in order, one per line. A file on the standard input may be longer than the
  buffer if no record takes 5 MB.

  The records are those of \<open>rec_ok\<close>, with the limits of \<open>dump_roundtrip\<close>; keys, strings, elements of lists, sets and hashes, stream ids and packed blocks
  may be compressed, members of the two older sorted set formats, names of groups and consumers, and
  auxiliary values are not.\<close>

theorem program_lists_keys:
  assumes "0 < v" "v < 100" "\<forall>r \<in> set rs. rec_ok r" "compresses E K" "a = main_get_args argv"
    and "given K files a std (file_bytes K v rs ys) rs"
    and "ma_help a = None" "ma_glob a = None" "ma_list a \<noteq> None"
  shows "program_ends P E G files argv std 0 (concat (map (\<lambda>r. val_text G False (item_val (rec_key r)) @ [0x0a]) rs))"
proof -
  obtain i where i: "main_input E files a std = Some i" "loaded i (file_bytes K v rs ys)" "input_eof i \<or> roomy K i rs"
    using main_input_given [OF assms(6)] by blast
  obtain s where s: "main_setup P E files argv std = Begin s" "main_start P a i = Some s"
    using setup_begins assms(5,7,8) i(1) by blast
  from list_prints_keys [OF assms(1-4) i(2,3) s(2) assms(8,9)]
  show ?thesis using s(1) by (metis program_ends.after main_text.simps(2))
qed

theorem program_lists_keys_witness:
  "\<forall>P G files n. program_ends P run_env G files [''rdbparser'', ''-l''] (file_bytes run_packer 9 (replicate n small_rec) []) 0
     (concat (replicate n [0x61, 0x0a]))"
proof (intro allI)
  fix P :: pcre_env and G :: "u64 \<Rightarrow> u8 list" and files n
  let ?rs = "replicate n small_rec" and ?a = "main_get_args [''rdbparser'', ''-l'']"
  have a: "ma_help ?a = None" "ma_glob ?a = None" "ma_list ?a \<noteq> None" "ma_fn ?a = None"
    by (simp_all add: main_get_args_def get_arg_def get_arg_from.simps)
  have ok: "\<forall>r \<in> set ?rs. rec_ok r" by (simp add: small_rec_def)
  have g: "given run_packer files ?a (file_bytes run_packer 9 ?rs []) (file_bytes run_packer 9 ?rs []) ?rs"
    using small_size(1) by (simp add: given_def a)
  have "val_text G False (item_val (rec_key small_rec)) = [0x61]"
    by (simp add: small_rec_def quote_def print_char_def)
  with program_lists_keys [where P = P and G = G, OF _ _ ok run_compresses refl g a(1-3)] show "program_ends P run_env G files [''rdbparser'', ''-l'']
     (file_bytes run_packer 9 ?rs []) 0 (concat (replicate n [0x61, 0x0a]))"
    by simp
qed

text \<open>C5: The program with \<open>-r\<close>, without \<open>-l\<close> and a pattern, ends with exit code 0 and has written for each record, in order, a RESTORE
  command with its key, the ttl 0 and as payload the dump of its object with version and checksum; by \<open>dump_roundtrip\<close>
  each payload is decoded to the object of the record again. The keys are strings that are not compressed, and the file is below \<open>10 ^ 11\<close> bytes,
  given with \<open>-f\<close>, or on the standard input and smaller than the buffer of 10 MB.

  The records are those of \<open>rec_ok\<close>, with the limits of \<open>dump_roundtrip\<close>; keys, strings, elements of lists, sets and hashes, stream ids and packed blocks
  may be compressed, members of the two older sorted set formats, names of groups and consumers, and
  auxiliary values are not.\<close>

theorem program_writes_commands:
  assumes "0 < v" "v < 100" "\<forall>r \<in> set rs. rec_ok r \<and> string_key K r" "compresses E K" "a = main_get_args argv"
    and "given K files a std (file_bytes K v rs ys) rs" "ma_fn a \<noteq> None \<or> length (file_bytes K v rs ys) < big_buf_size"
    and "length (file_bytes K v rs ys) < 10 ^ 11"
    and "ma_help a = None" "ma_glob a = None" "ma_list a = None" "ma_restore a \<noteq> None"
  shows "program_ends P E G files argv std 0 (concat (map (\<lambda>r. restore_cmd K (key_data r) (rec_obj r)) rs))"
proof -
  obtain i where i: "main_input E files a std = Some i" "loaded i (file_bytes K v rs ys)" "input_eof i"
    using main_input_given [OF assms(6)] assms(7) by blast
  obtain s where s: "main_setup P E files argv std = Begin s" "main_start P a i = Some s"
    using setup_begins assms(5,9,10) i(1) by blast
  from restore_commands_carry_dumps [OF assms(1-4) i(2,3) assms(8) s(2) assms(10-12)]
  show ?thesis using s(1) by (metis program_ends.after main_text.simps(3))
qed

theorem program_writes_commands_witness:
  "\<forall>P G. program_ends P run_env G [''dump.rdb'' \<mapsto> file_bytes run_packer 9 [small_rec, small_rec] []]
     [''rdbparser'', ''-r'', ''-f'', ''dump.rdb''] [] 0
     (restore_cmd run_packer [0x61] (ObString (ItStr (replicate 30 0x66))) @ restore_cmd run_packer [0x61] (ObString (ItStr (replicate 30 0x66))))"
proof (intro allI)
  fix P :: pcre_env and G :: "u64 \<Rightarrow> u8 list"
  let ?rs = "[small_rec, small_rec]" and ?argv = "[''rdbparser'', ''-r'', ''-f'', ''dump.rdb'']"
  let ?bs = "file_bytes run_packer 9 ?rs []" and ?cmd = "restore_cmd run_packer [0x61] (ObString (ItStr (replicate 30 0x66)))"
  let ?a = "main_get_args ?argv" and ?files = "[''dump.rdb'' \<mapsto> ?bs]"
  have a: "ma_help ?a = None" "ma_glob ?a = None" "ma_list ?a = None" "ma_restore ?a \<noteq> None" "ma_fn ?a = Some ''dump.rdb''"
    by (simp_all add: main_get_args_def get_arg_def get_arg_from.simps)
  have ok: "\<forall>r \<in> set ?rs. rec_ok r \<and> string_key run_packer r" by (simp add: small_rec_def string_key_def small_plain)
  have g: "given run_packer ?files ?a [] ?bs ?rs" "ma_fn ?a \<noteq> None \<or> length ?bs < big_buf_size"
    by (simp_all add: given_def a)
  have len: "length ?bs < 10 ^ 11" using small_size(1) by (simp add: file_bytes_def rdb_magic_def)
  have "key_data small_rec = [0x61]" "rec_obj small_rec = ObString (ItStr (replicate 30 0x66))" by (simp_all add: small_rec_def)
  with program_writes_commands [where P = P and G = G, OF _ _ ok run_compresses refl g len a(1-4)]
  show "program_ends P run_env G ?files ?argv [] 0 (?cmd @ ?cmd)" by simp
qed

text \<open>C27: The program without \<open>-l\<close>, \<open>-r\<close> and a pattern, on a file of one record with a quicklist of ziplists that are not empty: the elements of all the
  lists are printed one after the other with a comma between any two of them exactly when the first list has at
  least two elements or is the only one. Otherwise commas are missing, since the elements of all the
  one element lists at the start have the number 0. Record, file and input are under the conditions of \<open>program_prints_document\<close>.\<close>

theorem quicklist_commas:
  assumes "0 < v" "v < 100" "r = (ms, k, ObQuicklist dss)" "rec_ok r" "compresses E K" "a = main_get_args argv"
    and "given K files a std (file_bytes K v [r] ys) [r]" "length (file_bytes K v [r] ys) < 2 ^ 64"
    and "ma_help a = None" "ma_glob a = None" "ma_list a = None" "ma_restore a = None"
    and "\<forall>ds \<in> set dss. ds \<noteq> []" "dss \<noteq> []"
  shows "program_ends P E G files argv std 0 (lit ''{'' @ [0x0a]
      @ joined ((if ma_meta a \<noteq> None then map (meta_json G) ms else [])
        @ [key_json G RDB_LIST_QUICKLIST (item_val k) @ elems_json G (map StrVal (concat dss)) @ end_fmt RDB_LIST_QUICKLIST])
      @ [0x0a] @ lit ''}'' @ [0x0a])
    \<longleftrightarrow> length dss = 1 \<or> 2 \<le> length (hd dss)"
proof -
  have "\<forall>r' \<in> set [r]. rec_ok r' \<and> short_names r'" using assms(3,4) by (simp add: short_names_def)
  then have run: "program_ends P E G files argv std 0 (file_json G (ma_meta a \<noteq> None) [r])"
    by (rule document_printed [OF assms(1,2) _ assms(5-12)])
  let ?head = "if ma_meta a \<noteq> None then map (meta_json G) ms else []"
  have doc: "file_json G (ma_meta a \<noteq> None) [r] = lit ''{'' @ [0x0a]
      @ joined (?head @ [key_json G RDB_LIST_QUICKLIST (item_val k) @ obj_json G (ObQuicklist dss) @ end_fmt RDB_LIST_QUICKLIST])
      @ [0x0a] @ lit ''}'' @ [0x0a]"
    by (simp add: file_json_def assms(3))
  have one: "program_ends P E G files argv std 0 out \<longleftrightarrow> out = file_json G (ma_meta a \<noteq> None) [r]" for out
    using run program_ends_unique by blast
  show ?thesis
    unfolding quick_json_commas [OF assms(13,14), of G, symmetric]
    by (auto simp only: one doc same_append_eq append_same_eq joined_last)
qed

theorem quicklist_commas_witness:
  "\<forall>P G. \<not> program_ends P run_env G [''dump.rdb'' \<mapsto> file_bytes (\<lambda>_. None) 9 [([], ItStr [0x6b], ObQuicklist [[[0x61]], [[0x62]]])] []]
     [''rdbparser'', ''-f'', ''dump.rdb''] [] 0
     (lit ''{'' @ [0x0a] @ (key_json G RDB_LIST_QUICKLIST (StrVal [0x6b]) @ elems_json G [StrVal [0x61], StrVal [0x62]] @ end_fmt RDB_LIST_QUICKLIST)
        @ [0x0a] @ lit ''}'' @ [0x0a])"
proof (intro allI)
  fix P :: pcre_env and G :: "u64 \<Rightarrow> u8 list"
  let ?r = "([], ItStr [0x6b], ObQuicklist [[[0x61]], [[0x62]]])" and ?argv = "[''rdbparser'', ''-f'', ''dump.rdb'']" and ?K = "\<lambda>_. None"
  let ?bs = "file_bytes ?K 9 [?r] []" and ?a = "main_get_args ?argv"
  let ?files = "[''dump.rdb'' \<mapsto> ?bs]"
  have a: "ma_help ?a = None" "ma_glob ?a = None" "ma_list ?a = None" "ma_restore ?a = None" "ma_fn ?a = Some ''dump.rdb''" "ma_meta ?a = None"
    by (simp_all add: main_get_args_def get_arg_def get_arg_from.simps)
  have K: "compresses run_env ?K" by (simp add: compresses_def)
  have "length (zip_entries 0 [[0x61]]) = 3" "length (zip_entries 0 [[0x62]]) = 3" by code_simp+
  then have ok: "rec_ok ?r" by (simp add: zip_ok_def del: zip_entries.simps)
  have g: "given ?K ?files ?a [] ?bs [?r]" by (simp add: given_def a)
  have "length ?bs = 44" by code_simp
  then have len: "length ?bs < 2 ^ 64" by simp
  have vals: "item_val (ItStr [0x6b]) = StrVal [0x6b]" "map StrVal (concat [[[0x61]], [[0x62]]]) = [StrVal [0x61], StrVal [0x62]]" by simp_all
  have v: "(0 :: nat) < 9" "9 < (100 :: nat)" by simp_all
  have ne: "\<forall>ds \<in> set [[[0x61]], [[0x62 :: u8]]]. ds \<noteq> []" "[[[0x61]], [[0x62 :: u8]]] \<noteq> []" by simp_all
  have "\<not> (length [[[0x61]], [[0x62 :: u8]]] = 1 \<or> 2 \<le> length (hd [[[0x61]], [[0x62 :: u8]]]))" by simp
  then show "\<not> program_ends P run_env G ?files ?argv [] 0
     (lit ''{'' @ [0x0a] @ (key_json G RDB_LIST_QUICKLIST (StrVal [0x6b]) @ elems_json G [StrVal [0x61], StrVal [0x62]] @ end_fmt RDB_LIST_QUICKLIST)
        @ [0x0a] @ lit ''}'' @ [0x0a])"
    using quicklist_commas [where P = P and G = G, OF v refl ok K refl g len a(1-4) ne]
    unfolding vals by (simp only: a(6) not_False_eq_True if_False append_Nil joined_by.simps simp_thms)
qed

end
