(* ===== verification/Rdb_Texts.thy ===== *)
theory Rdb_Texts
  imports Rdb_Print Rdb_Main
begin

text \<open>
  The routines that write texts into buffers of a fixed size (\<open>print_s\<close>, \<open>GlobCvt\<close>,
  \<open>HexDump\<close>): they never write outside, and what comes out is what the same routine would
  write without a buffer. And the filter for a plain key.
\<close>

section \<open>print_s\<close>

text \<open>C22: Printing a string does not depend on the buffer. However long the string is, \<open>print_s\<close> never writes
  behind its 128 byte buffer, and what it prints is each character's text, one after the other, in
  quotes when asked for.\<close>

theorem print_s_unbuffered:
  assumes "coding r = RDB_STR_VAL" "rdn (pmem (str_s r)) (ppos (str_s r)) (unat (str_u r)) = Some cs"
  shows "print_s G r q s = (Ok (), s\<lparr>out_bytes := out_bytes s @ (if q then [0x22] else [])
     @ concat (map print_char cs) @ (if q then [0x22] else [])\<rparr>)"
  using assms by (simp add: print_s_def put_out_def run_simps print_str_value quote_def)

theorem print_s_unbuffered_witness:
  "print_s (\<lambda>_. []) (set_str (Ptr False (replicate 300 0x0a) 0) 300 RdbString_new) False \<lparr>out_bytes = []\<rparr>
    = (Ok (), \<lparr>out_bytes = concat (replicate 300 [0x5c, 0x6e])\<rparr>)"
  using print_s_unbuffered [of "set_str (Ptr False (replicate 300 0x0a) 0) 300 RdbString_new" "replicate 300 0x0a" "\<lambda>_. []" False "\<lparr>out_bytes = []\<rparr>"]
  by (simp add: set_str_def rdn_def print_char_def)

section \<open>Glob patterns\<close>

text \<open>
  The regular expression of a glob pattern, without a buffer. The character before the current one
  matters: a star behind a star is skipped, and with it the character that follows.
\<close>

definition escaped :: "u8 \<Rightarrow> u8 list" where
  "escaped c = (if c = chr_backslash \<or> c = chr_quest \<or> c = chr_star then [chr_backslash, c] else [c])"

fun glob_items :: "u8 option \<Rightarrow> bool \<Rightarrow> u8 list \<Rightarrow> u8 list" where
  "glob_items prev inside [] = []"
| "glob_items prev inside (c # cs) =
     (if c = chr_backslash then (case cs of [] \<Rightarrow> [] | d # ds \<Rightarrow> escaped d @ glob_items (Some d) inside ds)
      else if inside then c # glob_items (Some c) (c \<noteq> chr_close) cs
      else if c = chr_star then
        (if prev = Some chr_star then (case cs of [] \<Rightarrow> [] | d # ds \<Rightarrow> glob_items (Some d) inside ds)
         else re_star @ glob_items (Some c) inside cs)
      else if c = chr_quest then chr_dot # glob_items (Some c) inside cs
      else if c = chr_dot then chr_backslash # chr_dot # glob_items (Some c) inside cs
      else c # glob_items (Some c) (c = chr_open) cs)"

definition ends_in_star :: "nat \<Rightarrow> u8 list \<Rightarrow> bool" where
  "ends_in_star k pat \<longleftrightarrow> k < length pat \<and> last pat = chr_star \<and> (length pat = 1 \<or> last (butlast pat) \<noteq> chr_backslash)"

definition glob_regex :: "u8 list \<Rightarrow> bool \<Rightarrow> bool \<Rightarrow> u8 list" where
  "glob_regex pat anchor caseins = (if caseins then re_caseless else []) @ re_dotall
     @ (if pat = [] then [] else
        let k = (if hd pat = chr_star then 1 else 0); cut = ends_in_star k pat;
            body = (if cut then butlast pat else pat)
        in (if k = 0 \<and> anchor then re_start else [])
          @ glob_items (if k = 0 then None else Some chr_star) False (drop k body)
          @ (if cut then [] else re_end))"

text \<open>The text written so far, as long as it fits.\<close>

definition glob_says :: "GlobCvt \<Rightarrow> u8 list \<Rightarrow> bool" where
  "glob_says g t \<longleftrightarrow> gl_off g = length t \<and> (\<exists>out. gl_out g = Some out \<and> length out = gl_maxlen g
     \<and> (length t \<le> gl_maxlen g \<longrightarrow> take (length t) out = t))"

lemma glob_writes:
  assumes "glob_says g t" "length t + length cs \<le> gl_maxlen g"
  shows "\<exists>out. glob_write (length t) cs (gl_out g) = Some out \<and> length out = gl_maxlen g \<and> take (length t + length cs) out = t @ cs"
  using assms by (auto simp: glob_says_def glob_write_def wrn_def)

lemma glob_says_char: "glob_says g t \<Longrightarrow> glob_says (char_out c g) (t @ [c])"
  using glob_writes [of g t "[c]"] by (auto simp: glob_says_def char_out_def Let_def)

lemma glob_says_str: "glob_says g t \<Longrightarrow> glob_says (str_out cs g) (t @ cs)"
  using glob_writes [of g t cs] by (auto simp: glob_says_def str_out_def Let_def)

lemma maxlen_out [simp]: "gl_maxlen (char_out c g) = gl_maxlen g" "gl_maxlen (str_out cs g) = gl_maxlen g"
  by (simp_all add: char_out_def str_out_def Let_def)

lemma glob_says_escape: "glob_says g t \<Longrightarrow> glob_says (glob_escape c g) (t @ escaped c)"
  using glob_says_char [OF glob_says_char, of g t c chr_backslash] glob_says_char [of g t c]
  by (auto simp: glob_escape_def escaped_def)

lemma glob_loop_says:
  assumes "glob_says g t" "n \<le> length pat"
  shows "glob_says (glob_loop pat n k inside g)
      (t @ glob_items (if k = 0 then None else Some (pat ! (k - 1))) inside (drop k (take n pat)))
    \<and> gl_maxlen (glob_loop pat n k inside g) = gl_maxlen g"
  using assms
proof (induction pat n k inside g arbitrary: t rule: glob_loop.induct)
  case (1 pat n k inside g)
  show ?case
  proof (cases "k < n")
    case False
    with 1 show ?thesis by (simp add: glob_loop.simps [of pat n k])
  next
    case True
    obtain k' inside' g' where r: "glob_round pat n k inside g = (k', inside', g')" by (metis prod_cases3)
    have loop: "glob_loop pat n k inside g = glob_loop pat n (k' + 1) inside' g'"
      using True r by (subst glob_loop.simps) simp
    have cons: "drop k (take n pat) = pat ! k # drop (Suc k) (take n pat)"
      using True 1(3) by (simp add: Cons_nth_drop_Suc [symmetric])
    have cons2: "drop (Suc k) (take n pat) = pat ! Suc k # drop (Suc (Suc k)) (take n pat)" if "Suc k < n"
      using that 1(3) by (simp add: Cons_nth_drop_Suc [symmetric])
    note IH = 1(1) [OF True r [symmetric] refl]
    note says = glob_says_char glob_says_str glob_says_escape
    consider (esc) "pat ! k = chr_backslash" "Suc k < n" | (esc_end) "pat ! k = chr_backslash" "\<not> Suc k < n"
      | (star2) "pat ! k = chr_star" "\<not> inside" "k > 0 \<and> pat ! (k - 1) = chr_star"
      | (other) "pat ! k \<noteq> chr_backslash" "\<not> (pat ! k = chr_star \<and> \<not> inside \<and> k > 0 \<and> pat ! (k - 1) = chr_star)"
      by blast
    then show ?thesis
    proof cases
      case esc
      with r have k': "k' = Suc k" "inside' = inside" "g' = glob_escape (pat ! Suc k) g" by (auto simp: glob_round_def)
      then have "glob_says g' (t @ escaped (pat ! Suc k))" using glob_says_escape [OF 1(2)] by simp
      from IH [OF this 1(3)] esc k' show ?thesis
        by (simp add: loop cons cons2 glob_escape_def)
    next
      case esc_end
      with r have "k' = k" "inside' = inside" "g' = g" by (auto simp: glob_round_def)
      with esc_end 1(2) show ?thesis by (simp add: loop cons glob_loop.simps [of pat n "Suc k"])
    next
      case star2
      with r have k': "k' = Suc k" "inside' = inside" "g' = g" by (auto simp: glob_round_def chr_star_def chr_backslash_def)
      have ne: "chr_star \<noteq> chr_backslash" by (simp add: chr_star_def chr_backslash_def)
      show ?thesis
      proof (cases "Suc k < n")
        case True
        with IH [of t] 1(2,3) star2 k' ne show ?thesis unfolding loop by (simp add: cons cons2)
      next
        case False
        with 1(2) star2 k' ne show ?thesis unfolding loop by (simp add: cons glob_loop.simps [of pat n "Suc (Suc k)"])
      qed
    next
      case other
      define u where "u = (if inside then [pat ! k] else if pat ! k = chr_star then re_star
        else if pat ! k = chr_quest then [chr_dot] else if pat ! k = chr_dot then [chr_backslash, chr_dot] else [pat ! k])"
      define b where "b = (if inside then pat ! k \<noteq> chr_close else pat ! k = chr_open)"
      have chars: "chr_star \<noteq> chr_open" "chr_quest \<noteq> chr_open" "chr_dot \<noteq> chr_open"
        by (simp_all add: chr_star_def chr_open_def chr_quest_def chr_dot_def)
      have k': "k' = k" "inside' = b" "glob_says g' (t @ u)" "gl_maxlen g' = gl_maxlen g"
        using other r chars glob_says_char [OF 1(2)] glob_says_str [OF 1(2)] glob_says_char [OF glob_says_char [OF 1(2)]]
        by (auto simp: glob_round_def u_def b_def split: if_splits)
      from IH [OF k'(3) 1(3)] other k' chars show ?thesis
        by (auto simp: loop cons u_def b_def)
    qed
  qed
qed

lemma ends_in_star_nth:
  "k < length pat \<Longrightarrow> ends_in_star k pat \<longleftrightarrow> pat ! (length pat - 1) = chr_star
     \<and> (length pat = 1 \<or> pat ! (length pat - 2) \<noteq> chr_backslash)"
  by (cases "length pat = 1"; cases pat rule: rev_cases)
    (auto simp: ends_in_star_def last_conv_nth nth_append numeral_2_eq_2 split: if_splits)

lemma convert_glob_says:
  assumes "convert_glob pat anchor caseins (GlobCvt_new out0) = (r, g)"
  shows "glob_says g (glob_regex pat anchor caseins) \<and> gl_maxlen g = length out0 \<and> r = (if gl_off g > gl_maxlen g then -1 else 0)"
proof -
  have new: "glob_says (GlobCvt_new out0) []" by (simp add: glob_says_def GlobCvt_new_def)
  define g2 where "g2 = str_out re_dotall (if caseins then str_out re_caseless (GlobCvt_new out0) else GlobCvt_new out0)"
  define t2 where "t2 = (if caseins then re_caseless else []) @ re_dotall"
  have g2: "glob_says g2 t2" "gl_maxlen g2 = length out0"
    using glob_says_str [OF new, of re_dotall] glob_says_str [OF glob_says_str [OF new], of re_dotall re_caseless]
    by (auto simp: g2_def t2_def GlobCvt_new_def)
  show ?thesis
  proof (cases "pat = []")
    case True
    with assms g2 show ?thesis by (auto simp: convert_glob_def Let_def glob_regex_def g2_def t2_def)
  next
    case False
    define k where "k = (if hd pat = chr_star then 1 else 0 :: nat)"
    define cut where "cut = ends_in_star k pat"
    define n where "n = (if cut then length pat - 1 else length pat)"
    define g3 where "g3 = (if k = 0 \<and> anchor then str_out re_start g2 else g2)"
    define t3 where "t3 = t2 @ (if k = 0 \<and> anchor then re_start else [])"
    have g3: "glob_says g3 t3" "gl_maxlen g3 = length out0"
      using g2 glob_says_str [OF g2(1), of re_start] by (auto simp: g3_def t3_def)
    have hd: "pat ! 0 = hd pat" using False by (simp add: hd_conv_nth)
    have cut': "cut \<longleftrightarrow> length pat > k \<and> pat ! (length pat - 1) = chr_star
        \<and> (length pat = 1 \<or> pat ! (length pat - 2) \<noteq> chr_backslash)"
      using ends_in_star_nth [of k pat] by (auto simp: cut_def ends_in_star_def)
    define g4 where "g4 = glob_loop pat n k False g3"
    define t4 where "t4 = t3 @ glob_items (if k = 0 then None else Some chr_star) False (drop k (take n pat))"
    have prev: "pat ! (k - 1) = chr_star" if "k \<noteq> 0" using that hd by (auto simp: k_def split: if_splits)
    have g4: "glob_says g4 t4" "gl_maxlen g4 = length out0"
      using glob_loop_says [OF g3(1), of n pat k False] g3(2) prev by (auto simp: g4_def t4_def n_def split: if_splits)
    define g5 where "g5 = (if \<not> cut then str_out re_end g4 else g4)"
    have g5: "glob_says g5 (t4 @ (if cut then [] else re_end))" "gl_maxlen g5 = length out0"
      using g4 glob_says_str [OF g4(1), of re_end] by (auto simp: g5_def)
    have "take n pat = (if cut then butlast pat else pat)" by (simp add: n_def butlast_conv_take)
    then have "glob_regex pat anchor caseins = t4 @ (if cut then [] else re_end)"
      using False by (simp add: glob_regex_def t4_def t3_def t2_def k_def cut_def Let_def)
    moreover have "convert_glob pat anchor caseins (GlobCvt_new out0) = (if gl_off g5 > gl_maxlen g5 then -1 else 0, g5)"
    proof -
      have kg: "(if pat ! 0 \<noteq> chr_star then (0, if anchor then str_out re_start g2 else g2) else (1, g2)) = (k, g3)"
        by (simp add: k_def g3_def hd)
      have len: "0 < length pat" using False by simp
      show ?thesis
        by (simp only: convert_glob_def Let_def g2_def [symmetric] kg prod.case cut' [symmetric] n_def [symmetric]
            g4_def [symmetric] g5_def [symmetric] len if_True)
    qed
    ultimately show ?thesis using assms g5 by auto
  qed
qed

lemma convert_glob_inside: "gl_out (snd (convert_glob pat anchor caseins (GlobCvt_new out0))) \<noteq> None"
  using convert_glob_says [of pat anchor caseins out0] by (cases "convert_glob pat anchor caseins (GlobCvt_new out0)") (auto simp: glob_says_def)

text \<open>C21: Converting a glob pattern never writes outside the output buffer, which is there afterwards with its size. \<open>convert_glob\<close> counts exactly the
  length of the regular expression of the pattern; it returns 0 exactly when that fits in the buffer,
  and then the buffer holds it, -1 otherwise.\<close>

theorem convert_glob_fits:
  assumes "convert_glob pat anchor caseins (GlobCvt_new out0) = (r, g)"
  shows "\<exists>out. gl_out g = Some out \<and> length out = length out0 \<and> gl_off g = length (glob_regex pat anchor caseins)
    \<and> r = (if length (glob_regex pat anchor caseins) \<le> length out0 then 0 else -1)
    \<and> (r = 0 \<longrightarrow> take (gl_off g) out = glob_regex pat anchor caseins)"
  using convert_glob_says [OF assms] by (auto simp: glob_says_def)

theorem convert_glob_fits_witness:
  "\<exists>r g out. convert_glob [0x61, 0x2a] True False (GlobCvt_new (replicate 8 0)) = (r, g) \<and> r = 0
    \<and> gl_out g = Some out \<and> take (gl_off g) out = [0x28, 0x3f, 0x73, 0x29, 0x5c, 0x41, 0x61]"
proof -
  obtain r g where g: "convert_glob [0x61, 0x2a] True False (GlobCvt_new (replicate 8 0)) = (r, g)" by fastforce
  have "glob_regex [0x61, 0x2a] True False = [0x28, 0x3f, 0x73, 0x29, 0x5c, 0x41, 0x61]" by code_simp
  with convert_glob_fits [OF g] g show ?thesis by auto
qed

lemma glob_items_plain:
  assumes "set p \<inter> {chr_star, chr_backslash, chr_open} = {}"
  shows "\<exists>u. \<forall>r. glob_items prev False (p @ r) = u @ glob_items (if p = [] then prev else Some (last p)) False r"
  using assms
proof (induction p arbitrary: prev)
  case (Cons c p)
  then obtain u where u: "\<forall>r. glob_items (Some c) False (p @ r) = u @ glob_items (if p = [] then Some c else Some (last p)) False r"
    by auto
  define v where "v = (if c = chr_quest then [chr_dot] else if c = chr_dot then [chr_backslash, chr_dot] else [c])"
  have "glob_items prev False ((c # p) @ r) = v @ glob_items (Some c) False (p @ r)" for r
    using Cons.prems by (auto simp: v_def)
  with u show ?case by (intro exI [of _ "v @ u"]) auto
qed auto

text \<open>C28: Two stars in a row lose the character behind them. A pattern with \<open>**y\<close> between a first part and a last part is converted to the
  regular expression of the pattern with one star and without \<open>y\<close>, whatever \<open>y\<close> is. The first part is not empty and has none of
  the characters \<open>* \ [\<close>, the last part is not empty and does not begin with a star; both conversions fit in their buffers.\<close>

theorem glob_double_star:
  assumes "p \<noteq> []" "set p \<inter> {chr_star, chr_backslash, chr_open} = {}" "q \<noteq> []" "hd q \<noteq> chr_star"
    and "convert_glob (p @ [chr_star, chr_star, y] @ q) a ci (GlobCvt_new out0) = (0, g)"
    and "convert_glob (p @ [chr_star] @ q) a ci (GlobCvt_new out1) = (0, g')"
  shows "\<exists>out out'. gl_out g = Some out \<and> gl_out g' = Some out' \<and> take (gl_off g) out = take (gl_off g') out'"
proof -
  have ne: "chr_star \<noteq> chr_backslash" by (simp add: chr_star_def chr_backslash_def)
  obtain u where u: "\<forall>r. glob_items None False (p @ r) = u @ glob_items (Some (last p)) False r"
    using glob_items_plain [OF assms(2), of None] assms(1) by auto
  have star: "last p \<noteq> chr_star" "hd p \<noteq> chr_star"
    using assms(2) last_in_set [OF assms(1)] hd_in_set [OF assms(1)] by auto
  obtain z zs where q: "q = z # zs" "z \<noteq> chr_star" using assms(3,4) by (cases q) auto
  have skip: "glob_items (Some y) False (z # zs') = glob_items (Some chr_star) False (z # zs')" for zs'
    using q(2) by simp
  have cut: "ends_in_star 0 (p @ [chr_star, chr_star, y] @ q) = ends_in_star 0 (p @ [chr_star] @ q)"
    using q by (cases zs rule: rev_cases) (auto simp: ends_in_star_def butlast_append)
  have "glob_items None False (p @ [chr_star, chr_star, y] @ z # zs') = glob_items None False (p @ [chr_star] @ z # zs')" for zs'
    using u star(1) skip [of zs'] ne by simp
  moreover have "butlast (p @ [chr_star, chr_star, y] @ q) = p @ [chr_star, chr_star, y] @ butlast q"
    "butlast (p @ [chr_star] @ q) = p @ [chr_star] @ butlast q"
    using q by (simp_all add: butlast_append)
  moreover have "butlast q = [] \<Longrightarrow> \<not> ends_in_star 0 (p @ [chr_star] @ q)"
    using q by (cases zs) (auto simp: ends_in_star_def)
  ultimately have "glob_regex (p @ [chr_star, chr_star, y] @ q) a ci = glob_regex (p @ [chr_star] @ q) a ci"
    using assms(1) star(2) cut q by (cases zs) (auto simp: glob_regex_def Let_def)
  with convert_glob_says [OF assms(5)] convert_glob_says [OF assms(6)] show ?thesis
    by (auto simp: glob_says_def split: if_splits)
qed

theorem glob_double_star_witness:
  "\<exists>g g'. convert_glob ([0x61] @ [chr_star, chr_star, 0x62] @ [0x63]) True False (GlobCvt_new (replicate 64 0)) = (0, g)
    \<and> convert_glob ([0x61] @ [chr_star] @ [0x63]) True False (GlobCvt_new (replicate 64 0)) = (0, g')
    \<and> map_option (take (gl_off g)) (gl_out g) = map_option (take (gl_off g')) (gl_out g')"
proof -
  have "\<exists>g. convert_glob pat True False (GlobCvt_new (replicate 64 0)) = (0, g)"
    if "length (glob_regex pat True False) \<le> 64" for pat
    using that convert_glob_says [of pat True False "replicate 64 0"]
    by (cases "convert_glob pat True False (GlobCvt_new (replicate 64 0))") (auto simp: glob_says_def)
  moreover have "length (glob_regex ([0x61] @ [chr_star, chr_star, 0x62] @ [0x63]) True False) \<le> 64"
    "length (glob_regex ([0x61] @ [chr_star] @ [0x63]) True False) \<le> 64" by code_simp+
  ultimately obtain g g' where "convert_glob ([0x61] @ [chr_star, chr_star, 0x62] @ [0x63]) True False (GlobCvt_new (replicate 64 0)) = (0, g)"
    "convert_glob ([0x61] @ [chr_star] @ [0x63]) True False (GlobCvt_new (replicate 64 0)) = (0, g')" by blast
  with glob_double_star [OF _ _ _ _ this] show ?thesis
    by (auto simp: chr_star_def chr_backslash_def chr_open_def)
qed

section \<open>Hex dump\<close>

text \<open>A line of 79 characters and a zero; the columns are a function of the number of bytes in it.\<close>

definition full_line :: "u8 list \<Rightarrow> bool" where
  "full_line l \<longleftrightarrow> length l = 80 \<and> l ! 79 = 0 \<and> (\<forall>i < 79. l ! i \<noteq> 0)"

definition hex_ok :: "HexDump \<Rightarrow> bool" where
  "hex_ok h \<longleftrightarrow> full_line (hd_line h) \<and> hd_boff h \<le> 16
     \<and> hd_hex h = 9 + 3 * hd_boff h + hd_boff h div 4 \<and> hd_ascii h = 61 + hd_boff h"

lemma line_put_ok: "full_line l \<Longrightarrow> i < 79 \<Longrightarrow> c \<noteq> 0 \<Longrightarrow> \<exists>l'. line_put i c l = Some l' \<and> full_line l'"
  by (auto simp: line_put_def wrn_def full_line_def nth_append nth_Cons' less_Suc_eq_le)

text \<open>A line shows bytes: their digits in hexadecimal in the columns for them, and the printable ones as characters.\<close>

definition hex_col :: "nat \<Rightarrow> nat" where
  "hex_col i = 9 + 3 * i + i div 4"

definition hex_shows :: "u8 list \<Rightarrow> u8 list \<Rightarrow> bool" where
  "hex_shows l bs \<longleftrightarrow> (\<forall>i < length bs. l ! hex_col i = hex_chars ! unat (drop_bit 4 (bs ! i))
     \<and> l ! (hex_col i + 1) = hex_chars ! unat (bs ! i AND 0xf) \<and> (0x20 \<le> bs ! i \<and> bs ! i \<le> 127 \<longrightarrow> l ! (61 + i) = bs ! i))"

lemma hex_col_less: "i < j \<Longrightarrow> hex_col i + 2 < hex_col j" "i < 16 \<Longrightarrow> hex_col i + 1 < 61"
proof -
  show "i < j \<Longrightarrow> hex_col i + 2 < hex_col j" using div_le_mono [of i j 4] by (simp add: hex_col_def)
  show "i < 16 \<Longrightarrow> hex_col i + 1 < 61" using div_le_mono [of i 15 4] by (simp add: hex_col_def)
qed

lemma line_put_nth: "line_put i c l = Some l' \<Longrightarrow> l' ! k = (if k = i then c else l ! k)"
  by (auto simp: line_put_def wrn_def nth_append nth_Cons' min_def split: if_splits)

lemma hex_chars_nonzero: "i < 16 \<Longrightarrow> hex_chars ! i \<noteq> 0"
proof -
  have "\<forall>c \<in> set hex_chars. c \<noteq> 0" "length hex_chars = 16" by code_simp+
  then show "i < 16 \<Longrightarrow> ?thesis" by (metis nth_mem)
qed

lemma hex_digit: "hex_chars ! unat (k AND 0xf) \<noteq> 0" for k :: "'a :: len word"
proof (rule hex_chars_nonzero)
  have "(0xf :: 'a word) = mask 4" by (simp add: mask_eq_exp_minus_1)
  then show "unat (k AND 0xf) < 16" by (simp only: unat_and_mask) simp
qed

lemma offset_digits_ok: "full_line l \<Longrightarrow> j < 79 \<Longrightarrow> \<exists>l'. offset_digits j k l = Some l' \<and> full_line l'"
proof (induction j arbitrary: k l)
  case 0
  with line_put_ok [of l 0] hex_digit [of k] show ?case by (subst offset_digits.simps) fastforce
next
  case (Suc j)
  obtain l1 where l1: "line_put (Suc j) (hex_chars ! unat (k AND 0xf)) l = Some l1" "full_line l1"
    using line_put_ok Suc.prems hex_digit by blast
  with Suc show ?case by (subst offset_digits.simps) auto
qed

lemma init_line_ok:
  assumes "length (hd_line h) = 80"
  shows "\<exists>l. init_line h = Some (h\<lparr>hd_line := l\<rparr>) \<and> full_line l"
proof -
  have "\<exists>l. line_put 79 0 (replicate 79 0x20 @ drop 79 (hd_line h)) = Some l \<and> full_line l"
    using assms by (simp add: line_put_def wrn_def nth_append full_line_def)
  then obtain l0 where l0: "line_put 79 0 (replicate 79 0x20 @ drop 79 (hd_line h)) = Some l0" "full_line l0" by blast
  obtain l1 where l1: "line_put 5 (hex_chars ! unat (hd_stream_off h AND 0xf)) l0 = Some l1" "full_line l1"
    using line_put_ok [OF l0(2), of 5] hex_digit by auto
  obtain l2 where "offset_digits 4 (drop_bit 4 (hd_stream_off h)) l1 = Some l2" "full_line l2"
    using offset_digits_ok [OF l1(2), of 4] by auto
  with l0 l1 show ?thesis by (intro exI [of _ l2]) (simp add: init_line_def)
qed

lemma flush_line_ok: "length (hd_line h) = 80 \<Longrightarrow> \<exists>h'. flush_line h = Some h' \<and> hex_ok h' \<and> hd_boff h' = 0"
  using init_line_ok [of "h\<lparr>hd_stream_off := hd_stream_off h + word_of_nat (hd_boff h), hd_boff := 0, hd_hex := 9, hd_ascii := 61\<rparr>"]
  by (auto simp: flush_line_def hex_ok_def)

lemma fill_byte_ok:
  assumes "hex_ok h" "hd_boff h < 16"
  shows "\<exists>h'. fill_byte b h = Some h' \<and> hex_ok h' \<and> hd_boff h' = Suc (hd_boff h)"
proof -
  have h: "full_line (hd_line h)" "hd_hex h = 9 + 3 * hd_boff h + hd_boff h div 4" "hd_ascii h = 61 + hd_boff h"
    using assms(1) by (simp_all add: hex_ok_def)
  have col: "hd_hex h + 1 < 79" "hd_ascii h < 79" using h(2,3) assms(2) by auto
  have "unat (drop_bit 4 b) < 16" using unat_lt_256 [of b] by (simp add: unat_drop_bit_eq drop_bit_eq_div [of 4 "unat b"] less_mult_imp_div_less)
  then obtain l1 where l1: "line_put (hd_hex h) (hex_chars ! unat (drop_bit 4 b)) (hd_line h) = Some l1" "full_line l1"
    using line_put_ok [OF h(1)] hex_chars_nonzero col by (metis add_lessD1)
  obtain l2 where l2: "line_put (hd_hex h + 1) (hex_chars ! unat (b AND 0xf)) l1 = Some l2" "full_line l2"
    using line_put_ok [OF l1(2) col(1)] hex_digit by blast
  have "\<exists>l3. (if 0x20 \<le> b \<and> b \<le> 127 then line_put (hd_ascii h) b l2 else Some l2) = Some l3 \<and> full_line l3"
    using line_put_ok [OF l2(2) col(2), of b] l2(2) by (cases "b = 0") (auto simp: word_le_nat_alt)
  then obtain l3 where l3: "(if 0x20 \<le> b \<and> b \<le> 127 then line_put (hd_ascii h) b l2 else Some l2) = Some l3" "full_line l3"
    by blast
  have "Suc n div 4 = n div 4 + (if Suc n mod 4 = 0 then 1 else 0)" for n :: nat by presburger
  with l1 l2 l3 h assms(2) show ?thesis by (simp add: fill_byte_def hex_ok_def)
qed

lemma fill_byte_shows:
  assumes h: "hex_ok h" "hd_boff h < 16" "hex_shows (hd_line h) bs" "length bs = hd_boff h" and fill: "fill_byte b h = Some h'"
  shows "hex_shows (hd_line h') (bs @ [b])"
proof -
  have col: "hd_hex h = hex_col (hd_boff h)" "hd_ascii h = 61 + hd_boff h" using h(1) by (simp_all add: hex_ok_def hex_col_def)
  have l: "hd_line h' ! k = (if 0x20 \<le> b \<and> b \<le> 127 \<and> k = 61 + hd_boff h then b
      else if k = hex_col (hd_boff h) + 1 then hex_chars ! unat (b AND 0xf)
      else if k = hex_col (hd_boff h) then hex_chars ! unat (drop_bit 4 b) else hd_line h ! k)" for k
  proof -
    obtain l1 l2 l3 where put: "line_put (hex_col (hd_boff h)) (hex_chars ! unat (drop_bit 4 b)) (hd_line h) = Some l1"
      "line_put (hex_col (hd_boff h) + 1) (hex_chars ! unat (b AND 0xf)) l1 = Some l2"
      "(if 0x20 \<le> b \<and> b \<le> 127 then line_put (61 + hd_boff h) b l2 else Some l2) = Some l3" "hd_line h' = l3"
      using fill unfolding fill_byte_def col bind_eq_Some_conv by auto
    have "l2 ! k = (if k = hex_col (hd_boff h) + 1 then hex_chars ! unat (b AND 0xf)
      else if k = hex_col (hd_boff h) then hex_chars ! unat (drop_bit 4 b) else hd_line h ! k)"
      by (simp only: line_put_nth [OF put(2)] line_put_nth [OF put(1)])
    moreover have "l3 ! k = (if 0x20 \<le> b \<and> b \<le> 127 \<and> k = 61 + hd_boff h then b else l2 ! k)"
    proof (cases "0x20 \<le> b \<and> b \<le> 127")
      case True
      with put(3) show ?thesis by (simp add: line_put_nth [of "61 + hd_boff h" b l2 l3 k])
    qed (use put(3) in auto)
    ultimately show ?thesis by (simp only: put(4))
  qed
  show ?thesis
    unfolding hex_shows_def
  proof (intro allI impI)
    fix i
    assume i: "i < length (bs @ [b])"
    show "hd_line h' ! hex_col i = hex_chars ! unat (drop_bit 4 ((bs @ [b]) ! i))
      \<and> hd_line h' ! (hex_col i + 1) = hex_chars ! unat ((bs @ [b]) ! i AND 0xf)
      \<and> (0x20 \<le> (bs @ [b]) ! i \<and> (bs @ [b]) ! i \<le> 127 \<longrightarrow> hd_line h' ! (61 + i) = (bs @ [b]) ! i)"
    proof (cases "i < hd_boff h")
      case True
      with h(2,3,4) hex_col_less(1) [OF True] hex_col_less(2) [of i] hex_col_less(2) [of "hd_boff h"] show ?thesis
        by (simp add: l nth_append hex_shows_def)
    next
      case False
      with i h(4) have "i = hd_boff h" by simp
      with h(2,4) hex_col_less(2) [of i] show ?thesis by (simp add: l nth_append)
    qed
  qed
qed

lemma fill_line_shows:
  assumes "hex_ok h" "len \<le> length m" "off \<le> len" "hex_shows (hd_line h) bs" "length bs = hd_boff h"
    and "fill_line m off len h = Some (off', h')"
  shows "hex_shows (hd_line h') (bs @ take (16 - hd_boff h) (drop off (take len m)))"
  using assms
proof (induction m off len h arbitrary: bs rule: fill_line.induct)
  case (1 m off len h)
  show ?case
  proof (cases "off < len \<and> hd_boff h < 16")
    case True
    have b: "rd8 m off = Some (m ! off)" using True 1(3) by (simp add: rd8_def)
    obtain h1 where h1: "fill_byte (m ! off) h = Some h1" "hex_ok h1" "hd_boff h1 = Suc (hd_boff h)"
      using fill_byte_ok 1(2) True by blast
    have "hex_shows (hd_line h1) (bs @ [m ! off])" using fill_byte_shows [OF 1(2) _ 1(5,6) h1(1)] True by simp
    moreover have "fill_line m (off + 1) len h1 = Some (off', h')" using 1(7) True b h1(1) by (subst (asm) fill_line.simps) simp
    ultimately have "hex_shows (hd_line h') ((bs @ [m ! off]) @ take (16 - hd_boff h1) (drop (off + 1) (take len m)))"
      by (intro 1(1) [OF True b h1(1) h1(2) 1(3)]) (use True 1(6) h1(3) in simp_all)
    moreover have "take (16 - hd_boff h) (drop off (take len m)) = m ! off # take (16 - hd_boff h1) (drop (off + 1) (take len m))"
    proof -
      have "drop off (take len m) = m ! off # drop (off + 1) (take len m)" using True 1(3) by (simp add: Cons_nth_drop_Suc [symmetric])
      moreover have "16 - hd_boff h = Suc (16 - hd_boff h1)" using True unfolding h1(3) by linarith
      ultimately show ?thesis by simp
    qed
    ultimately show ?thesis by simp
  next
    case False
    then have "take (16 - hd_boff h) (drop off (take len m)) = []" by auto
    moreover have "h' = h" using 1(7) False by (simp add: fill_line.simps [of m off len h])
    ultimately show ?thesis using 1(5) by (simp only: append_Nil2)
  qed
qed

lemma fill_line_ok:
  assumes "hex_ok h" "len \<le> length m" "off \<le> len"
  shows "\<exists>h'. fill_line m off len h = Some (min len (off + (16 - hd_boff h)), h') \<and> hex_ok h'"
  using assms
proof (induction m off len h rule: fill_line.induct)
  case (1 m off len h)
  show ?case
  proof (cases "off < len \<and> hd_boff h < 16")
    case True
    have b: "rd8 m off = Some (m ! off)" using True 1(3) by (simp add: rd8_def)
    obtain h1 where h1: "fill_byte (m ! off) h = Some h1" "hex_ok h1" "hd_boff h1 = Suc (hd_boff h)"
      using fill_byte_ok 1(2) True by blast
    have "off + 1 + (16 - hd_boff h1) = off + (16 - hd_boff h)" using h1(3) True by (simp only:) arith
    with 1(1) [OF True b h1(1) h1(2) 1(3)] True show ?thesis
      by (subst fill_line.simps) (simp add: b h1(1))
  next
    case False
    with 1 show ?thesis by (subst fill_line.simps) (auto simp: hex_ok_def min_def)
  qed
qed

lemma hex_lines_ok:
  assumes "hex_ok h" "hd_boff h = 0" "end \<le> length m" "off \<le> end" "end - off < k"
  shows "\<exists>ls. hex_lines k m off end h = Some ls \<and> length ls = (end - off + 15) div 16 \<and> (\<forall>l \<in> set ls. length l = 79)
    \<and> (\<forall>j < length ls. hex_shows (ls ! j) (take 16 (drop (off + 16 * j) (take end m))))"
  using assms
proof (induction k arbitrary: off h)
  case (Suc k)
  show ?case
  proof (cases "off < end")
    case True
    obtain h1 where h1: "fill_line m off end h = Some (min end (off + 16), h1)" "hex_ok h1"
      using fill_line_ok [OF Suc.prems(1,3,4)] Suc.prems(2) by auto
    have l1: "full_line (hd_line h1)" "length (hd_line h1) = 80" using h1(2) by (simp_all add: hex_ok_def full_line_def)
    obtain h2 where h2: "flush_line h1 = Some h2" "hex_ok h2" "hd_boff h2 = 0" using flush_line_ok l1(2) by blast
    have "end - min end (off + 16) < k" using Suc.prems(5) True by (auto simp: min_def)
    then obtain ls where ls: "hex_lines k m (min end (off + 16)) end h2 = Some ls"
      "length ls = (end - min end (off + 16) + 15) div 16" "\<forall>l \<in> set ls. length l = 79"
      "\<forall>j < length ls. hex_shows (ls ! j) (take 16 (drop (min end (off + 16) + 16 * j) (take end m)))"
      using Suc.IH [OF h2(2,3) Suc.prems(3), of "min end (off + 16)"] by fastforce
    have "takeWhile (\<lambda>c. c \<noteq> 0) (hd_line h1) = take 79 (hd_line h1)"
      using l1(1) by (intro takeWhile_eq_take_P_nth) (auto simp: full_line_def)
    then have "length (takeWhile (\<lambda>c. c \<noteq> 0) (hd_line h1)) = 79" using l1(2) by simp
    moreover have "Suc ((end - min end (off + 16) + 15) div 16) = (end - off + 15) div 16"
    proof (cases "end \<le> off + 16")
      case True
      with \<open>off < end\<close> have "16 \<le> end - off + 15" "end - off + 15 < 32" by auto
      then have "(end - off + 15) div 16 = 1" by (simp add: div_nat_eqI)
      with True show ?thesis by (simp add: min_def)
    next
      case False
      then have "end - off + 15 = 16 + (end - (off + 16) + 15)" by simp
      with False show ?thesis by (simp only: min_def) simp
    qed
    moreover have "hex_shows (takeWhile (\<lambda>c. c \<noteq> 0) (hd_line h1)) (take 16 (drop off (take end m)))"
    proof -
      have "hex_shows (hd_line h1) ([] @ take (16 - hd_boff h) (drop off (take end m)))"
        by (rule fill_line_shows [OF Suc.prems(1,3,4) _ _ h1(1)]) (simp_all add: hex_shows_def Suc.prems(2))
      moreover have "hex_col i < 79" "Suc (hex_col i) < 79" "61 + i < 79" if "i < 16" for i using hex_col_less(2) [OF that] that by simp_all
      ultimately show ?thesis
        unfolding \<open>takeWhile (\<lambda>c. c \<noteq> 0) (hd_line h1) = take 79 (hd_line h1)\<close> by (simp add: hex_shows_def Suc.prems(2))
    qed
    moreover have "hex_shows (ls ! j) (take 16 (drop (off + 16 * Suc j) (take end m)))" if "j < length ls" for j
    proof (cases "off + 16 \<le> end")
      case True
      then have "min end (off + 16) + 16 * j = off + 16 * Suc j" by simp
      with ls(4) that show ?thesis by metis
    next
      case False
      with ls(2) that show ?thesis by simp
    qed
    ultimately show ?thesis using h1(1) h2(1) ls True by (auto simp: nth_Cons split: nat.split)
  next
    case False
    with Suc.prems(4) show ?thesis by simp
  qed
qed simp

lemma print_hex_lines:
  assumes "off \<le> hi" "hi \<le> length m"
  shows "\<exists>ls. print_hex off hi m = Some ls \<and> length ls = (hi - off + 15) div 16 \<and> (\<forall>l \<in> set ls. length l = 79)
    \<and> (\<forall>j < length ls. hex_shows (ls ! j) (take 16 (drop (off + 16 * j) (take hi m))))"
proof -
  obtain h where "HexDump_new (replicate 80 0) (word_of_nat off) = Some h" "hex_ok h" "hd_boff h = 0"
    using flush_line_ok by (force simp: HexDump_new_def)
  with hex_lines_ok [of h hi m off "Suc (hi - off)"] assms show ?thesis by (simp add: print_hex_def)
qed

text \<open>C23: The hex dump stays inside its line buffer. For any part of any block, \<open>print_hex\<close> never writes outside
  the 80 bytes of a line or reads outside the block, and prints one line of 79 characters for every
  16 bytes or rest of them.\<close>

theorem print_hex_fits:
  assumes "off \<le> end" "end \<le> length m"
  shows "\<exists>ls. print_hex off end m = Some ls \<and> length ls = (end - off + 15) div 16 \<and> (\<forall>l \<in> set ls. length l = 79)"
  using print_hex_lines [OF assms] by blast

theorem print_hex_fits_witness:
  "\<exists>ls. print_hex 3 40 (replicate 50 0x41) = Some ls \<and> length ls = 3"
  using print_hex_fits [of 3 40 "replicate 50 0x41"] by auto

text \<open>C24: The report of an error. Around an error inside the block \<open>show_error\<close> reads nothing outside the block: it dumps
  at most 512 bytes of it, from a multiple of 16 less than 272 bytes before the error, the byte of the error among
  them. Each line shows its 16 bytes of the block, in hexadecimal and the printable ones as characters; on the
  standard output are the offsets of this part in hexadecimal.\<close>

theorem show_error_window:
  assumes "error_base bp n = Some (m, off, end_off)" "off < end_off" "end_off \<le> length m"
  shows "let lo = 16 * ((off - 256) div 16); hi = min end_off (lo + 512) in lo \<le> off \<and> off < lo + 272 \<and> off < hi \<and>
    (\<exists>l ls. show_error bp n = Some (fmt_x lo @ lit '' -> '' @ fmt_x hi @ [0x0a], l # ls)
      \<and> length ls = (hi - lo + 15) div 16 \<and> (\<forall>l \<in> set ls. length l = 79)
      \<and> (\<forall>j < length ls. hex_shows (ls ! j) (take 16 (drop (lo + 16 * j) (take hi m)))))"
proof -
  define lo hi where lo_def: "lo = 16 * ((off - 256) div 16)" and hi: "hi = min end_off (lo + 512)"
  have lo: "lo = off - 256 - (off - 256) mod 16"
    by (simp add: lo_def minus_mod_eq_mult_div)
  have "(off - 256) mod 16 < 16" by simp
  with lo have lo: "lo = off - 256 - (off - 256) mod 16" "lo \<le> off" "off < lo + 272" by linarith+
  have "(if off < 256 then 0 else off - 256) = off - 256" by simp
  then have "error_window off end_off = (lo, hi)"
    unfolding error_window_def Let_def by (simp only: lo(1) [symmetric]) (simp add: hi min_def)
  moreover have "lo \<le> hi" "hi \<le> length m" "off < hi" using assms(2,3) lo(2,3) by (auto simp: hi)
  ultimately have "off < hi \<and> (\<exists>l ls. show_error bp n = Some (fmt_x lo @ lit '' -> '' @ fmt_x hi @ [0x0a], l # ls)
      \<and> length ls = (hi - lo + 15) div 16 \<and> (\<forall>l \<in> set ls. length l = 79)
      \<and> (\<forall>j < length ls. hex_shows (ls ! j) (take 16 (drop (lo + 16 * j) (take hi m)))))"
    using print_hex_lines [of lo hi m] assms(1,2) by (auto simp: show_error_def)
  with lo(2,3) show ?thesis unfolding Let_def lo_def [symmetric] hi [symmetric] by blast
qed

theorem show_error_window_witness:
  "\<exists>l ls. show_error (RdbBufptr_init (Ptr False (replicate 600 0x41) 300) 300) 600 = Some (lit ''20 -> 220'' @ [0x0a], l # ls) \<and> length ls = 32"
proof -
  have "fmt_x 32 @ lit '' -> '' @ fmt_x 544 = lit ''20 -> 220''" by code_simp
  with show_error_window [of "RdbBufptr_init (Ptr False (replicate 600 0x41) 300) 300" 600 "replicate 600 0x41" 300 600]
  show ?thesis by (auto simp: error_base_def RdbBufptr_init_def Let_def)
qed


section \<open>Plain key filters\<close>

lemma tolower_0: "tolower c = 0 \<longleftrightarrow> c = 0"
proof
  assume c: "tolower c = 0"
  show "c = 0"
  proof (cases "0x41 \<le> c \<and> c \<le> 0x5a")
    case True
    then have "unat c + unat (0x20 :: u8) < 2 ^ LENGTH(8)" by (simp add: word_le_nat_alt)
    then have "unat (c + 0x20) = unat c + 0x20" by (subst unat_plus_if') simp
    with c True show ?thesis by (simp add: tolower_def word_le_nat_alt)
  qed (use c in \<open>auto simp: tolower_def\<close>)
qed (simp add: tolower_def)

lemma strncaseeq_map:
  "length as = length bs \<Longrightarrow> 0 \<notin> set bs \<Longrightarrow> strncaseeq as bs \<longleftrightarrow> map tolower as = map tolower bs"
proof (induction as bs rule: list_induct2)
  case (Cons a as b bs)
  have "a \<noteq> 0" if "tolower a = tolower b" using that Cons.prems tolower_0 by (metis list.set_intros(1))
  with Cons show ?case by auto
qed simp

text \<open>C20: A filter without wildcards selects exactly one name. For an expression of 1 to 40 characters without
  \<open>* ? [ |\<close>, a string key matches if and only if it is the expression, or the same up to the case of
  letters when case is ignored; inverting the filter inverts the answer. Integer keys never match.\<close>

theorem plain_filter_matches:
  assumes "\<not> is_glob expr" "expr \<noteq> []" "0 \<notin> set expr" "str_val key = Some v"
    and "set_filter_expr P expr ign invt PcreFilter_new = (ok, f)"
  shows "ok \<and> match_key P f key = Some (invt \<noteq> (case v of
      StrVal cs \<Rightarrow> if ign then map tolower cs = map tolower expr else cs = expr | _ \<Rightarrow> False))"
proof -
  have len: "length expr \<le> 40" using assms(1) by (auto simp: is_glob_def NAME_SIZE_def)
  have f: "ok" "pf_name_len f = length expr" "take (length expr) (pf_name f) = expr" "pf_invert f = invt" "pf_ignore_case f = ign"
    using assms(1,5) len
    by (auto simp: set_filter_expr_def Let_def PcreFilter_new_def NAME_SIZE_def split: if_splits)
  show ?thesis
  proof (cases v)
    case (StrVal cs)
    with assms(2-4) f show ?thesis
      by (cases "length cs = length expr") (auto simp: match_key_def strncaseeq_map dest: map_eq_imp_length_eq)
  qed (use assms(4) f in \<open>auto simp: match_key_def\<close>)
qed

theorem plain_filter_matches_witness:
  "\<exists>f. set_filter_expr \<lparr>pcre_compiles = (\<lambda>_. True), pcre_match = (\<lambda>_ _. 0)\<rparr> [0x61, 0x62] True False PcreFilter_new = (True, f)
    \<and> match_key \<lparr>pcre_compiles = (\<lambda>_. True), pcre_match = (\<lambda>_ _. 0)\<rparr> f (set_str (Ptr False [0x41, 0x62] 0) 2 RdbString_new) = Some True"
proof -
  let ?P = "\<lparr>pcre_compiles = (\<lambda>_. True), pcre_match = (\<lambda>_ _. 0)\<rparr>"
  obtain ok f where f: "set_filter_expr ?P [0x61, 0x62] True False PcreFilter_new = (ok, f)" by fastforce
  have "\<not> is_glob [0x61, 0x62]" "map tolower [0x41, 0x62] = map tolower [0x61, 0x62]" by code_simp+
  with plain_filter_matches [OF _ _ _ _ f, of "set_str (Ptr False [0x41, 0x62] 0) 2 RdbString_new" "StrVal [0x41, 0x62]"] f
  show ?thesis by (simp add: rdn_def)
qed

end
